(* ===== verification/Prelude.thy ===== *)
theory Prelude
  imports Complex_Main "HOL-Library.Multiset"
begin

text \<open>
  Shared vocabulary of the development: the type names, the pieces of Python's builtins the
  runtime uses (truthiness of optional numbers, half-even rounding, decimal rendering,
  \<open>str.split\<close>, \<open>str.strip\<close>, \<open>str.join\<close>, \<open>str.replace\<close>) and the collections of
  automation that the component theories feed.

  A Python \<open>float\<close> is an exact rational here, a Python \<open>int\<close> is an \<open>int\<close>, and a
  Python \<open>str\<close> is a list of \<open>char\<close>, each \<open>char\<close> standing for the Unicode code
  point of the same number (so the strings of the model are those over U+0000 to U+00FF).
\<close>

named_theorems request_simps "equations of the request record operations"
named_theorems handle_simps "equations of the response handles"
named_theorems sched_simps "equations of the scheduler operations"
named_theorems metric_simps "equations of the metrics collector"

type_synonym seconds = rat
type_synonym ref = nat

section \<open>Numbers\<close>

text \<open>\<open>round(x)\<close>: nearest integer, ties to the even one.\<close>

definition py_round :: "rat \<Rightarrow> int" where
  "py_round x = (let f = \<lfloor>x\<rfloor>; d = x - of_int f in
     if d < 1 / 2 then f
     else if 1 / 2 < d then f + 1
     else if even f then f else f + 1)"

text \<open>\<open>int(x)\<close> on a float: truncation towards zero.\<close>

definition py_trunc :: "rat \<Rightarrow> int" where
  "py_trunc x = (if 0 \<le> x then \<lfloor>x\<rfloor> else \<lceil>x\<rceil>)"

text \<open>\<open>a or b\<close> on optional numbers: \<open>None\<close> and zero are both false.\<close>

definition py_or :: "rat option \<Rightarrow> rat option \<Rightarrow> rat option" where
  "py_or a b = (case a of None \<Rightarrow> b | Some x \<Rightarrow> if x = 0 then b else a)"

lemma py_or_None [simp]: "py_or None b = b"
  by (simp add: py_or_def)

lemma py_round_of_int [simp]: "py_round (of_int n) = n"
  by (simp add: py_round_def)

lemma py_round_close: "\<bar>of_int (py_round x) - x\<bar> \<le> 1 / 2"
proof -
  have "of_int \<lfloor>x\<rfloor> \<le> x" "x < of_int \<lfloor>x\<rfloor> + 1" by linarith+
  then show ?thesis by (auto simp: py_round_def Let_def abs_le_iff)
qed

lemma py_round_mono:
  assumes "x \<le> y" shows "py_round x \<le> py_round y"
proof (cases "\<lfloor>x\<rfloor> = \<lfloor>y\<rfloor>")
  case True
  with assms show ?thesis by (auto simp: py_round_def Let_def)
next
  case False
  with floor_mono [OF assms] have "\<lfloor>x\<rfloor> + 1 \<le> \<lfloor>y\<rfloor>" by simp
  moreover have "py_round x \<le> \<lfloor>x\<rfloor> + 1" "\<lfloor>y\<rfloor> \<le> py_round y"
    by (auto simp: py_round_def Let_def)
  ultimately show ?thesis by linarith
qed

lemma py_round_ge_of_int: "of_int n \<le> x \<Longrightarrow> n \<le> py_round x"
  using py_round_mono [of "of_int n" x] by simp

lemma py_round_le_of_int: "x \<le> of_int n \<Longrightarrow> py_round x \<le> n"
  using py_round_mono [of x "of_int n"] by simp

section \<open>Decimal rendering\<close>

definition digit :: "nat \<Rightarrow> char" where
  "digit n = char_of (48 + n)"

fun str_nat :: "nat \<Rightarrow> string" where
  "str_nat n = (if n < 10 then [digit n] else str_nat (n div 10) @ [digit (n mod 10)])"

declare str_nat.simps [simp del]

definition str_int :: "int \<Rightarrow> string" where
  "str_int i = (if i < 0 then ''-'' @ str_nat (nat (- i)) else str_nat (nat i))"

definition is_ascii_digit :: "char \<Rightarrow> bool" where
  "is_ascii_digit c \<longleftrightarrow> 48 \<le> (of_char c :: nat) \<and> (of_char c :: nat) \<le> 57"

definition digits_val :: "string \<Rightarrow> nat" where
  "digits_val s = foldl (\<lambda>a c. 10 * a + (of_char c - 48)) 0 s"

lemma digits_val_snoc: "digits_val (s @ [c]) = 10 * digits_val s + (of_char c - 48)"
  by (simp add: digits_val_def)

lemma of_char_digit: "n < 10 \<Longrightarrow> (of_char (digit n) :: nat) = 48 + n"
  by (simp add: digit_def)

lemma digits_val_str_nat [simp]: "digits_val (str_nat n) = n"
proof (induction n rule: str_nat.induct)
  case (1 n)
  show ?case
  proof (cases "n < 10")
    case True
    then show ?thesis
      by (subst str_nat.simps) (simp add: digits_val_def of_char_digit)
  next
    case False
    with 1 show ?thesis
      by (subst str_nat.simps) (simp add: digits_val_snoc of_char_digit)
  qed
qed

lemma str_nat_inj [simp]: "str_nat m = str_nat n \<longleftrightarrow> m = n"
  by (metis digits_val_str_nat)

lemma str_nat_digits: "c \<in> set (str_nat n) \<Longrightarrow> is_ascii_digit c"
proof (induction n rule: str_nat.induct)
  case (1 n)
  have d: "is_ascii_digit (digit k)" if "k < 10" for k
    using that by (simp add: is_ascii_digit_def of_char_digit)
  show ?case
    using 1 d by (cases "n < 10") (auto simp: str_nat.simps [of n])
qed

lemma str_nat_nonempty [simp]: "str_nat n \<noteq> []"
  by (subst str_nat.simps) simp

lemma not_digit_minus: "\<not> is_ascii_digit (CHR ''-'')"
  by (simp add: is_ascii_digit_def)

lemma str_int_inj [simp]: "str_int i = str_int j \<longleftrightarrow> i = j"
proof -
  have no: "''-'' @ str_nat a \<noteq> str_nat b" for a b
    using str_nat_digits [of "CHR ''-''" b] not_digit_minus
    by (metis append_Cons list.set_intros(1))
  show ?thesis
    using no no [symmetric] by (auto simp: str_int_def)
qed

section \<open>Strings\<close>

text \<open>The characters \<open>str.isspace\<close> accepts below U+0100.\<close>

definition py_isspace :: "char \<Rightarrow> bool" where
  "py_isspace c \<longleftrightarrow> c \<in> set [CHR 0x09, CHR 0x0A, CHR 0x0B, CHR 0x0C, CHR 0x0D,
     CHR 0x1C, CHR 0x1D, CHR 0x1E, CHR 0x1F, CHR 0x20, CHR 0x85, CHR 0xA0]"

abbreviation newline :: char where
  "newline \<equiv> CHR 0x0A"

text \<open>\<open>s.split()\<close>: the maximal runs of non-space characters; \<open>w\<close> is the word being
  read, reversed.\<close>

fun split_ws :: "string \<Rightarrow> string \<Rightarrow> string list" where
  "split_ws [] w = (if w = [] then [] else [rev w])"
| "split_ws (c # cs) w =
     (if py_isspace c then (if w = [] then split_ws cs [] else rev w # split_ws cs [])
      else split_ws cs (c # w))"

definition py_split :: "string \<Rightarrow> string list" where
  "py_split s = split_ws s []"

definition py_lstrip :: "string \<Rightarrow> string" where
  "py_lstrip s = dropWhile py_isspace s"

definition py_strip :: "string \<Rightarrow> string" where
  "py_strip s = rev (py_lstrip (rev (py_lstrip s)))"

text \<open>\<open>sep.join(xs)\<close>.\<close>

fun py_join :: "string \<Rightarrow> string list \<Rightarrow> string" where
  "py_join sep [] = []"
| "py_join sep [x] = x"
| "py_join sep (x # y # xs) = x @ sep @ py_join sep (y # xs)"

text \<open>\<open>s.replace(c, t)\<close> for a one-character pattern \<open>c\<close>.\<close>

definition py_replace :: "char \<Rightarrow> string \<Rightarrow> string \<Rightarrow> string" where
  "py_replace c t s = concat (map (\<lambda>d. if d = c then t else [d]) s)"

definition py_startswith :: "string \<Rightarrow> string \<Rightarrow> bool" where
  "py_startswith s p \<longleftrightarrow> take (length p) s = p"

lemma split_ws_space:
  "py_isspace c \<Longrightarrow> split_ws (a @ c # b) w = split_ws a w @ split_ws b []"
  by (induction a w rule: split_ws.induct) auto

lemma py_split_space: "py_isspace c \<Longrightarrow> py_split (a @ c # b) = py_split a @ py_split b"
  by (simp add: py_split_def split_ws_space)

lemma split_ws_word:
  "\<forall>c \<in> set s. \<not> py_isspace c \<Longrightarrow>
   split_ws s w = (if rev w @ s = [] then [] else [rev w @ s])"
  by (induction s arbitrary: w) auto

lemma py_split_word: "\<forall>c \<in> set s. \<not> py_isspace c \<Longrightarrow> s \<noteq> [] \<Longrightarrow> py_split s = [s]"
  by (simp add: py_split_def split_ws_word)

lemma py_split_join:
  assumes "py_isspace c"
  shows "py_split (py_join [c] xs) = concat (map py_split xs)"
  using assms
proof (induction "[c]" xs rule: py_join.induct)
  case 1
  show ?case by (simp add: py_split_def)
next
  case (2 x)
  show ?case by simp
next
  case (3 x y xs)
  then show ?case by (simp add: py_split_space)
qed

lemma py_strip_id:
  assumes "s \<noteq> []" "\<not> py_isspace (hd s)" "\<not> py_isspace (last s)"
  shows "py_strip s = s"
proof -
  have l: "py_lstrip s = s"
    using assms(1,2) by (cases s) (auto simp: py_lstrip_def)
  have "rev s \<noteq> []" "\<not> py_isspace (hd (rev s))"
    using assms(1,3) by (auto simp: hd_rev)
  then have "py_lstrip (rev s) = rev s"
    by (cases "rev s") (auto simp: py_lstrip_def)
  with l show ?thesis by (simp add: py_strip_def)
qed

section \<open>Lists\<close>

lemma sum_list_map_add_const:
  fixes k :: nat
  shows "(\<Sum>x\<leftarrow>xs. k + f x) = k * length xs + sum_list (map f xs)"
  by (induction xs) auto

lemma length_concat_map: "length (concat (map f xs)) = (\<Sum>x\<leftarrow>xs. length (f x))"
  by (simp add: length_concat comp_def)

lemma mset_nth_remove:
  assumes "i < length xs"
  shows "mset xs = add_mset (xs ! i) (mset (take i xs @ drop (Suc i) xs))"
  using assms by (metis id_take_nth_drop mset.simps(2) mset_append union_mset_add_mset_right)

lemma int_sum_list_map: "int (\<Sum>x\<leftarrow>xs. f x) = (\<Sum>x\<leftarrow>xs. int (f x))"
  by (induction xs) simp_all

lemma distinct_count_le_1: "distinct xs \<longleftrightarrow> (\<forall>a. count (mset xs) a \<le> 1)"
proof
  assume "distinct xs"
  then show "\<forall>a. count (mset xs) a \<le> 1" by (simp add: distinct_count_atmost_1)
next
  assume le: "\<forall>a. count (mset xs) a \<le> 1"
  have "count (mset xs) a = (if a \<in> set xs then 1 else 0)" for a
    using le [rule_format, of a] count_greater_zero_iff [of "mset xs" a]
    by (cases "a \<in> set xs") (auto simp: not_in_iff le_Suc_eq)
  then show "distinct xs" by (simp add: distinct_count_atmost_1)
qed

lemma distinct_sub_mset:
  assumes "mset xs \<subseteq># mset ys" and "distinct ys" shows "distinct xs"
  using assms by (meson distinct_count_le_1 mset_subset_eq_count order_trans)

end
