(* ===== verification/Config.thy ===== *)
theory Config
  imports Prelude
begin

text \<open>
  \<open>config.py\<close>: the settings with the bounds that pydantic enforces on them, and their reading
  from environment variables with Python's \<open>int()\<close> and \<open>float()\<close>. A setting is a finite
  number here: a text like \<open>inf\<close> or \<open>nan\<close>, which \<open>float()\<close> accepts, ends the reading
  with an error of its own.
\<close>

section \<open>Numbers from text\<close>

text \<open>The sign, and underscores between two digits, are taken off the text first.\<close>

definition split_sign :: "string \<Rightarrow> bool \<times> string" where
  "split_sign s =
     (case s of
        [] \<Rightarrow> (False, [])
      | c # cs \<Rightarrow> if c = CHR ''-'' then (True, cs) else if c = CHR ''+'' then (False, cs) else (False, s))"

fun drop_underscores :: "bool \<Rightarrow> string \<Rightarrow> string option" where
  "drop_underscores after_digit [] = Some []"
| "drop_underscores after_digit (c # cs) =
     (if c = CHR ''_'' then
        (if after_digit \<and> cs \<noteq> [] \<and> is_ascii_digit (hd cs) then drop_underscores False cs else None)
      else map_option ((#) c) (drop_underscores (is_ascii_digit c) cs))"

text \<open>\<open>int(s)\<close>; \<open>None\<close> is \<open>ValueError\<close>, which texts of more than 4300 digits give too.\<close>

definition py_int :: "string \<Rightarrow> int option" where
  "py_int s =
     (let (neg, body) = split_sign (py_strip s) in
      case drop_underscores False body of
        None \<Rightarrow> None
      | Some ds \<Rightarrow>
          if ds = [] \<or> \<not> list_all is_ascii_digit ds \<or> 4300 < length ds then None
          else Some (if neg then - int (digits_val ds) else int (digits_val ds)))"

text \<open>\<open>s.lower()\<close> on the characters of the model.\<close>

definition lower_char :: "char \<Rightarrow> char" where
  "lower_char c =
     (let n = of_char c :: nat in
      if 65 \<le> n \<and> n \<le> 90 \<or> 192 \<le> n \<and> n \<le> 222 \<and> n \<noteq> 215 then char_of (n + 32) else c)"

definition py_lower :: "string \<Rightarrow> string" where
  "py_lower s = map lower_char s"

datatype float_value = Finite rat | NonFinite

definition float_exponent :: "string \<Rightarrow> int option" where
  "float_exponent s =
     (case s of
        [] \<Rightarrow> Some 0
      | c # cs \<Rightarrow>
          if c = CHR ''e'' \<or> c = CHR ''E''
          then (let (neg, ds) = split_sign cs in
                if ds = [] \<or> \<not> list_all is_ascii_digit ds then None
                else Some (if neg then - int (digits_val ds) else int (digits_val ds)))
          else None)"

definition scale10 :: "rat \<Rightarrow> int \<Rightarrow> rat" where
  "scale10 x e = (if 0 \<le> e then x * 10 ^ nat e else x / 10 ^ nat (- e))"

text \<open>\<open>float(s)\<close>, exact and unbounded.\<close>

definition py_float :: "string \<Rightarrow> float_value option" where
  "py_float s =
     (let (neg, body) = split_sign (py_strip s) in
      if py_lower body \<in> set [''inf'', ''infinity'', ''nan''] then Some NonFinite
      else
        (case drop_underscores False body of
           None \<Rightarrow> None
         | Some t \<Rightarrow>
             (let ip = takeWhile is_ascii_digit t;
                  r1 = dropWhile is_ascii_digit t;
                  r2 = (if take 1 r1 = ''.'' then drop 1 r1 else []);
                  fp = takeWhile is_ascii_digit r2;
                  r3 = (if take 1 r1 = ''.'' then dropWhile is_ascii_digit r2 else r1) in
              if ip @ fp = [] then None
              else
                (case float_exponent r3 of
                   None \<Rightarrow> None
                 | Some e \<Rightarrow>
                     (let x = scale10 (of_nat (digits_val (ip @ fp))) (e - int (length fp)) in
                      Some (Finite (if neg then - x else x)))))))"

section \<open>Settings\<close>

record settings =
  cf_backend :: string
  cf_scheduler :: string
  cf_priority_aging_boost_interval_s :: rat
  cf_enable_batching :: bool
  cf_prefill_latency_ms :: int
  cf_decode_latency_ms :: int
  cf_max_batch_size :: int
  cf_batch_timeout_ms :: int
  cf_request_timeout_s :: rat
  cf_max_queue_size :: int
  cf_request_rate_limit_per_s :: rat
  cf_request_rate_limit_burst :: int
  cf_native_backend_concurrency :: int
  cf_model_path :: string
  cf_n_ctx :: int
  cf_n_gpu_layers :: int
  cf_vllm_port :: int
  cf_vllm_gpu_memory_utilization :: rat
  cf_vllm_max_model_len :: "int option"
  cf_vllm_command :: string

text \<open>The fields whose value is outside the bounds of their \<open>Field\<close>.\<close>

definition settings_errors :: "settings \<Rightarrow> string list" where
  "settings_errors s = map fst (filter (\<lambda>(f, ok). \<not> ok)
     [(''priority_aging_boost_interval_s'', 0 \<le> cf_priority_aging_boost_interval_s s),
      (''prefill_latency_ms'', 0 \<le> cf_prefill_latency_ms s),
      (''decode_latency_ms'', 0 \<le> cf_decode_latency_ms s),
      (''max_batch_size'', 1 \<le> cf_max_batch_size s),
      (''batch_timeout_ms'', 0 \<le> cf_batch_timeout_ms s),
      (''request_timeout_s'', 0 < cf_request_timeout_s s),
      (''max_queue_size'', 0 \<le> cf_max_queue_size s),
      (''request_rate_limit_per_s'', 0 \<le> cf_request_rate_limit_per_s s),
      (''request_rate_limit_burst'', 0 \<le> cf_request_rate_limit_burst s),
      (''native_backend_concurrency'', 1 \<le> cf_native_backend_concurrency s),
      (''n_ctx'', 128 \<le> cf_n_ctx s),
      (''vllm_gpu_memory_utilization'',
         1 / 10 \<le> cf_vllm_gpu_memory_utilization s \<and> cf_vllm_gpu_memory_utilization s \<le> 1)])"

section \<open>Reading the environment\<close>

datatype config_error = BadLiteral string | NotFinite string | ValidationError "string list"

type_synonym environ = "string \<Rightarrow> string option"

definition getenv :: "environ \<Rightarrow> string \<Rightarrow> string \<Rightarrow> string" where
  "getenv env k dflt = (case env k of None \<Rightarrow> dflt | Some v \<Rightarrow> v)"

definition and_then :: "'e + 'a \<Rightarrow> ('a \<Rightarrow> 'e + 'b) \<Rightarrow> 'e + 'b" where
  "and_then x f = (case x of Inl e \<Rightarrow> Inl e | Inr v \<Rightarrow> f v)"

definition env_int :: "environ \<Rightarrow> string \<Rightarrow> string \<Rightarrow> config_error + int" where
  "env_int env k dflt = (case py_int (getenv env k dflt) of None \<Rightarrow> Inl (BadLiteral k) | Some i \<Rightarrow> Inr i)"

definition env_float :: "environ \<Rightarrow> string \<Rightarrow> string \<Rightarrow> config_error + rat" where
  "env_float env k dflt =
     (case py_float (getenv env k dflt) of
        None \<Rightarrow> Inl (BadLiteral k)
      | Some NonFinite \<Rightarrow> Inl (NotFinite k)
      | Some (Finite x) \<Rightarrow> Inr x)"

definition env_int_or_none :: "environ \<Rightarrow> string \<Rightarrow> config_error + int option" where
  "env_int_or_none env k =
     (let v = getenv env k '''' in
      if v = '''' then Inr None
      else (case py_int v of None \<Rightarrow> Inl (BadLiteral k) | Some i \<Rightarrow> Inr (Some i)))"

definition env_flag :: "environ \<Rightarrow> string \<Rightarrow> string \<Rightarrow> bool" where
  "env_flag env k dflt = (py_lower (getenv env k dflt) \<in> set [''1'', ''true'', ''yes'', ''on''])"

text \<open>\<open>os.path.join\<close> of two parts.\<close>

definition path_join :: "string \<Rightarrow> string \<Rightarrow> string" where
  "path_join a b =
     (if py_startswith b ''/'' then b
      else if a = [] \<or> last a = CHR ''/'' then a @ b
      else a @ ''/'' @ b)"

definition default_model :: "string \<Rightarrow> string" where
  "default_model here = foldl path_join here
     [''..'', ''..'', ''..'', ''..'', ''llama.cpp'', ''models'', ''Qwen3-4B-Instruct-2507-Q4_K_M.gguf'']"

text \<open>\<open>here\<close> is the directory of the module; the arguments of \<open>Settings(...)\<close> are evaluated
  in order, then all fields are validated.\<close>

definition get_settings :: "string \<Rightarrow> environ \<Rightarrow> config_error + settings" where
  "get_settings here env =
     and_then (env_float env ''LLM_RUNTIME_PRIORITY_AGING_BOOST_INTERVAL_S'' ''0'') (\<lambda>aging.
     and_then (env_int env ''LLM_RUNTIME_PREFILL_LATENCY_MS'' ''25'') (\<lambda>prefill.
     and_then (env_int env ''LLM_RUNTIME_DECODE_LATENCY_MS'' ''10'') (\<lambda>decode.
     and_then (env_int env ''LLM_RUNTIME_MAX_BATCH_SIZE'' ''8'') (\<lambda>batch_size.
     and_then (env_int env ''LLM_RUNTIME_BATCH_TIMEOUT_MS'' ''10'') (\<lambda>batch_timeout.
     and_then (env_float env ''LLM_RUNTIME_REQUEST_TIMEOUT_S'' ''120'') (\<lambda>request_timeout.
     and_then (env_int env ''LLM_RUNTIME_MAX_QUEUE_SIZE'' ''0'') (\<lambda>queue_cap.
     and_then (env_float env ''LLM_RUNTIME_REQUEST_RATE_LIMIT_PER_S'' ''0'') (\<lambda>rate.
     and_then (env_int env ''LLM_RUNTIME_REQUEST_RATE_LIMIT_BURST'' ''0'') (\<lambda>burst.
     and_then (env_int env ''LLM_RUNTIME_NATIVE_BACKEND_CONCURRENCY'' ''4'') (\<lambda>concurrency.
     and_then (env_int env ''LLM_RUNTIME_N_CTX'' ''2048'') (\<lambda>n_ctx.
     and_then (env_int env ''LLM_RUNTIME_N_GPU_LAYERS'' ''0'') (\<lambda>gpu_layers.
     and_then (env_int env ''LLM_RUNTIME_VLLM_PORT'' ''8082'') (\<lambda>vport.
     and_then (env_float env ''LLM_RUNTIME_VLLM_GPU_MEMORY_UTILIZATION'' ''0.9'') (\<lambda>util.
     and_then (env_int_or_none env ''LLM_RUNTIME_VLLM_MAX_MODEL_LEN'') (\<lambda>max_len.
       (let s = \<lparr>cf_backend = getenv env ''LLM_RUNTIME_BACKEND'' ''mock'',
                cf_scheduler = getenv env ''LLM_RUNTIME_SCHEDULER'' ''fifo'',
                cf_priority_aging_boost_interval_s = aging,
                cf_enable_batching = env_flag env ''LLM_RUNTIME_ENABLE_BATCHING'' ''true'',
                cf_prefill_latency_ms = prefill, cf_decode_latency_ms = decode,
                cf_max_batch_size = batch_size, cf_batch_timeout_ms = batch_timeout,
                cf_request_timeout_s = request_timeout, cf_max_queue_size = queue_cap,
                cf_request_rate_limit_per_s = rate, cf_request_rate_limit_burst = burst,
                cf_native_backend_concurrency = concurrency,
                cf_model_path = getenv env ''LLM_RUNTIME_MODEL_PATH'' (default_model here),
                cf_n_ctx = n_ctx, cf_n_gpu_layers = gpu_layers, cf_vllm_port = vport,
                cf_vllm_gpu_memory_utilization = util, cf_vllm_max_model_len = max_len,
                cf_vllm_command = getenv env ''LLM_RUNTIME_VLLM_COMMAND'' ''vllm''\<rparr> in
        case settings_errors s of [] \<Rightarrow> Inr s | e # es \<Rightarrow> Inl (ValidationError (e # es))))))))))))))))))"

section \<open>Lemmas\<close>

lemma and_then_simps [simp]:
  "and_then (Inl e) f = Inl e" "and_then (Inr v) f = f v"
  by (simp_all add: and_then_def)

lemma and_then_Inr: "and_then x f = Inr y \<longleftrightarrow> (\<exists>v. x = Inr v \<and> f v = Inr y)"
  by (cases x) simp_all

lemma drop_underscores_digits: "\<forall>c \<in> set s. is_ascii_digit c \<Longrightarrow> drop_underscores b s = Some s"
proof (induction s arbitrary: b)
  case (Cons c cs)
  then have "c \<noteq> CHR ''_''" by (auto simp: is_ascii_digit_def)
  with Cons show ?case by simp
qed simp

lemma digit_not_space: "is_ascii_digit c \<Longrightarrow> \<not> py_isspace c \<and> c \<noteq> CHR ''-'' \<and> c \<noteq> CHR ''+''"
  by (auto simp: is_ascii_digit_def py_isspace_def)

lemma str_nat_strip: "py_strip (str_nat n) = str_nat n" "split_sign (str_nat n) = (False, str_nat n)"
proof -
  obtain c cs where c: "str_nat n = c # cs" by (cases "str_nat n") auto
  have d: "is_ascii_digit x" if "x \<in> set (str_nat n)" for x using that by (rule str_nat_digits)
  have "is_ascii_digit (hd (str_nat n))" "is_ascii_digit (last (str_nat n))"
    by (intro d; simp)+
  then show "py_strip (str_nat n) = str_nat n"
    by (intro py_strip_id) (simp_all add: digit_not_space)
  show "split_sign (str_nat n) = (False, str_nat n)"
    using d [of c] c digit_not_space [of c] by (simp add: split_sign_def)
qed

lemma py_int_str_nat: "length (str_nat n) \<le> 4300 \<Longrightarrow> py_int (str_nat n) = Some (int n)"
  using str_nat_digits [of _ n]
  by (simp add: py_int_def str_nat_strip drop_underscores_digits list_all_iff)

lemma py_int_str_int:
  assumes "length (str_nat (nat \<bar>i\<bar>)) \<le> 4300"
  shows "py_int (str_int i) = Some i"
proof (cases "i < 0")
  case False
  with assms show ?thesis by (simp add: str_int_def py_int_str_nat)
next
  case True
  let ?n = "nat (- i)"
  have d: "is_ascii_digit x" if "x \<in> set (str_nat ?n)" for x using that by (rule str_nat_digits)
  have "is_ascii_digit (last (str_nat ?n))" by (intro d) simp
  then have "py_strip (''-'' @ str_nat ?n) = ''-'' @ str_nat ?n"
    by (intro py_strip_id) (simp_all add: digit_not_space, simp add: py_isspace_def)
  with True assms d show ?thesis
    by (simp add: str_int_def py_int_def split_sign_def drop_underscores_digits list_all_iff)
qed

text \<open>An error is explained when it names the variable that holds the offending text, or a field.\<close>

fun error_explained :: "environ \<Rightarrow> config_error \<Rightarrow> bool" where
  "error_explained env (BadLiteral k) =
     (case env k of None \<Rightarrow> False | Some v \<Rightarrow> py_int v = None \<or> py_float v = None)"
| "error_explained env (NotFinite k) =
     (case env k of None \<Rightarrow> False | Some v \<Rightarrow> py_float v = Some NonFinite)"
| "error_explained env (ValidationError fs) = (fs \<noteq> [])"

definition reading_ok :: "environ \<Rightarrow> config_error + settings \<Rightarrow> bool" where
  "reading_ok env r = (case r of Inl e \<Rightarrow> error_explained env e | Inr s \<Rightarrow> settings_errors s = [])"

lemma reading_ok_step:
  assumes "\<And>e. x = Inl e \<Longrightarrow> error_explained env e" and "\<And>v. x = Inr v \<Longrightarrow> reading_ok env (f v)"
  shows "reading_ok env (and_then x f)"
  using assms by (cases x) (simp_all add: reading_ok_def)

lemma env_int_error:
  "env_int env k dflt = Inl e \<Longrightarrow> py_int dflt \<noteq> None \<Longrightarrow> error_explained env e"
  by (auto simp: env_int_def getenv_def split: option.splits)

lemma env_float_error:
  "env_float env k dflt = Inl e \<Longrightarrow> \<exists>x. py_float dflt = Some (Finite x) \<Longrightarrow> error_explained env e"
  by (auto simp: env_float_def getenv_def split: option.splits float_value.splits)

lemma env_int_or_none_error: "env_int_or_none env k = Inl e \<Longrightarrow> error_explained env e"
  by (auto simp: env_int_or_none_def getenv_def Let_def split: option.splits if_splits)

lemma number_defaults:
  "py_int ''25'' = Some 25" "py_int ''10'' = Some 10" "py_int ''8'' = Some 8" "py_int ''0'' = Some 0"
  "py_int ''4'' = Some 4" "py_int ''2048'' = Some 2048" "py_int ''8082'' = Some 8082"
  "py_float ''0'' = Some (Finite 0)" "py_float ''120'' = Some (Finite 120)"
  "py_float ''0.9'' = Some (Finite (9 / 10))"
  by code_simp+

lemma int_defaults:
  "py_int ''25'' \<noteq> None" "py_int ''10'' \<noteq> None" "py_int ''8'' \<noteq> None" "py_int ''0'' \<noteq> None"
  "py_int ''4'' \<noteq> None" "py_int ''2048'' \<noteq> None" "py_int ''8082'' \<noteq> None"
  by (simp_all add: number_defaults)

lemma float_defaults:
  "\<exists>x. py_float ''0'' = Some (Finite x)" "\<exists>x. py_float ''120'' = Some (Finite x)"
  "\<exists>x. py_float ''0.9'' = Some (Finite x)"
  using number_defaults by blast+

lemma get_settings_reading: "reading_ok env (get_settings here env)"
  unfolding get_settings_def
  by (intro reading_ok_step; (elim env_int_error env_float_error env_int_or_none_error)?;
      (intro int_defaults float_defaults)?)
    (simp add: reading_ok_def Let_def split: list.split)

section \<open>Properties\<close>


text \<open>How an operator writes settings into the environment; \<open>fmt\<close> prints the floats.\<close>

definition export_env :: "(rat \<Rightarrow> string) \<Rightarrow> settings \<Rightarrow> environ" where
  "export_env fmt s = map_of
     [(''LLM_RUNTIME_BACKEND'', cf_backend s),
      (''LLM_RUNTIME_SCHEDULER'', cf_scheduler s),
      (''LLM_RUNTIME_PRIORITY_AGING_BOOST_INTERVAL_S'', fmt (cf_priority_aging_boost_interval_s s)),
      (''LLM_RUNTIME_ENABLE_BATCHING'', if cf_enable_batching s then ''True'' else ''off''),
      (''LLM_RUNTIME_PREFILL_LATENCY_MS'', str_int (cf_prefill_latency_ms s)),
      (''LLM_RUNTIME_DECODE_LATENCY_MS'', str_int (cf_decode_latency_ms s)),
      (''LLM_RUNTIME_MAX_BATCH_SIZE'', str_int (cf_max_batch_size s)),
      (''LLM_RUNTIME_BATCH_TIMEOUT_MS'', str_int (cf_batch_timeout_ms s)),
      (''LLM_RUNTIME_REQUEST_TIMEOUT_S'', fmt (cf_request_timeout_s s)),
      (''LLM_RUNTIME_MAX_QUEUE_SIZE'', str_int (cf_max_queue_size s)),
      (''LLM_RUNTIME_REQUEST_RATE_LIMIT_PER_S'', fmt (cf_request_rate_limit_per_s s)),
      (''LLM_RUNTIME_REQUEST_RATE_LIMIT_BURST'', str_int (cf_request_rate_limit_burst s)),
      (''LLM_RUNTIME_NATIVE_BACKEND_CONCURRENCY'', str_int (cf_native_backend_concurrency s)),
      (''LLM_RUNTIME_MODEL_PATH'', cf_model_path s),
      (''LLM_RUNTIME_N_CTX'', str_int (cf_n_ctx s)),
      (''LLM_RUNTIME_N_GPU_LAYERS'', str_int (cf_n_gpu_layers s)),
      (''LLM_RUNTIME_VLLM_PORT'', str_int (cf_vllm_port s)),
      (''LLM_RUNTIME_VLLM_GPU_MEMORY_UTILIZATION'', fmt (cf_vllm_gpu_memory_utilization s)),
      (''LLM_RUNTIME_VLLM_MAX_MODEL_LEN'', case cf_vllm_max_model_len s of None \<Rightarrow> '''' | Some n \<Rightarrow> str_int n),
      (''LLM_RUNTIME_VLLM_COMMAND'', cf_vllm_command s)]"

definition settings_ints :: "settings \<Rightarrow> int set" where
  "settings_ints s =
     {cf_prefill_latency_ms s, cf_decode_latency_ms s, cf_max_batch_size s, cf_batch_timeout_ms s,
      cf_max_queue_size s, cf_request_rate_limit_burst s, cf_native_backend_concurrency s, cf_n_ctx s,
      cf_n_gpu_layers s, cf_vllm_port s} \<union> set_option (cf_vllm_max_model_len s)"

definition settings_floats :: "settings \<Rightarrow> rat set" where
  "settings_floats s =
     {cf_priority_aging_boost_interval_s s, cf_request_timeout_s s, cf_request_rate_limit_per_s s,
      cf_vllm_gpu_memory_utilization s}"

lemma env_int_some: "env k = Some (str_int i) \<Longrightarrow> py_int (str_int i) = Some i \<Longrightarrow> env_int env k d = Inr i"
  by (simp add: env_int_def getenv_def)

lemma env_float_some: "env k = Some t \<Longrightarrow> py_float t = Some (Finite x) \<Longrightarrow> env_float env k d = Inr x"
  by (simp add: env_float_def getenv_def)

lemma str_int_nonempty [simp]: "str_int i \<noteq> []"
  by (simp add: str_int_def)

lemma env_int_or_none_some:
  assumes "env k = Some (case x of None \<Rightarrow> '''' | Some n \<Rightarrow> str_int n)"
    and "\<forall>n \<in> set_option x. py_int (str_int n) = Some n"
  shows "env_int_or_none env k = Inr x"
  using assms by (cases x) (simp_all add: env_int_or_none_def getenv_def)

lemma env_flag_some:
  "env k = Some (if b then ''True'' else ''off'') \<Longrightarrow> env_flag env k d = b"
proof -
  have "py_lower ''True'' = ''true''" "py_lower ''off'' = ''off''" by code_simp+
  then show "env k = Some (if b then ''True'' else ''off'') \<Longrightarrow> env_flag env k d = b"
    by (cases b) (simp_all add: env_flag_def getenv_def)
qed

text \<open>
  C33: Every variable reaches its field. Settings within their bounds that are written to the
  environment, one variable each, are read back exactly: no variable is misspelt, swapped, parsed
  differently or lost, an empty maximal model length included.
\<close>

theorem settings_roundtrip:
  assumes "settings_errors s = []"
    and "\<forall>i \<in> settings_ints s. length (str_nat (nat \<bar>i\<bar>)) \<le> 4300"
    and "\<forall>x \<in> settings_floats s. py_float (fmt x) = Some (Finite x)"
  shows "get_settings here (export_env fmt s) = Inr s"
proof -
  have i: "py_int (str_int i) = Some i" if "i \<in> settings_ints s" for i
    using that assms(2) by (intro py_int_str_int) blast
  have ints: "\<forall>i \<in> {cf_prefill_latency_ms s, cf_decode_latency_ms s, cf_max_batch_size s, cf_batch_timeout_ms s,
      cf_max_queue_size s, cf_request_rate_limit_burst s, cf_native_backend_concurrency s, cf_n_ctx s,
      cf_n_gpu_layers s, cf_vllm_port s}. py_int (str_int i) = Some i"
    "\<forall>n \<in> set_option (cf_vllm_max_model_len s). py_int (str_int n) = Some n"
    using i unfolding settings_ints_def by blast+
  let ?e = "export_env fmt s"
  have "env_int ?e ''LLM_RUNTIME_PREFILL_LATENCY_MS'' d = Inr (cf_prefill_latency_ms s)"
    "env_int ?e ''LLM_RUNTIME_DECODE_LATENCY_MS'' d = Inr (cf_decode_latency_ms s)"
    "env_int ?e ''LLM_RUNTIME_MAX_BATCH_SIZE'' d = Inr (cf_max_batch_size s)"
    "env_int ?e ''LLM_RUNTIME_BATCH_TIMEOUT_MS'' d = Inr (cf_batch_timeout_ms s)"
    "env_int ?e ''LLM_RUNTIME_MAX_QUEUE_SIZE'' d = Inr (cf_max_queue_size s)"
    "env_int ?e ''LLM_RUNTIME_REQUEST_RATE_LIMIT_BURST'' d = Inr (cf_request_rate_limit_burst s)"
    "env_int ?e ''LLM_RUNTIME_NATIVE_BACKEND_CONCURRENCY'' d = Inr (cf_native_backend_concurrency s)"
    "env_int ?e ''LLM_RUNTIME_N_CTX'' d = Inr (cf_n_ctx s)"
    "env_int ?e ''LLM_RUNTIME_N_GPU_LAYERS'' d = Inr (cf_n_gpu_layers s)"
    "env_int ?e ''LLM_RUNTIME_VLLM_PORT'' d = Inr (cf_vllm_port s)" for d
    by (rule env_int_some; use ints(1) in \<open>simp add: export_env_def\<close>)+
  moreover have "env_float ?e ''LLM_RUNTIME_PRIORITY_AGING_BOOST_INTERVAL_S'' d = Inr (cf_priority_aging_boost_interval_s s)"
    "env_float ?e ''LLM_RUNTIME_REQUEST_TIMEOUT_S'' d = Inr (cf_request_timeout_s s)"
    "env_float ?e ''LLM_RUNTIME_REQUEST_RATE_LIMIT_PER_S'' d = Inr (cf_request_rate_limit_per_s s)"
    "env_float ?e ''LLM_RUNTIME_VLLM_GPU_MEMORY_UTILIZATION'' d = Inr (cf_vllm_gpu_memory_utilization s)" for d
    using assms(3) by (auto simp: export_env_def settings_floats_def intro!: env_float_some)
  moreover have "env_int_or_none ?e ''LLM_RUNTIME_VLLM_MAX_MODEL_LEN'' = Inr (cf_vllm_max_model_len s)"
    by (rule env_int_or_none_some [OF _ ints(2)]) (simp add: export_env_def)
  moreover have "env_flag ?e ''LLM_RUNTIME_ENABLE_BATCHING'' d = cf_enable_batching s" for d
    by (rule env_flag_some) (simp add: export_env_def)
  moreover have "getenv ?e ''LLM_RUNTIME_BACKEND'' d = cf_backend s" "getenv ?e ''LLM_RUNTIME_SCHEDULER'' d = cf_scheduler s"
    "getenv ?e ''LLM_RUNTIME_MODEL_PATH'' d = cf_model_path s" "getenv ?e ''LLM_RUNTIME_VLLM_COMMAND'' d = cf_vllm_command s" for d
    by (simp_all add: getenv_def export_env_def)
  ultimately show ?thesis using assms(1) by (cases s) (simp add: get_settings_def Let_def)
qed

definition wit_settings :: settings where
  "wit_settings =
     \<lparr>cf_backend = ''vllm'', cf_scheduler = ''priority'', cf_priority_aging_boost_interval_s = 0,
      cf_enable_batching = False, cf_prefill_latency_ms = 1, cf_decode_latency_ms = 2, cf_max_batch_size = 3,
      cf_batch_timeout_ms = 4, cf_request_timeout_s = 120, cf_max_queue_size = 5,
      cf_request_rate_limit_per_s = 0, cf_request_rate_limit_burst = 6, cf_native_backend_concurrency = 7,
      cf_model_path = ''m'', cf_n_ctx = 256, cf_n_gpu_layers = - 1, cf_vllm_port = 8,
      cf_vllm_gpu_memory_utilization = 9 / 10, cf_vllm_max_model_len = None, cf_vllm_command = ''v''\<rparr>"

definition wit_fmt :: "rat \<Rightarrow> string" where
  "wit_fmt x = (if x = 0 then ''0'' else if x = 120 then ''120'' else ''0.9'')"

theorem settings_roundtrip_witness:
  "get_settings ''/app'' (export_env wit_fmt wit_settings) = Inr wit_settings"
proof (rule settings_roundtrip)
  show "settings_errors wit_settings = []" by (simp add: settings_errors_def wit_settings_def)
  have "\<forall>i \<in> set [1, 2, 3, 4, 5, 6, 7, 256, -1, 8]. length (str_nat (nat \<bar>i\<bar>)) \<le> 4300" by code_simp
  then show "\<forall>i \<in> settings_ints wit_settings. length (str_nat (nat \<bar>i\<bar>)) \<le> 4300"
    by (simp add: settings_ints_def wit_settings_def)
  show "\<forall>x \<in> settings_floats wit_settings. py_float (wit_fmt x) = Some (Finite x)"
    by (simp add: settings_floats_def wit_settings_def wit_fmt_def number_defaults)
qed

end
