(* ===== verification/Admission.thy ===== *)
theory Admission
  imports Prelude
begin

text \<open>
  \<open>core/admission.py\<close>: the queue cap and the token bucket that guard the scheduler. The
  controller's fields are a record, a clock reading is the argument \<open>now\<close> of \<open>admit\<close> (used
  only on the path that reads the clock), and the lock around the bucket makes each call one
  step. The bucket is related to an abstract rate limiter, the generic cell rate algorithm,
  whose whole state is the time at which the backlog of admitted requests would be paid off.
\<close>

section \<open>The controller\<close>

record admission_decision =
  accepted :: bool
  reason :: string
  detail :: string
  status_code :: int

record admission_controller =
  max_queue_size :: int
  request_rate_limit_per_s :: rat
  request_rate_limit_burst :: int
  capacity :: int
  tokens :: rat
  last_refill_at :: seconds

definition bucket_capacity :: "rat \<Rightarrow> int \<Rightarrow> int" where
  "bucket_capacity rate burst =
     (if rate \<le> 0 then 0
      else if burst > 0 then burst
      else max 1 \<lceil>rate\<rceil>)"

definition init_controller :: "int \<Rightarrow> rat \<Rightarrow> int \<Rightarrow> seconds \<Rightarrow> admission_controller" where
  "init_controller max_queue rate burst now =
     \<lparr>max_queue_size = max_queue,
      request_rate_limit_per_s = rate,
      request_rate_limit_burst = burst,
      capacity = bucket_capacity rate burst,
      tokens = of_int (bucket_capacity rate burst),
      last_refill_at = now\<rparr>"

definition decision_ok :: admission_decision where
  "decision_ok = \<lparr>accepted = True, reason = '''', detail = '''', status_code = 200\<rparr>"

definition decision_queue_full :: admission_decision where
  "decision_queue_full =
     \<lparr>accepted = False, reason = ''queue_full'', detail = ''scheduler queue is full'',
      status_code = 503\<rparr>"

definition decision_rate_limited :: admission_decision where
  "decision_rate_limited =
     \<lparr>accepted = False, reason = ''rate_limited'', detail = ''request rate limit exceeded'',
      status_code = 429\<rparr>"

definition refill_locked :: "seconds \<Rightarrow> admission_controller \<Rightarrow> admission_controller" where
  "refill_locked now c =
     (let elapsed_s = max 0 (now - last_refill_at c) in
      c\<lparr>last_refill_at := now,
        tokens := min (of_int (capacity c))
                      (tokens c + elapsed_s * request_rate_limit_per_s c)\<rparr>)"

definition admit ::
  "int \<Rightarrow> seconds \<Rightarrow> admission_controller \<Rightarrow> admission_decision \<times> admission_controller" where
  "admit queue_size now c =
     (if max_queue_size c > 0 \<and> queue_size \<ge> max_queue_size c then (decision_queue_full, c)
      else if request_rate_limit_per_s c \<le> 0 then (decision_ok, c)
      else (let c1 = refill_locked now c in
        if tokens c1 < 1 then (decision_rate_limited, c1)
        else (decision_ok, c1\<lparr>tokens := tokens c1 - 1\<rparr>)))"

text \<open>A run of calls, each with the queue size it sees and the clock it reads.\<close>

fun admit_all ::
  "(int \<times> seconds) list \<Rightarrow> admission_controller \<Rightarrow> admission_decision list \<times> admission_controller"
where
  "admit_all [] c = ([], c)"
| "admit_all ((q, now) # calls) c =
     (let (d, c1) = admit q now c; (ds, c2) = admit_all calls c1 in (d # ds, c2))"

definition accepted_count :: "admission_decision list \<Rightarrow> nat" where
  "accepted_count ds = length (filter accepted ds)"

section \<open>Invariant\<close>

definition controller_inv :: "admission_controller \<Rightarrow> bool" where
  "controller_inv c \<longleftrightarrow>
     capacity c = bucket_capacity (request_rate_limit_per_s c) (request_rate_limit_burst c) \<and>
     0 \<le> tokens c \<and> tokens c \<le> of_int (capacity c)"

lemma bucket_capacity_nonneg: "0 \<le> bucket_capacity r b"
  by (simp add: bucket_capacity_def)

lemma bucket_capacity_pos: "0 < r \<Longrightarrow> 1 \<le> bucket_capacity r b"
  by (simp add: bucket_capacity_def)

lemma decision_simps [simp]:
  "accepted decision_ok" "\<not> accepted decision_queue_full" "\<not> accepted decision_rate_limited"
  by (simp_all add: decision_ok_def decision_queue_full_def decision_rate_limited_def)

lemma admit_config [simp]:
  "request_rate_limit_per_s (snd (admit q now c)) = request_rate_limit_per_s c"
  "request_rate_limit_burst (snd (admit q now c)) = request_rate_limit_burst c"
  "max_queue_size (snd (admit q now c)) = max_queue_size c"
  "capacity (snd (admit q now c)) = capacity c"
  by (simp_all add: admit_def refill_locked_def Let_def)

lemma init_controller_inv: "controller_inv (init_controller m r b now)"
  by (simp add: controller_inv_def init_controller_def bucket_capacity_nonneg)

lemma refill_inv:
  assumes "controller_inv c" and "0 < request_rate_limit_per_s c"
  shows "controller_inv (refill_locked now c)"
  using assms by (simp add: controller_inv_def refill_locked_def Let_def bucket_capacity_nonneg)

lemma admit_inv:
  assumes "controller_inv c" shows "controller_inv (snd (admit q now c))"
proof (cases "request_rate_limit_per_s c > 0")
  case True
  from refill_inv [OF assms True] show ?thesis
    using assms by (auto simp: admit_def controller_inv_def Let_def refill_locked_def)
next
  case False
  with assms show ?thesis by (simp add: admit_def)
qed

text \<open>The run in terms of its projections.\<close>

lemma admit_all_Cons:
  "fst (admit_all (x # calls) c) =
     fst (admit (fst x) (snd x) c) # fst (admit_all calls (snd (admit (fst x) (snd x) c)))"
  "snd (admit_all (x # calls) c) = snd (admit_all calls (snd (admit (fst x) (snd x) c)))"
  by (cases x; simp add: Let_def split: prod.splits)+

declare admit_all.simps(2) [simp del] admit_all_Cons [simp]

lemma admit_all_append:
  "fst (admit_all (xs @ ys) c) = fst (admit_all xs c) @ fst (admit_all ys (snd (admit_all xs c)))"
  "snd (admit_all (xs @ ys) c) = snd (admit_all ys (snd (admit_all xs c)))"
  by (induction xs arbitrary: c) simp_all

lemma admit_all_inv: "controller_inv c \<Longrightarrow> controller_inv (snd (admit_all calls c))"
  by (induction calls arbitrary: c) (auto intro: admit_inv)

lemma admit_all_config [simp]:
  "request_rate_limit_per_s (snd (admit_all calls c)) = request_rate_limit_per_s c"
  "capacity (snd (admit_all calls c)) = capacity c"
  by (induction calls arbitrary: c) simp_all

lemma accepted_count_simps [simp]:
  "accepted_count [] = 0"
  "accepted_count (d # ds) = (if accepted d then 1 else 0) + accepted_count ds"
  "accepted_count (ds @ ds') = accepted_count ds + accepted_count ds'"
  by (simp_all add: accepted_count_def)

section \<open>The rate bound\<close>

text \<open>
  One call spends a token per acceptance and earns at most \<open>rate\<close> tokens per second. The
  clock need not be fresh on the paths that do not read it, so the time of the last refill
  moves to \<open>now\<close> or stays.
\<close>

lemma admit_budget:
  assumes "0 < request_rate_limit_per_s c" and "last_refill_at c \<le> now"
  shows "of_nat (accepted_count [fst (admit q now c)]) + tokens (snd (admit q now c))
    \<le> tokens c + (last_refill_at (snd (admit q now c)) - last_refill_at c)
        * request_rate_limit_per_s c"
    and "last_refill_at c \<le> last_refill_at (snd (admit q now c))"
    and "last_refill_at (snd (admit q now c)) \<le> now"
  using assms by (auto simp: admit_def refill_locked_def Let_def)

lemma admit_all_budget:
  assumes "0 < request_rate_limit_per_s c"
    and "sorted (last_refill_at c # map snd calls)"
  shows "of_nat (accepted_count (fst (admit_all calls c))) + tokens (snd (admit_all calls c))
    \<le> tokens c + (last (last_refill_at c # map snd calls) - last_refill_at c)
        * request_rate_limit_per_s c"
  using assms
proof (induction calls arbitrary: c)
  case Nil
  then show ?case by simp
next
  case (Cons x calls)
  let ?c1 = "snd (admit (fst x) (snd x) c)" and ?r = "request_rate_limit_per_s c"
  have now: "last_refill_at c \<le> snd x" using Cons.prems(2) by simp
  note b = admit_budget [OF Cons.prems(1) now, of "fst x"]
  have srt: "sorted (last_refill_at ?c1 # map snd calls)"
    using Cons.prems(2) b(3) by auto
  have lst: "last (last_refill_at ?c1 # map snd calls) \<le> last (last_refill_at c # map snd (x # calls))"
    using b(3) by simp
  have "of_nat (accepted_count (fst (admit_all calls ?c1))) + tokens (snd (admit_all calls ?c1))
     \<le> tokens ?c1 + (last (last_refill_at ?c1 # map snd calls) - last_refill_at ?c1) * ?r"
    using Cons.IH [of ?c1] Cons.prems(1) srt by simp
  also have "\<dots> \<le> tokens ?c1 + (last (last_refill_at c # map snd (x # calls)) - last_refill_at ?c1) * ?r"
    using lst Cons.prems(1) by (simp add: mult_right_mono)
  finally show ?case using b(1) by (simp add: algebra_simps split: if_splits)
qed

text \<open>In a window of calls the bucket starts with at most its capacity.\<close>

lemma refill_tokens_le: "tokens (refill_locked now c) \<le> of_int (capacity c)"
  by (simp add: refill_locked_def Let_def)

lemma admit_cases:
  obtains (no_refill) "snd (admit q now c) = c" "max_queue_size c > 0" "q \<ge> max_queue_size c"
      "fst (admit q now c) = decision_queue_full"
  | (unlimited) "request_rate_limit_per_s c \<le> 0" "admit q now c = (decision_ok, c)"
  | (limited) "request_rate_limit_per_s c > 0" "tokens (refill_locked now c) < 1"
      "admit q now c = (decision_rate_limited, refill_locked now c)"
      "\<not> (max_queue_size c > 0 \<and> q \<ge> max_queue_size c)"
  | (spent) "request_rate_limit_per_s c > 0" "1 \<le> tokens (refill_locked now c)"
      "fst (admit q now c) = decision_ok"
      "snd (admit q now c) = (refill_locked now c)\<lparr>tokens := tokens (refill_locked now c) - 1\<rparr>"
      "\<not> (max_queue_size c > 0 \<and> q \<ge> max_queue_size c)"
  by (cases "max_queue_size c > 0 \<and> q \<ge> max_queue_size c";
      cases "request_rate_limit_per_s c > 0"; cases "tokens (refill_locked now c) < 1")
     (auto simp: admit_def Let_def)

lemma refill_frame [simp]:
  "request_rate_limit_per_s (refill_locked now c) = request_rate_limit_per_s c"
  "max_queue_size (refill_locked now c) = max_queue_size c"
  "capacity (refill_locked now c) = capacity c"
  "last_refill_at (refill_locked now c) = now"
  by (simp_all add: refill_locked_def Let_def)

lemma window_after_refill:
  assumes "0 < request_rate_limit_per_s c" "sorted (map snd (x # win))"
    and refilled: "last_refill_at (snd (admit (fst x) (snd x) c)) = snd x"
    and cap: "of_nat (accepted_count [fst (admit (fst x) (snd x) c)])
      + tokens (snd (admit (fst x) (snd x) c)) \<le> of_int (capacity c)"
    and nonneg: "0 \<le> tokens (snd (admit_all (x # win) c))"
  shows "of_nat (accepted_count (fst (admit_all (x # win) c)))
    \<le> of_int (capacity c) + request_rate_limit_per_s c * (snd (last (x # win)) - snd x)"
proof -
  have "sorted (last_refill_at (snd (admit (fst x) (snd x) c)) # map snd win)"
    using assms(2) refilled by simp
  from admit_all_budget [OF _ this] assms(1)
  have "of_nat (accepted_count (fst (admit_all win (snd (admit (fst x) (snd x) c)))))
      + tokens (snd (admit_all win (snd (admit (fst x) (snd x) c))))
     \<le> tokens (snd (admit (fst x) (snd x) c))
      + (last (snd x # map snd win) - snd x) * request_rate_limit_per_s c"
    by (simp add: refilled)
  moreover have "last (snd x # map snd win) = snd (last (x # win))"
    by (simp add: last_map)
  ultimately show ?thesis using cap nonneg by (simp add: mult.commute)
qed

lemma window_bound:
  assumes "controller_inv c" "0 < request_rate_limit_per_s c" "sorted (map snd win)" "win \<noteq> []"
  shows "of_nat (accepted_count (fst (admit_all win c)))
    \<le> of_int (capacity c) + request_rate_limit_per_s c * (snd (last win) - snd (hd win))"
  using assms
proof (induction win arbitrary: c)
  case Nil
  then show ?case by simp
next
  case (Cons x win)
  have inv: "controller_inv (snd (admit_all (x # win) c))"
    using Cons.prems(1) by (rule admit_all_inv)
  show ?case
  proof (cases rule: admit_cases [of "fst x" "snd x" c])
    case no_refill
    show ?thesis
    proof (cases "win = []")
      case True
      with no_refill Cons.prems(1) show ?thesis by (simp add: controller_inv_def)
    next
      case False
      with Cons.prems have w: "snd x \<le> snd (hd win)" by (cases win) auto
      from Cons.IH [OF Cons.prems(1,2) _ False] Cons.prems(3)
      have "of_nat (accepted_count (fst (admit_all win c)))
          \<le> of_int (capacity c) + request_rate_limit_per_s c * (snd (last win) - snd (hd win))"
        by simp
      also have "\<dots> \<le> of_int (capacity c) + request_rate_limit_per_s c * (snd (last win) - snd x)"
        using w Cons.prems(2) by (simp add: mult_left_mono)
      finally show ?thesis using no_refill False by simp
    qed
  next
    case unlimited
    with Cons.prems(2) show ?thesis by simp
  next
    case limited
    show ?thesis
      using window_after_refill [of c x win] Cons.prems inv limited refill_tokens_le [of "snd x" c]
      by (simp add: controller_inv_def)
  next
    case spent
    show ?thesis
      using window_after_refill [of c x win] Cons.prems inv spent refill_tokens_le [of "snd x" c]
      by (simp add: controller_inv_def)
  qed
qed

section \<open>Rejections are free\<close>

text \<open>
  A call that is refused leaves no trace in the decisions that follow: a bucket with less than
  one token cannot overflow, so an early refill and a late one agree.
\<close>

lemma refill_refill:
  assumes "0 < request_rate_limit_per_s c" "last_refill_at c \<le> t" "t \<le> t'"
    and "tokens (refill_locked t c) < 1" "1 \<le> capacity c"
  shows "refill_locked t' (refill_locked t c) = refill_locked t' c"
proof -
  have "tokens (refill_locked t c) = tokens c + (t - last_refill_at c) * request_rate_limit_per_s c"
    using assms by (auto simp: refill_locked_def Let_def min_def split: if_splits)
  then show ?thesis using assms
    by (simp add: refill_locked_def Let_def algebra_simps)
qed

lemma admit_after_refused_refill:
  assumes "0 < request_rate_limit_per_s c" "last_refill_at c \<le> t" "t \<le> t'"
    and "tokens (refill_locked t c) < 1" "1 \<le> capacity c"
  shows "fst (admit q t' (refill_locked t c)) = fst (admit q t' c)"
    and "snd (admit q t' (refill_locked t c)) = snd (admit q t' c) \<or>
      snd (admit q t' (refill_locked t c)) = refill_locked t c \<and> snd (admit q t' c) = c"
  using assms by (simp_all add: admit_def refill_refill)

lemma admit_all_after_refused_refill:
  assumes "0 < request_rate_limit_per_s c" "1 \<le> capacity c"
    and "sorted (last_refill_at c # t # map snd calls)" "tokens (refill_locked t c) < 1"
  shows "fst (admit_all calls (refill_locked t c)) = fst (admit_all calls c)"
  using assms
proof (induction calls)
  case Nil
  then show ?case by simp
next
  case (Cons x calls)
  have *: "last_refill_at c \<le> t" "t \<le> snd x" using Cons.prems(3) by auto
  note a = admit_after_refused_refill [OF Cons.prems(1) * Cons.prems(4,2), of "fst x"]
  have "fst (admit_all calls (refill_locked t c)) = fst (admit_all calls c)"
    using Cons by simp
  with a show ?case by auto
qed

section \<open>The abstract limiter\<close>

text \<open>
  The generic cell rate algorithm for capacity \<open>cap\<close> and rate \<open>r\<close>: a request conforms when
  the backlog ahead of it is at most \<open>cap - 1\<close> requests' worth of time, and a conforming
  request moves the theoretical arrival time by one request's worth.
\<close>

definition gcra_conforms :: "int \<Rightarrow> rat \<Rightarrow> seconds \<Rightarrow> seconds \<Rightarrow> bool" where
  "gcra_conforms cap r tat now \<longleftrightarrow> max tat now - now \<le> of_int (cap - 1) / r"

definition gcra_next :: "int \<Rightarrow> rat \<Rightarrow> seconds \<Rightarrow> seconds \<Rightarrow> seconds" where
  "gcra_next cap r tat now =
     (if gcra_conforms cap r tat now then max tat now + 1 / r else tat)"

fun gcra_run :: "int \<Rightarrow> rat \<Rightarrow> seconds \<Rightarrow> seconds list \<Rightarrow> bool list" where
  "gcra_run cap r tat [] = []"
| "gcra_run cap r tat (now # ts) =
     gcra_conforms cap r tat now # gcra_run cap r (gcra_next cap r tat now) ts"

text \<open>The abstraction: the time at which the bucket will be full again.\<close>

definition tat_of :: "admission_controller \<Rightarrow> seconds" where
  "tat_of c = last_refill_at c + (of_int (capacity c) - tokens c) / request_rate_limit_per_s c"

lemma tat_of_refill:
  assumes "0 < request_rate_limit_per_s c" "last_refill_at c \<le> now"
  shows "tat_of (refill_locked now c) = max (tat_of c) now"
proof -
  let ?r = "request_rate_limit_per_s c"
  let ?t = "tokens c + (now - last_refill_at c) * ?r"
  have tok: "tokens (refill_locked now c) = min (of_int (capacity c)) ?t"
    using assms by (simp add: refill_locked_def Let_def)
  have full: "of_int (capacity c) \<le> ?t \<longleftrightarrow> tat_of c \<le> now"
    using assms(1) by (simp add: tat_of_def field_simps)
  show ?thesis
  proof (cases "tat_of c \<le> now")
    case True
    with full tok show ?thesis by (simp add: tat_of_def [of "refill_locked now c"])
  next
    case False
    with full tok have "tokens (refill_locked now c) = ?t" by simp
    with False assms(1) show ?thesis
      by (simp add: tat_of_def field_simps)
  qed
qed

lemma admit_refines_gcra:
  assumes "controller_inv c" "0 < request_rate_limit_per_s c" "last_refill_at c \<le> now"
    and notfull: "\<not> (max_queue_size c > 0 \<and> q \<ge> max_queue_size c)"
  shows "accepted (fst (admit q now c)) =
      gcra_conforms (capacity c) (request_rate_limit_per_s c) (tat_of c) now"
    and "tat_of (snd (admit q now c)) =
      gcra_next (capacity c) (request_rate_limit_per_s c) (tat_of c) now"
proof -
  let ?r = "request_rate_limit_per_s c" and ?c1 = "refill_locked now c"
  have cap: "1 \<le> capacity c"
    using assms(1,2) bucket_capacity_pos by (simp add: controller_inv_def)
  have t1: "max (tat_of c) now - now = (of_int (capacity c) - tokens ?c1) / ?r"
    using tat_of_refill [OF assms(2,3)] by (simp add: tat_of_def [of ?c1])
  have conf: "gcra_conforms (capacity c) ?r (tat_of c) now \<longleftrightarrow> 1 \<le> tokens ?c1"
    using assms(2) by (simp add: gcra_conforms_def t1 divide_le_cancel)
  have acc: "accepted (fst (admit q now c)) \<longleftrightarrow> 1 \<le> tokens ?c1"
    using assms(2) notfull by (auto simp: admit_def Let_def)
  show "accepted (fst (admit q now c)) = gcra_conforms (capacity c) ?r (tat_of c) now"
    using acc conf by simp
  show "tat_of (snd (admit q now c)) = gcra_next (capacity c) ?r (tat_of c) now"
  proof (cases "1 \<le> tokens ?c1")
    case True
    have "tat_of (snd (admit q now c)) = tat_of ?c1 + 1 / ?r"
      using True assms(2) notfull by (auto simp: admit_def Let_def tat_of_def diff_divide_distrib)
    with True conf tat_of_refill [OF assms(2,3)] show ?thesis by (simp add: gcra_next_def)
  next
    case False
    have "\<not> tat_of c \<le> now"
    proof
      assume "tat_of c \<le> now"
      with t1 assms(2) have "tokens ?c1 = of_int (capacity c)" by simp
      with False cap show False by simp
    qed
    with False assms(2) notfull conf tat_of_refill [OF assms(2,3)] show ?thesis
      by (simp add: admit_def Let_def gcra_next_def)
  qed
qed

lemma admit_all_refines_gcra:
  assumes "controller_inv c" "0 < request_rate_limit_per_s c"
    and "sorted (last_refill_at c # map snd calls)" and "max_queue_size c \<le> 0"
  shows "map accepted (fst (admit_all calls c)) =
    gcra_run (capacity c) (request_rate_limit_per_s c) (tat_of c) (map snd calls)"
  using assms
proof (induction calls arbitrary: c)
  case Nil
  then show ?case by simp
next
  case (Cons x calls)
  let ?c1 = "snd (admit (fst x) (snd x) c)"
  have le: "last_refill_at c \<le> snd x" using Cons.prems(3) by simp
  have nf: "\<not> (max_queue_size c > 0 \<and> fst x \<ge> max_queue_size c)" using Cons.prems(4) by simp
  note step = admit_refines_gcra [OF Cons.prems(1,2) le nf]
  have "sorted (last_refill_at ?c1 # map snd calls)"
    using Cons.prems(3) admit_budget(3) [OF Cons.prems(2) le, of "fst x"] by auto
  with Cons.IH [of ?c1] Cons.prems admit_inv have
    "map accepted (fst (admit_all calls ?c1)) =
      gcra_run (capacity c) (request_rate_limit_per_s c) (tat_of ?c1) (map snd calls)"
    by simp
  then show ?case by (simp add: step)
qed

section \<open>Properties\<close>

text \<open>
  C10: Rate conformance. With a positive rate limit and a clock that does not run backwards,
  any window of consecutive \<open>admit\<close> calls, whatever calls came before it and whatever the queue
  sizes were, accepts at most the bucket capacity plus the rate times the length of the window.
\<close>

theorem admission_rate_bound:
  assumes "0 < rate" and "sorted (t0 # map snd (pre @ win))" and "win \<noteq> []"
  shows "of_nat (accepted_count
      (fst (admit_all win (snd (admit_all pre (init_controller max_queue rate burst t0))))))
    \<le> of_int (bucket_capacity rate burst) + rate * (snd (last win) - snd (hd win))"
proof -
  let ?c0 = "init_controller max_queue rate burst t0"
  let ?c = "snd (admit_all pre ?c0)"
  have cfg: "request_rate_limit_per_s ?c0 = rate" "capacity ?c0 = bucket_capacity rate burst"
    by (simp_all add: init_controller_def)
  have "sorted (map snd win)" using assms(2) by (simp add: sorted_append)
  moreover have "controller_inv ?c" by (intro admit_all_inv init_controller_inv)
  ultimately show ?thesis using window_bound [of ?c win] assms(1,3) cfg by simp
qed

theorem admission_rate_bound_witness:
  "accepted_count (fst (admit_all [(0, 1), (0, 1), (0, 5 / 4), (0, 3 / 2)]
      (snd (admit_all [(0, 0)] (init_controller 8 2 2 0))))) = 3 \<and>
   of_nat (accepted_count (fst (admit_all [(0, 1), (0, 1), (0, 5 / 4), (0, 3 / 2)]
      (snd (admit_all [(0, 0)] (init_controller 8 2 2 0))))))
    \<le> of_int (bucket_capacity 2 2) + (2 :: rat) * (3 / 2 - 1)"
proof
  show "accepted_count (fst (admit_all [(0, 1), (0, 1), (0, 5 / 4), (0, 3 / 2)]
      (snd (admit_all [(0, 0)] (init_controller 8 2 2 0))))) = 3"
    by (simp add: admit_def init_controller_def bucket_capacity_def refill_locked_def Let_def)
  show "of_nat (accepted_count (fst (admit_all [(0, 1), (0, 1), (0, 5 / 4), (0, 3 / 2)]
      (snd (admit_all [(0, 0)] (init_controller 8 2 2 0))))))
    \<le> of_int (bucket_capacity 2 2) + (2 :: rat) * (3 / 2 - 1)"
    using admission_rate_bound [of 2 0 "[(0, 0)]" "[(0, 1), (0, 1), (0, 5 / 4), (0, 3 / 2)]" 8 2]
    by (simp only: list.sel last.simps snd_conv) simp
qed

text \<open>
  C13: Refinement. Without a queue cap the accept and reject decisions of the token bucket over
  any run of calls are exactly those of the generic cell rate algorithm with the same capacity
  and rate, started with no backlog.
\<close>

theorem admission_refines_gcra:
  assumes "0 < rate" and "sorted (t0 # map snd calls)"
  shows "map accepted (fst (admit_all calls (init_controller 0 rate burst t0))) =
    gcra_run (bucket_capacity rate burst) rate t0 (map snd calls)"
  using admit_all_refines_gcra [OF init_controller_inv, of 0 rate burst t0 calls] assms
  by (simp add: init_controller_def tat_of_def)

theorem admission_refines_gcra_witness:
  "map accepted (fst (admit_all [(0, 0), (9, 0), (0, 1 / 4), (3, 1 / 2)] (init_controller 0 2 1 0)))
     = gcra_run (bucket_capacity 2 1) 2 0 [0, 0, 1 / 4, 1 / 2] \<and>
   gcra_run (bucket_capacity 2 1) 2 0 [0, 0, 1 / 4, 1 / 2] = [True, False, False, True]"
proof
  show "map accepted (fst (admit_all [(0, 0), (9, 0), (0, 1 / 4), (3, 1 / 2)] (init_controller 0 2 1 0)))
     = gcra_run (bucket_capacity 2 1) 2 0 [0, 0, 1 / 4, 1 / 2]"
    using admission_refines_gcra [of 2 0 "[(0, 0), (9, 0), (0, 1 / 4), (3, 1 / 2)]" 1]
    by (simp only: list.map snd_conv) simp
  show "gcra_run (bucket_capacity 2 1) 2 0 [0, 0, 1 / 4, 1 / 2] = [True, False, False, True]"
    by (simp add: gcra_conforms_def gcra_next_def bucket_capacity_def)
qed

text \<open>
  Rejections are free. A call that is refused, because the queue is full or because the
  bucket is empty, changes none of the decisions made for the calls after it.
\<close>

lemma admission_rejections_free:
  assumes "controller_inv c" and "sorted (last_refill_at c # now # map snd calls)"
    and "\<not> accepted (fst (admit q now c))"
  shows "fst (admit_all calls (snd (admit q now c))) = fst (admit_all calls c)"
proof (cases rule: admit_cases [of q now c])
  case limited
  have "1 \<le> capacity c"
    using assms(1) limited(1) bucket_capacity_pos by (simp add: controller_inv_def)
  with limited assms(2) show ?thesis
    using admit_all_after_refused_refill [of c now calls] by simp
qed (use assms(3) in simp_all)

lemma admission_rejections_free_witness:
  "let c = snd (admit 0 0 (init_controller 4 1 1 0)) in
     status_code (fst (admit 0 (1 / 2) c)) = 429 \<and> status_code (fst (admit 4 (1 / 2) c)) = 503 \<and>
     fst (admit_all [(0, 1)] (snd (admit 0 (1 / 2) c))) = fst (admit_all [(0, 1)] c)"
proof -
  let ?c = "snd (admit 0 0 (init_controller 4 1 1 0))"
  have inv: "controller_inv ?c" by (intro admit_inv init_controller_inv)
  have r: "status_code (fst (admit 0 (1 / 2) ?c)) = 429" "status_code (fst (admit 4 (1 / 2) ?c)) = 503"
    "\<not> accepted (fst (admit 0 (1 / 2) ?c))" "sorted (last_refill_at ?c # (1 / 2) # map snd [(0 :: int, 1)])"
    by (simp_all add: admit_def init_controller_def bucket_capacity_def refill_locked_def Let_def
        decision_rate_limited_def decision_queue_full_def)
  show ?thesis
    using admission_rejections_free [OF inv r(4,3)] r(1,2) by (simp only: Let_def simp_thms)
qed



end
