(* ===== verification/Request.thy ===== *)
theory Request
  imports Prelude
begin

text \<open>
  The request side of \<open>src/llm_runtime/api/schemas.py\<close>, \<open>core/request.py\<close> and
  \<open>utils/ids.py\<close>: the chat message and chat completion request with the bounds that
  pydantic enforces on their fields, the internal runtime request with its life-cycle time
  stamps, the prompt text and its token estimate. A clock reading (\<open>perf_counter()\<close>) and a
  fresh UUID are arguments of the operations that take them.
\<close>

section \<open>API schemas\<close>

datatype msg_role = RoleSystem | RoleUser | RoleAssistant | RoleTool

fun role_str :: "msg_role \<Rightarrow> string" where
  "role_str RoleSystem = ''system''"
| "role_str RoleUser = ''user''"
| "role_str RoleAssistant = ''assistant''"
| "role_str RoleTool = ''tool''"

record chat_message =
  role :: msg_role
  content :: string

record chat_completion_request =
  ccr_model :: string
  ccr_messages :: "chat_message list"
  ccr_max_tokens :: int
  ccr_temperature :: rat
  ccr_top_p :: rat
  ccr_stream :: bool
  ccr_priority :: int

text \<open>The \<open>Field\<close> bounds of \<open>ChatCompletionRequest\<close>; a body outside them never
  reaches a handler.\<close>

definition valid_chat_request :: "chat_completion_request \<Rightarrow> bool" where
  "valid_chat_request r \<longleftrightarrow>
     1 \<le> ccr_max_tokens r \<and> ccr_max_tokens r \<le> 4096 \<and>
     0 \<le> ccr_temperature r \<and>
     0 \<le> ccr_top_p r \<and> ccr_top_p r \<le> 1 \<and>
     0 \<le> ccr_priority r"

section \<open>Runtime request\<close>

record sampling_params =
  max_tokens :: int
  temperature :: rat
  top_p :: rat

record runtime_request =
  request_id :: string
  messages :: "chat_message list"
  priority :: int
  stream :: bool
  sampling :: sampling_params
  created_at :: seconds
  enqueued_at :: "seconds option"
  started_at :: "seconds option"
  first_token_at :: "seconds option"
  completed_at :: "seconds option"
  failed_at :: "seconds option"

definition new_request_id :: "string \<Rightarrow> string" where
  "new_request_id uuid_hex = ''chatcmpl-'' @ uuid_hex"

definition from_chat_request :: "string \<Rightarrow> seconds \<Rightarrow> chat_completion_request \<Rightarrow> runtime_request" where
  "from_chat_request uuid_hex now r =
     \<lparr>request_id = new_request_id uuid_hex,
      messages = ccr_messages r,
      priority = ccr_priority r,
      stream = ccr_stream r,
      sampling = \<lparr>max_tokens = ccr_max_tokens r, temperature = ccr_temperature r,
                  top_p = ccr_top_p r\<rparr>,
      created_at = now,
      enqueued_at = None, started_at = None, first_token_at = None,
      completed_at = None, failed_at = None\<rparr>"

definition prompt :: "runtime_request \<Rightarrow> string" where
  "prompt r = py_join [newline]
     (map (\<lambda>m. role_str (role m) @ '': '' @ content m) (messages r))"

definition prompt_token_estimate :: "runtime_request \<Rightarrow> int" where
  "prompt_token_estimate r = max 1 (int (length (py_split (prompt r))))"

definition mark_enqueued :: "seconds \<Rightarrow> runtime_request \<Rightarrow> runtime_request" where
  "mark_enqueued now r = r\<lparr>enqueued_at := Some now\<rparr>"

definition mark_started :: "seconds \<Rightarrow> runtime_request \<Rightarrow> runtime_request" where
  "mark_started now r = r\<lparr>started_at := Some now\<rparr>"

definition mark_first_token :: "seconds \<Rightarrow> runtime_request \<Rightarrow> runtime_request" where
  "mark_first_token now r =
     (if first_token_at r = None then r\<lparr>first_token_at := Some now\<rparr> else r)"

definition mark_completed :: "seconds \<Rightarrow> runtime_request \<Rightarrow> runtime_request" where
  "mark_completed now r = r\<lparr>completed_at := Some now\<rparr>"

definition mark_failed :: "seconds \<Rightarrow> runtime_request \<Rightarrow> runtime_request" where
  "mark_failed now r = r\<lparr>failed_at := Some now\<rparr>"

lemmas mark_defs =
  mark_enqueued_def mark_started_def mark_first_token_def mark_completed_def mark_failed_def

text \<open>No time stamp operation touches what the request is.\<close>

lemma mark_frame [request_simps]:
  "request_id (mark_enqueued t r) = request_id r" "request_id (mark_started t r) = request_id r"
  "request_id (mark_first_token t r) = request_id r" "request_id (mark_completed t r) = request_id r"
  "request_id (mark_failed t r) = request_id r"
  "priority (mark_enqueued t r) = priority r" "priority (mark_started t r) = priority r"
  "priority (mark_first_token t r) = priority r" "priority (mark_completed t r) = priority r"
  "priority (mark_failed t r) = priority r"
  "messages (mark_enqueued t r) = messages r" "messages (mark_started t r) = messages r"
  "messages (mark_first_token t r) = messages r" "messages (mark_completed t r) = messages r"
  "messages (mark_failed t r) = messages r"
  "sampling (mark_enqueued t r) = sampling r" "sampling (mark_started t r) = sampling r"
  "sampling (mark_first_token t r) = sampling r" "sampling (mark_completed t r) = sampling r"
  "sampling (mark_failed t r) = sampling r"
  "created_at (mark_enqueued t r) = created_at r" "created_at (mark_started t r) = created_at r"
  "created_at (mark_first_token t r) = created_at r" "created_at (mark_completed t r) = created_at r"
  "created_at (mark_failed t r) = created_at r"
  by (simp_all add: mark_defs)

lemma mark_first_token_keeps:
  "first_token_at r = Some t0 \<Longrightarrow> first_token_at (mark_first_token t r) = Some t0"
  by (simp add: mark_first_token_def)

lemma mark_first_token_set: "first_token_at (mark_first_token t r) \<noteq> None"
  by (simp add: mark_first_token_def)

section \<open>The token estimate\<close>

lemma role_str_label: "py_split (role_str ro @ '': '' @ s) = (role_str ro @ '':'') # py_split s"
proof -
  have sp: "py_isspace (CHR '' '')" by (simp add: py_isspace_def)
  have "py_split ((role_str ro @ '':'') @ CHR '' '' # s)
      = py_split (role_str ro @ '':'') @ py_split s"
    by (rule py_split_space [OF sp])
  moreover have "py_split (role_str ro @ '':'') = [role_str ro @ '':'']"
    by (rule py_split_word) (cases ro; simp add: py_isspace_def)+
  ultimately show ?thesis by simp
qed

lemma py_split_prompt:
  "length (py_split (prompt r)) = (\<Sum>m\<leftarrow>messages r. 1 + length (py_split (content m)))"
proof -
  have nl: "py_isspace newline" by (simp add: py_isspace_def)
  show ?thesis
    by (simp add: prompt_def py_split_join [OF nl] length_concat_map comp_def role_str_label [simplified])
qed

section \<open>Properties\<close>

text \<open>
  The prompt estimate counts, for every message, one word for its role label and the
  whitespace-separated words of its content, and is never below one. In particular joining the
  messages with newlines neither merges nor splits words across messages.
\<close>

lemma prompt_token_estimate_words:
  "prompt_token_estimate r =
     max 1 (\<Sum>m\<leftarrow>messages r. 1 + int (length (py_split (content m))))"
  by (simp add: prompt_token_estimate_def py_split_prompt int_sum_list_map comp_def)

end
