(* ===== verification/Response.thy ===== *)
theory Response
  imports Request
begin

text \<open>
  \<open>core/response.py\<close>: the per-request response channels and their events. A completion
  handle holds an \<open>asyncio.Future\<close>, a streaming handle an unbounded \<open>asyncio.Queue\<close> of
  events. A scheduled request is shared by the route that created it, the scheduler, the worker
  and the metrics collector, so the objects live in a store from references to scheduled
  requests and every component passes references.
\<close>

section \<open>Events and handles\<close>

record generation_result =
  gr_request_id :: string
  gr_tokens :: "string list"
  gr_finish_reason :: string

datatype stream_event = TokenEvent string | CompletedEvent string | ErrorEvent string

text \<open>The states of an \<open>asyncio.Future\<close>. Setting a result or an exception on a future that
  is done raises \<open>InvalidStateError\<close>.\<close>

datatype 'a future = Pending | Result 'a | Failed string | Cancelled

datatype invalid_state = InvalidStateError

fun future_done :: "'a future \<Rightarrow> bool" where
  "future_done Pending = False"
| "future_done _ = True"

definition set_result :: "'a \<Rightarrow> 'a future \<Rightarrow> invalid_state + 'a future" where
  "set_result v f = (if future_done f then Inl InvalidStateError else Inr (Result v))"

definition set_exception :: "string \<Rightarrow> 'a future \<Rightarrow> invalid_state + 'a future" where
  "set_exception e f = (if future_done f then Inl InvalidStateError else Inr (Failed e))"

record completion_handle =
  fut :: "generation_result future"
  ch_cancelled :: bool

record streaming_handle =
  queue :: "stream_event list"
  sh_cancelled :: bool
  sh_completed :: bool

definition create_completion :: completion_handle where
  "create_completion = \<lparr>fut = Pending, ch_cancelled = False\<rparr>"

definition create_streaming :: streaming_handle where
  "create_streaming = \<lparr>queue = [], sh_cancelled = False, sh_completed = False\<rparr>"

definition cancel_completion :: "completion_handle \<Rightarrow> bool \<times> completion_handle" where
  "cancel_completion h =
     (if ch_cancelled h then (False, h)
      else (let h1 = h\<lparr>ch_cancelled := True\<rparr> in
        (True, if future_done (fut h1) then h1 else h1\<lparr>fut := Cancelled\<rparr>)))"

definition cancel_streaming :: "streaming_handle \<Rightarrow> bool \<times> streaming_handle" where
  "cancel_streaming h =
     (if sh_cancelled h \<or> sh_completed h then (False, h)
      else (True, h\<lparr>sh_cancelled := True\<rparr>))"

definition mark_stream_completed :: "streaming_handle \<Rightarrow> streaming_handle" where
  "mark_stream_completed h = h\<lparr>sh_completed := True\<rparr>"

definition put_event :: "stream_event \<Rightarrow> streaming_handle \<Rightarrow> streaming_handle" where
  "put_event e h = h\<lparr>queue := queue h @ [e]\<rparr>"

datatype response_handle = Completion completion_handle | Streaming streaming_handle

fun handle_cancelled :: "response_handle \<Rightarrow> bool" where
  "handle_cancelled (Completion h) = ch_cancelled h"
| "handle_cancelled (Streaming h) = sh_cancelled h"

fun cancel_handle :: "response_handle \<Rightarrow> bool \<times> response_handle" where
  "cancel_handle (Completion h) = (let (b, h') = cancel_completion h in (b, Completion h'))"
| "cancel_handle (Streaming h) = (let (b, h') = cancel_streaming h in (b, Streaming h'))"

record scheduled_request =
  request :: runtime_request
  handle :: response_handle

definition sr_cancelled :: "scheduled_request \<Rightarrow> bool" where
  "sr_cancelled x = handle_cancelled (handle x)"

section \<open>The store\<close>

type_synonym store = "ref \<Rightarrow> scheduled_request"

definition upd_request :: "(runtime_request \<Rightarrow> runtime_request) \<Rightarrow> ref \<Rightarrow> store \<Rightarrow> store" where
  "upd_request f r h = h(r := (h r)\<lparr>request := f (request (h r))\<rparr>)"

definition upd_handle :: "(response_handle \<Rightarrow> response_handle) \<Rightarrow> ref \<Rightarrow> store \<Rightarrow> store" where
  "upd_handle f r h = h(r := (h r)\<lparr>handle := f (handle (h r))\<rparr>)"

definition cancel_ref :: "ref \<Rightarrow> store \<Rightarrow> bool \<times> store" where
  "cancel_ref r h = (fst (cancel_handle (handle (h r))), upd_handle (snd \<circ> cancel_handle) r h)"

abbreviation rid :: "store \<Rightarrow> ref \<Rightarrow> string" where
  "rid h r \<equiv> request_id (request (h r))"

lemma upd_request_simps [handle_simps]:
  "request (upd_request f r h r') = (if r' = r then f (request (h r)) else request (h r'))"
  "handle (upd_request f r h r') = handle (h r')"
  "sr_cancelled (upd_request f r h r') = sr_cancelled (h r')"
  by (simp_all add: upd_request_def sr_cancelled_def)

lemma upd_handle_simps [handle_simps]:
  "request (upd_handle f r h r') = request (h r')"
  "handle (upd_handle f r h r') = (if r' = r then f (handle (h r)) else handle (h r'))"
  by (simp_all add: upd_handle_def)

section \<open>Cancellation\<close>

text \<open>A handle never leaves the cancelled state, a done future is never overwritten, and a
  second cancellation reports that it did nothing.\<close>

lemma cancel_handle_cancelled_mono:
  "handle_cancelled h \<Longrightarrow> handle_cancelled (snd (cancel_handle h))"
  by (cases h) (auto simp: cancel_completion_def cancel_streaming_def)

lemma cancel_handle_twice:
  "cancel_handle (snd (cancel_handle h)) = (False, snd (cancel_handle h))"
  by (cases h) (auto simp: cancel_completion_def cancel_streaming_def Let_def)

lemma cancel_completion_future:
  "fut (snd (cancel_completion h)) =
     (if ch_cancelled h \<or> future_done (fut h) then fut h else Cancelled)"
  by (simp add: cancel_completion_def Let_def)

lemma cancel_streaming_frame [handle_simps]:
  "queue (snd (cancel_streaming h)) = queue h"
  "sh_completed (snd (cancel_streaming h)) = sh_completed h"
  by (simp_all add: cancel_streaming_def)

lemma cancel_ref_simps [handle_simps]:
  "request (snd (cancel_ref r h) r') = request (h r')"
  "handle (snd (cancel_ref r h) r') =
     (if r' = r then snd (cancel_handle (handle (h r))) else handle (h r'))"
  by (simp_all add: cancel_ref_def handle_simps)

end
