(* ===== verification/Scheduler.thy ===== *)
theory Scheduler
  imports Response
begin

text \<open>
  The scheduler interface (\<open>scheduler/base.py\<close>, \<open>scheduler/batching.py\<close>) and what a client
  may rely on. A call to \<open>next_batch\<close> suspends, and while it is suspended other tasks submit
  requests and timers fire, so the call takes a record of what the event loop did during it:
  the submissions before the first request was there, the clock readings, and for each
  \<open>wait_for\<close> the submissions during the wait and whether its timer fired. \<open>None\<close> is a call that
  is still suspended when the record ends.
\<close>

section \<open>The environment of a call\<close>

record submission =
  sub_ref :: ref
  sub_now :: seconds
  sub_time :: seconds

record batch_env =
  first_wait :: "submission list"
  clk :: "nat \<Rightarrow> seconds"
  waits :: "(submission list \<times> bool) list"
  mark_clk :: "nat \<Rightarrow> seconds"

definition env_subs :: "batch_env \<Rightarrow> ref list" where
  "env_subs e = map sub_ref (first_wait e @ concat (map fst (waits e)))"

fun submit_all ::
  "(submission \<Rightarrow> store \<Rightarrow> 's \<Rightarrow> store \<times> 's) \<Rightarrow> submission list \<Rightarrow> store \<Rightarrow> 's \<Rightarrow> store \<times> 's"
where
  "submit_all sub [] h s = (h, s)"
| "submit_all sub (x # xs) h s = (let (h1, s1) = sub x h s in submit_all sub xs h1 s1)"

lemma submit_all_Cons [sched_simps]:
  "submit_all sub (x # xs) h s = submit_all sub xs (fst (sub x h s)) (snd (sub x h s))"
  by (simp add: case_prod_beta)

lemma submit_all_append:
  "submit_all sub (xs @ ys) h s =
     submit_all sub ys (fst (submit_all sub xs h s)) (snd (submit_all sub xs h s))"
  by (induction xs arbitrary: h s) (simp_all add: case_prod_beta)

text \<open>\<open>for item in items: item.request.mark_started()\<close>, one clock reading per item.\<close>

fun mark_all_started :: "nat \<Rightarrow> (nat \<Rightarrow> seconds) \<Rightarrow> ref list \<Rightarrow> store \<Rightarrow> store" where
  "mark_all_started k mk [] h = h"
| "mark_all_started k mk (r # rs) h =
     mark_all_started (Suc k) mk rs (upd_request (mark_started (mk k)) r h)"

text \<open>\<open>build_batch\<close>: the first \<open>max_batch_size\<close> of the waiting requests, as the slice
  \<open>items[:max_batch_size]\<close> has it (a negative bound drops from the end).\<close>

definition build_batch :: "ref list \<Rightarrow> int \<Rightarrow> ref list" where
  "build_batch items max_batch_size =
     (if 0 \<le> max_batch_size then take (nat max_batch_size) items
      else take (nat (int (length items) + max_batch_size)) items)"

text \<open>What marking and submitting leave alone in the store.\<close>

definition same_identity :: "store \<Rightarrow> store \<Rightarrow> bool" where
  "same_identity h h' \<longleftrightarrow>
     (\<forall>r. handle (h' r) = handle (h r) \<and> rid h' r = rid h r \<and>
          priority (request (h' r)) = priority (request (h r)) \<and>
          messages (request (h' r)) = messages (request (h r)) \<and>
          sampling (request (h' r)) = sampling (request (h r)))"

lemma same_identity_refl [simp, intro]: "same_identity h h"
  by (simp add: same_identity_def)

lemma same_identity_trans [trans]:
  "same_identity h1 h2 \<Longrightarrow> same_identity h2 h3 \<Longrightarrow> same_identity h1 h3"
  by (simp add: same_identity_def)

lemma same_identity_mark [intro]:
  "same_identity h (upd_request (mark_enqueued t) r h)"
  "same_identity h (upd_request (mark_started t) r h)"
  by (simp_all add: same_identity_def handle_simps request_simps)

lemma mark_all_started_identity: "same_identity h (mark_all_started k mk rs h)"
proof (induction rs arbitrary: k h)
  case Nil
  then show ?case by simp
next
  case (Cons r rs)
  have "same_identity h (upd_request (mark_started (mk k)) r h)" by (rule same_identity_mark)
  also have "same_identity \<dots> (mark_all_started (Suc k) mk rs (upd_request (mark_started (mk k)) r h))"
    by (rule Cons.IH)
  finally show ?case by simp
qed

lemma mark_all_started_keeps:
  "started_at (request (h r)) \<noteq> None \<Longrightarrow> started_at (request (mark_all_started k mk rs h r)) \<noteq> None"
  by (induction rs arbitrary: k h) (simp_all add: handle_simps mark_started_def)

lemma mark_all_started_marks:
  "r \<in> set rs \<Longrightarrow> started_at (request (mark_all_started k mk rs h r)) \<noteq> None"
proof (induction rs arbitrary: k h)
  case Nil
  then show ?case by simp
next
  case (Cons x xs)
  have "started_at (request (upd_request (mark_started (mk k)) x h x)) \<noteq> None"
    by (simp add: handle_simps mark_started_def)
  then have "started_at (request (mark_all_started k mk (x # xs) h x)) \<noteq> None"
    unfolding mark_all_started.simps by (rule mark_all_started_keeps)
  with Cons show ?case by auto
qed

lemma mark_all_started_other:
  "r \<notin> set rs \<Longrightarrow> mark_all_started k mk rs h r = h r"
  by (induction rs arbitrary: k h) (simp_all add: upd_request_def)

section \<open>One request at a time\<close>

text \<open>
  What can happen to a queue while a worker collects a batch: a request is submitted, or the worker
  takes one out at some clock reading. \<open>run_sched\<close> is \<open>None\<close> when a pop finds the queue empty.
\<close>

datatype sched_op = OpSubmit submission | OpPop seconds

fun run_sched ::
  "(seconds \<Rightarrow> 's \<Rightarrow> (ref \<times> 's) option) \<Rightarrow> (submission \<Rightarrow> store \<Rightarrow> 's \<Rightarrow> store \<times> 's) \<Rightarrow>
   sched_op list \<Rightarrow> store \<Rightarrow> 's \<Rightarrow> (store \<times> ref list \<times> 's) option"
where
  "run_sched pop sub [] h s = Some (h, [], s)"
| "run_sched pop sub (OpSubmit x # ops) h s =
     (case sub x h s of (h1, s1) \<Rightarrow> run_sched pop sub ops h1 s1)"
| "run_sched pop sub (OpPop t # ops) h s =
     (case pop t s of
        None \<Rightarrow> None
      | Some (r, s1) \<Rightarrow>
         (case run_sched pop sub ops h s1 of
            None \<Rightarrow> None
          | Some (h2, rs, s2) \<Rightarrow> Some (h2, r # rs, s2)))"

fun op_subs :: "sched_op list \<Rightarrow> submission list" where
  "op_subs [] = []"
| "op_subs (OpSubmit x # ops) = x # op_subs ops"
| "op_subs (OpPop t # ops) = op_subs ops"

fun op_times :: "sched_op list \<Rightarrow> seconds list" where
  "op_times [] = []"
| "op_times (OpSubmit x # ops) = op_times ops"
| "op_times (OpPop t # ops) = t # op_times ops"

lemma op_simps [simp]:
  "op_subs (map OpSubmit xs @ ops) = xs @ op_subs ops" "op_times (map OpSubmit xs @ ops) = op_times ops"
  by (induction xs) simp_all

lemma run_sched_submits:
  "run_sched pop sub (map OpSubmit xs @ ops) h s =
     run_sched pop sub ops (fst (submit_all sub xs h s)) (snd (submit_all sub xs h s))"
  by (induction xs arbitrary: h s) (simp_all add: case_prod_beta)

lemma run_sched_induct [consumes 1, case_names finished submitted popped]:
  assumes "run_sched pop sub ops h s = Some (h', rs, s')"
    and finished: "\<And>h s. P [] h s h [] s"
    and submitted: "\<And>x ops h s h' rs s'. P ops (fst (sub x h s)) (snd (sub x h s)) h' rs s' \<Longrightarrow>
      P (OpSubmit x # ops) h s h' rs s'"
    and popped: "\<And>t ops h s r s1 h' rs s'. pop t s = Some (r, s1) \<Longrightarrow> P ops h s1 h' rs s' \<Longrightarrow>
      P (OpPop t # ops) h s h' (r # rs) s'"
  shows "P ops h s h' rs s'"
  using assms(1)
proof (induction ops arbitrary: h s rs)
  case Nil
  with finished show ?case by simp
next
  case (Cons a ops)
  show ?case
  proof (cases a)
    case (OpSubmit x)
    with Cons submitted show ?thesis by (simp add: case_prod_beta)
  next
    case (OpPop t)
    with Cons.prems obtain r s1 rs1 where "pop t s = Some (r, s1)" "rs = r # rs1"
      "run_sched pop sub ops h s1 = Some (h', rs1, s')" by (auto split: option.splits)
    with OpPop popped Cons.IH show ?thesis by blast
  qed
qed

lemma run_sched_pops:
  assumes "run_sched pop sub ops h s = Some (h', rs, s')" and "op_subs ops = []"
  shows "h' = h"
  using assms by (induction rule: run_sched_induct) simp_all

section \<open>The contract\<close>

text \<open>
  \<open>contents\<close> lists the queued references in some order. A queue adds exactly the submitted request
  and leaves handles and identities alone.
\<close>

locale request_queue =
  fixes contents :: "'s \<Rightarrow> ref list"
    and qsize :: "'s \<Rightarrow> nat"
    and submit :: "submission \<Rightarrow> store \<Rightarrow> 's \<Rightarrow> store \<times> 's"
    and invar :: "'s \<Rightarrow> bool"
  assumes law_size: "qsize s = length (contents s)"
    and law_submit: "mset (contents (snd (submit x h s))) = add_mset (sub_ref x) (mset (contents s))"
    and law_submit_invar: "invar s \<Longrightarrow> invar (snd (submit x h s))"
    and law_submit_store: "same_identity h (fst (submit x h s))"

text \<open>
  What a worker relies on: a batch takes its members out of the queue and nothing else goes
  missing or appears, how large a batch is, that a batch with no collection window takes all it
  can, that a call returns once its window closes, and that handles and identities stay put.
\<close>

locale scheduler = request_queue contents qsize submit invar
  for contents :: "'s \<Rightarrow> ref list" and qsize submit invar +
  fixes next_batch :: "int \<Rightarrow> int \<Rightarrow> batch_env \<Rightarrow> store \<Rightarrow> 's \<Rightarrow> (store \<times> ref list \<times> 's) option"
  assumes law_batch_conserves: "invar s \<Longrightarrow> next_batch mx tmo e h s = Some (h', b, s') \<Longrightarrow>
      \<exists>A. A \<subseteq># mset (env_subs e) \<and> mset b + mset (contents s') = mset (contents s) + A"
    and law_batch_size: "next_batch mx tmo e h s = Some (h', b, s') \<Longrightarrow>
      b \<noteq> [] \<and> int (length b) \<le> max 1 mx"
    and law_batch_full: "next_batch mx 0 e h s = Some (h', b, s') \<Longrightarrow>
      int (length b) = min (max 1 mx) (int (length (contents s) + length (first_wait e)))"
    and law_batch_returns: "contents s \<noteq> [] \<or> first_wait e \<noteq> [] \<Longrightarrow>
      tmo = 0 \<or> (\<exists>w \<in> set (waits e). snd w) \<Longrightarrow> next_batch mx tmo e h s \<noteq> None"
    and law_batch_invar: "invar s \<Longrightarrow> next_batch mx tmo e h s = Some (h', b, s') \<Longrightarrow> invar s'"
    and law_batch_store: "next_batch mx tmo e h s = Some (h', b, s') \<Longrightarrow>
      same_identity h h' \<and> (\<forall>r \<in> set b. started_at (request (h' r)) \<noteq> None)"

text \<open>
  How the schedulers keep these promises: a pop takes one of the queued requests, and whatever
  happens during it, a call of \<open>next_batch\<close> is a run of submissions and pops, at readings of its
  clock, with its members marked as started at the end.
\<close>

locale stepwise_scheduler = request_queue contents qsize submit invar
  for contents :: "'s \<Rightarrow> ref list" and qsize submit invar +
  fixes pop :: "seconds \<Rightarrow> 's \<Rightarrow> (ref \<times> 's) option"
    and next_batch :: "int \<Rightarrow> int \<Rightarrow> batch_env \<Rightarrow> store \<Rightarrow> 's \<Rightarrow> (store \<times> ref list \<times> 's) option"
  assumes pop_empty: "pop t s = None \<longleftrightarrow> contents s = []"
    and pop_takes: "pop t s = Some (r, s') \<Longrightarrow> mset (contents s) = add_mset r (mset (contents s'))"
    and pop_invar: "pop t s = Some (r, s') \<Longrightarrow> invar s \<Longrightarrow> invar s'"
    and batch_run: "next_batch mx tmo e h s = Some (h', b, s') \<Longrightarrow>
      \<exists>ops h1 n. run_sched pop submit ops h s = Some (h1, b, s') \<and>
        h' = mark_all_started 0 (mark_clk e) b h1 \<and> set (op_times ops) \<subseteq> range (clk e) \<and>
        op_subs ops = take n (first_wait e @ concat (map fst (waits e)))"
    and batch_size: "next_batch mx tmo e h s = Some (h', b, s') \<Longrightarrow>
      b \<noteq> [] \<and> int (length b) \<le> max 1 mx"
    and batch_full: "next_batch mx 0 e h s = Some (h', b, s') \<Longrightarrow>
      int (length b) = min (max 1 mx) (int (length (contents s) + length (first_wait e)))"
    and batch_returns: "contents s \<noteq> [] \<or> first_wait e \<noteq> [] \<Longrightarrow>
      tmo = 0 \<or> (\<exists>w \<in> set (waits e). snd w) \<Longrightarrow> next_batch mx tmo e h s \<noteq> None"

context stepwise_scheduler
begin

lemma run_invar:
  assumes "run_sched pop submit ops h s = Some (h', rs, s')" and "invar s"
  shows "invar s'"
  using assms by (induction rule: run_sched_induct) (auto intro: law_submit_invar pop_invar)

lemma run_conserves:
  assumes "run_sched pop submit ops h s = Some (h', rs, s')"
  shows "mset rs + mset (contents s') = mset (contents s) + mset (map sub_ref (op_subs ops))"
  using assms by (induction rule: run_sched_induct) (simp_all add: law_submit pop_takes)

lemma run_store:
  assumes "run_sched pop submit ops h s = Some (h', rs, s')"
  shows "same_identity h h'"
  using assms by (induction rule: run_sched_induct) (auto intro: law_submit_store same_identity_trans)

end

sublocale stepwise_scheduler \<subseteq> scheduler
proof (unfold_locales, goal_cases)
  case (1 s mx tmo e h h' b s')
  then obtain ops h1 n where run: "run_sched pop submit ops h s = Some (h1, b, s')"
    and "op_subs ops = take n (first_wait e @ concat (map fst (waits e)))"
    using batch_run by blast
  then have "map sub_ref (op_subs ops) = take n (env_subs e)" by (simp only: env_subs_def take_map)
  moreover have "mset (take n (env_subs e)) \<subseteq># mset (env_subs e)"
    by (metis append_take_drop_id mset_append mset_subset_eq_add_left)
  ultimately show ?case using run_conserves [OF run] by metis
next
  case (5 s mx tmo e h h' b s')
  then show ?case using batch_run run_invar by blast
next
  case (6 mx tmo e h s h' b s')
  then obtain ops h1 where "run_sched pop submit ops h s = Some (h1, b, s')"
    and h': "h' = mark_all_started 0 (mark_clk e) b h1"
    using batch_run by blast
  then have "same_identity h h1" by (intro run_store)
  also have "same_identity h1 h'" unfolding h' by (rule mark_all_started_identity)
  finally show ?case using mark_all_started_marks h' by blast
qed (rule batch_size batch_full batch_returns; assumption)+

text \<open>
  The scheduling part of \<open>WorkerManager._worker_loop\<close>: one call of \<open>next_batch\<close> per
  iteration, each in its own environment.
\<close>

fun serve_batches ::
  "(int \<Rightarrow> int \<Rightarrow> batch_env \<Rightarrow> store \<Rightarrow> 's \<Rightarrow> (store \<times> ref list \<times> 's) option) \<Rightarrow> int \<Rightarrow> int \<Rightarrow>
   batch_env list \<Rightarrow> store \<Rightarrow> 's \<Rightarrow> (store \<times> ref list list \<times> 's) option"
where
  "serve_batches nb mx tmo [] h s = Some (h, [], s)"
| "serve_batches nb mx tmo (e # es) h s =
     (case nb mx tmo e h s of
        None \<Rightarrow> None
      | Some (h1, b, s1) \<Rightarrow>
         (case serve_batches nb mx tmo es h1 s1 of
            None \<Rightarrow> None
          | Some (h2, bs, s2) \<Rightarrow> Some (h2, b # bs, s2)))"

lemma serve_batches_ConsE:
  assumes "serve_batches nb mx tmo (e # es) h s = Some (h2, bs, s2)"
  obtains h1 b s1 bs' where "nb mx tmo e h s = Some (h1, b, s1)"
    and "serve_batches nb mx tmo es h1 s1 = Some (h2, bs', s2)" and "bs = b # bs'"
  using assms by (auto split: option.splits)

context scheduler
begin

lemma submit_size: "qsize (snd (submit x h s)) = Suc (qsize s)"
  using arg_cong [OF law_submit [of x h s], of size] by (simp add: law_size)

lemma submit_all_contents:
  "mset (contents (snd (submit_all submit xs h s))) = mset (map sub_ref xs) + mset (contents s)"
  by (induction xs arbitrary: h s) (simp_all add: case_prod_beta law_submit)

lemma submit_all_invar: "invar s \<Longrightarrow> invar (snd (submit_all submit xs h s))"
  by (induction xs arbitrary: h s) (simp_all add: case_prod_beta law_submit_invar)

lemma serve_invar:
  "serve_batches next_batch mx tmo es h s = Some (h', bs, s') \<Longrightarrow> invar s \<Longrightarrow> invar s'"
  by (induction es arbitrary: h s bs)
     (auto elim!: serve_batches_ConsE dest: law_batch_invar simp del: serve_batches.simps(2))

lemma serve_conserves:
  assumes "serve_batches next_batch mx tmo es h s = Some (h', bs, s')" and "invar s"
  shows "\<exists>A. A \<subseteq># mset (concat (map env_subs es)) \<and>
    mset (concat bs) + mset (contents s') = mset (contents s) + A"
  using assms
proof (induction es arbitrary: h s bs)
  case Nil
  then show ?case by simp
next
  case (Cons e es)
  from Cons.prems(1) obtain h1 b s1 bs' where b: "next_batch mx tmo e h s = Some (h1, b, s1)"
    and bs': "serve_batches next_batch mx tmo es h1 s1 = Some (h', bs', s')" and "bs = b # bs'"
    by (rule serve_batches_ConsE)
  from law_batch_conserves [OF Cons.prems(2) b] obtain A where
    A: "A \<subseteq># mset (env_subs e)" "mset b + mset (contents s1) = mset (contents s) + A" by blast
  from Cons.IH [OF bs' law_batch_invar [OF Cons.prems(2) b]] obtain B where
    B: "B \<subseteq># mset (concat (map env_subs es))"
       "mset (concat bs') + mset (contents s') = mset (contents s1) + B" by blast
  have "mset (concat bs) + mset (contents s') = mset (contents s) + (A + B)"
    using A(2) B(2) \<open>bs = b # bs'\<close> by (simp add: ac_simps)
  moreover have "A + B \<subseteq># mset (concat (map env_subs (e # es)))"
    using A(1) B(1) by (simp add: subset_mset.add_mono)
  ultimately show ?case by blast
qed

text \<open>No request is served twice and none is both served and queued.\<close>

lemma serve_distinct:
  assumes "serve_batches next_batch mx tmo es h s = Some (h', bs, s')" and "invar s"
    and "distinct (contents s @ concat (map env_subs es))"
  shows "distinct (concat bs @ contents s')"
proof -
  from serve_conserves [OF assms(1,2)] obtain A where
    "A \<subseteq># mset (concat (map env_subs es))"
    and *: "mset (concat bs) + mset (contents s') = mset (contents s) + A" by blast
  then have "mset (concat bs @ contents s') \<subseteq># mset (contents s @ concat (map env_subs es))"
    by simp
  then show ?thesis using assms(3) by (rule distinct_sub_mset)
qed

lemma serve_sizes:
  assumes "serve_batches next_batch mx tmo es h s = Some (h', bs, s')"
  shows "\<forall>b \<in> set bs. b \<noteq> [] \<and> int (length b) \<le> max 1 mx"
  using assms
proof (induction es arbitrary: h s bs)
  case Nil
  then show ?case by simp
next
  case (Cons e es)
  from Cons.prems obtain h1 b s1 bs' where b: "next_batch mx tmo e h s = Some (h1, b, s1)"
    and bs': "serve_batches next_batch mx tmo es h1 s1 = Some (h', bs', s')" and "bs = b # bs'"
    by (rule serve_batches_ConsE)
  with Cons.IH [OF bs'] law_batch_size [OF b] show ?case by simp
qed

lemma serve_returns:
  assumes "\<forall>e \<in> set es. first_wait e \<noteq> []"
  shows "serve_batches next_batch mx 0 es h s \<noteq> None"
  using assms
proof (induction es arbitrary: h s)
  case (Cons e es)
  then obtain h1 b s1 where "next_batch mx 0 e h s = Some (h1, b, s1)"
    using law_batch_returns [of s e 0 mx h] by auto
  with Cons show ?case by (auto split: option.split)
qed simp

text \<open>
  Draining: with no collection window and nobody submitting, a queue of at most \<open>k\<close> full
  batches is empty after \<open>k\<close> rounds or fewer, every round returning.
\<close>

lemma serve_drains:
  assumes "invar s" and "int (length (contents s)) \<le> int k * max 1 mx"
  shows "\<exists>j h' bs s'. j \<le> k \<and>
    serve_batches next_batch mx 0
      (replicate j \<lparr>first_wait = [], clk = c, waits = [], mark_clk = m\<rparr>) h s = Some (h', bs, s') \<and>
    contents s' = [] \<and> mset (concat bs) = mset (contents s)"
  using assms
proof (induction k arbitrary: h s)
  case 0
  then have "contents s = []" by simp
  then show ?case by (intro exI [of _ 0]) simp
next
  case (Suc k)
  let ?e = "\<lparr>first_wait = [], clk = c, waits = [], mark_clk = m\<rparr>"
  show ?case
  proof (cases "contents s = []")
    case True
    then show ?thesis by (intro exI [of _ 0]) simp
  next
    case False
    then obtain h1 b s1 where b: "next_batch mx 0 ?e h s = Some (h1, b, s1)"
      using law_batch_returns [of s ?e 0 mx h] by auto
    from law_batch_conserves [OF Suc.prems(1) b] have
      c: "mset b + mset (contents s1) = mset (contents s)" by (simp add: env_subs_def)
    then have len: "length b + length (contents s1) = length (contents s)"
      by (metis size_mset size_union)
    moreover have "int (length b) = min (max 1 mx) (int (length (contents s)))"
      using law_batch_full [OF b] by simp
    ultimately have "int (length (contents s1)) \<le> int k * max 1 mx"
      using Suc.prems(2) by (auto simp: min_def algebra_simps split: if_splits)
    from Suc.IH [OF law_batch_invar [OF Suc.prems(1) b] this, of h1] obtain j h' bs s' where
      "j \<le> k" "serve_batches next_batch mx 0 (replicate j ?e) h1 s1 = Some (h', bs, s')"
      "contents s' = []" "mset (concat bs) = mset (contents s1)" by blast
    with b c show ?thesis
      by (intro exI [of _ "Suc j"] exI [of _ h'] exI [of _ "b # bs"] exI [of _ s']) simp
  qed
qed

end

section \<open>Concrete values for the witnesses of the schedulers\<close>

definition wit_request :: "string \<Rightarrow> int \<Rightarrow> runtime_request" where
  "wit_request u p = from_chat_request u 0
     \<lparr>ccr_model = ''m'', ccr_messages = [\<lparr>role = RoleUser, content = ''hi''\<rparr>], ccr_max_tokens = 2,
      ccr_temperature = 1, ccr_top_p = 1, ccr_stream = False, ccr_priority = p\<rparr>"

definition wit_store :: store where
  "wit_store r = \<lparr>request = wit_request (str_nat r) (int r), handle = Completion create_completion\<rparr>"

definition wit_sub :: "ref \<Rightarrow> submission" where
  "wit_sub r = \<lparr>sub_ref = r, sub_now = of_nat r, sub_time = of_nat r\<rparr>"

definition wit_env :: batch_env where
  "wit_env = \<lparr>first_wait = [wit_sub 5], clk = (\<lambda>k. of_nat k / 1000),
     waits = [([wit_sub 6, wit_sub 7], False), ([], True)], mark_clk = of_nat\<rparr>"

definition wit_env_quiet :: batch_env where
  "wit_env_quiet = wit_env\<lparr>first_wait := [], waits := [([], True)]\<rparr>"

lemmas wit_defs = wit_env_def wit_env_quiet_def wit_sub_def wit_store_def wit_request_def

end
