(* ===== verification/Backend.thy ===== *)
theory Backend
  imports Request "HOL-Library.Sublist"
begin

text \<open>
  \<open>backends/base.py\<close> and \<open>backends/mock_backend.py\<close>: what a backend declares, the batch
  events it yields, the compatibility mode that runs a batch one request at a time, and the mock
  backend that interleaves the requests of a batch decode step by decode step. An asynchronous
  iterator is the list of what it yields together with the text of the exception that ends it, if
  one does.
\<close>

section \<open>Interface\<close>

datatype backend_capability = STREAMING | NATIVE_BATCHING | GPU_METRICS

type_synonym capabilities = "backend_capability set"

definition base_capabilities :: capabilities where
  "base_capabilities = {}"

datatype batch_event = BatchToken string string | BatchCompleted string

fun ev_id :: "batch_event \<Rightarrow> string" where
  "ev_id (BatchToken i t) = i"
| "ev_id (BatchCompleted i) = i"

type_synonym 'a stream = "'a list \<times> string option"

text \<open>\<open>Backend.generate_batch\<close>: one request after the other; an exception of \<open>generate\<close>
  ends the whole stream.\<close>

fun base_generate_batch ::
  "(runtime_request \<Rightarrow> string stream) \<Rightarrow> runtime_request list \<Rightarrow> batch_event stream"
where
  "base_generate_batch generate [] = ([], None)"
| "base_generate_batch generate (r # rs) =
     (let (toks, exc) = generate r;
          evs = map (BatchToken (request_id r)) toks in
      case exc of
        Some e \<Rightarrow> (evs, Some e)
      | None \<Rightarrow>
          (let (evs2, exc2) = base_generate_batch generate rs in
           (evs @ [BatchCompleted (request_id r)] @ evs2, exc2)))"

section \<open>The mock backend\<close>

record mock_backend =
  prefill_latency_s :: rat
  decode_latency_s :: rat

definition init_mock :: "int \<Rightarrow> int \<Rightarrow> mock_backend" where
  "init_mock prefill_latency_ms decode_latency_ms =
     \<lparr>prefill_latency_s = of_int prefill_latency_ms / 1000,
      decode_latency_s = of_int decode_latency_ms / 1000\<rparr>"

definition mock_capabilities :: capabilities where
  "mock_capabilities = {STREAMING}"

definition mock_token :: "nat \<Rightarrow> string" where
  "mock_token i = ''tok'' @ str_nat i @ '' ''"

text \<open>A generator that sleeps, as the sequence of its sleeps and yields.\<close>

datatype 'a act = Sleep rat | Yield 'a

fun yields :: "'a act list \<Rightarrow> 'a list" where
  "yields [] = []"
| "yields (Sleep t # xs) = yields xs"
| "yields (Yield a # xs) = a # yields xs"

fun slept :: "'a act list \<Rightarrow> rat" where
  "slept [] = 0"
| "slept (Sleep t # xs) = t + slept xs"
| "slept (Yield a # xs) = slept xs"

definition mock_generate :: "mock_backend \<Rightarrow> runtime_request \<Rightarrow> string act list" where
  "mock_generate b r =
     Sleep (prefill_latency_s b) #
     concat (map (\<lambda>i. [Sleep (decode_latency_s b), Yield (mock_token i)])
       [0..<nat (max_tokens (sampling r))])"

text \<open>The inner loop of a decode step: one event, or two for the last token of a request.\<close>

definition mock_step :: "nat \<Rightarrow> runtime_request \<Rightarrow> batch_event list" where
  "mock_step i r =
     (if max_tokens (sampling r) \<le> int i then []
      else BatchToken (request_id r) (mock_token i) #
        (if int i + 1 = max_tokens (sampling r) then [BatchCompleted (request_id r)] else []))"

definition mock_steps :: "runtime_request list \<Rightarrow> nat" where
  "mock_steps rs = nat (Max (set (map (\<lambda>r. max_tokens (sampling r)) rs)))"

definition mock_generate_batch :: "mock_backend \<Rightarrow> runtime_request list \<Rightarrow> batch_event act list" where
  "mock_generate_batch b rs =
     (if rs = [] then []
      else Sleep (prefill_latency_s b) #
        concat (map (\<lambda>i. Sleep (decode_latency_s b) # map Yield (concat (map (mock_step i) rs)))
          [0..<mock_steps rs]))"

lemma yields_append [simp]: "yields (xs @ ys) = yields xs @ yields ys"
  by (induction xs rule: yields.induct) auto

lemma slept_append [simp]: "slept (xs @ ys) = slept xs + slept ys"
  by (induction xs rule: slept.induct) auto

lemma yields_Yield [simp]: "yields (map Yield xs) = xs"
  by (induction xs) auto

lemma slept_Yield [simp]: "slept (map Yield xs) = 0"
  by (induction xs) auto

section \<open>The contract of a batch stream\<close>

text \<open>The events of one request in a stream, in order.\<close>

definition events_of :: "string \<Rightarrow> batch_event list \<Rightarrow> batch_event list" where
  "events_of i evs = filter (\<lambda>e. ev_id e = i) evs"

lemma events_of_append [simp]: "events_of i (xs @ ys) = events_of i xs @ events_of i ys"
  by (simp add: events_of_def)

lemma events_of_Nil [simp]: "events_of i [] = []"
  by (simp add: events_of_def)

lemma events_of_Cons [simp]:
  "events_of i (e # es) = (if ev_id e = i then e # events_of i es else events_of i es)"
  by (simp add: events_of_def)

lemma events_of_tokens [simp]:
  "events_of i (map (BatchToken j) ts) = (if i = j then map (BatchToken j) ts else [])"
  by (induction ts) (auto simp: events_of_def)

lemma events_of_notin: "i \<notin> ev_id ` set evs \<Longrightarrow> events_of i evs = []"
  by (auto simp: events_of_def filter_empty_conv)

definition full_events :: "string \<Rightarrow> string list \<Rightarrow> batch_event list" where
  "full_events i ts = map (BatchToken i) ts @ [BatchCompleted i]"

text \<open>
  Every event belongs to a request of the batch. When the stream ends normally each request gets
  the tokens that \<open>generate\<close> would give it alone, in order, then its completion and nothing
  after; when an exception ends it, each request has got a part of that from the front.
\<close>

locale batch_backend =
  fixes generate :: "runtime_request \<Rightarrow> string stream"
    and generate_batch :: "runtime_request list \<Rightarrow> batch_event stream"
  assumes law_ids: "e \<in> set (fst (generate_batch rs)) \<Longrightarrow> ev_id e \<in> request_id ` set rs"
    and law_complete: "distinct (map request_id rs) \<Longrightarrow> \<forall>r \<in> set rs. 1 \<le> max_tokens (sampling r) \<Longrightarrow>
      snd (generate_batch rs) = None \<Longrightarrow> r \<in> set rs \<Longrightarrow>
      events_of (request_id r) (fst (generate_batch rs)) = full_events (request_id r) (fst (generate r))"
    and law_prefix: "distinct (map request_id rs) \<Longrightarrow> \<forall>r \<in> set rs. 1 \<le> max_tokens (sampling r) \<Longrightarrow>
      r \<in> set rs \<Longrightarrow>
      prefix (events_of (request_id r) (fst (generate_batch rs)))
        (full_events (request_id r) (fst (generate r)))"
begin

lemma events_empty: "generate_batch [] = (evs, x) \<Longrightarrow> evs = []"
  using law_ids [of _ "[]"] by (cases evs) auto

lemma only_own_events:
  assumes "i \<notin> request_id ` set rs"
  shows "events_of i (fst (generate_batch rs)) = []"
  using assms law_ids [of _ rs] by (intro events_of_notin) auto

end

section \<open>Compatibility mode keeps the contract\<close>

lemma base_ids: "e \<in> set (fst (base_generate_batch g rs)) \<Longrightarrow> ev_id e \<in> request_id ` set rs"
  by (induction rs) (auto simp: case_prod_beta Let_def split: option.splits)

lemma base_complete:
  assumes "distinct (map request_id rs)" "snd (base_generate_batch g rs) = None" "r \<in> set rs"
  shows "events_of (request_id r) (fst (base_generate_batch g rs)) = full_events (request_id r) (fst (g r))"
  using assms
proof (induction rs)
  case Nil
  then show ?case by simp
next
  case (Cons a rs)
  then have g: "snd (g a) = None" by (auto simp: case_prod_beta Let_def split: option.splits)
  with Cons.prems(2) have rec: "snd (base_generate_batch g rs) = None"
    by (simp add: case_prod_beta Let_def)
  show ?case
  proof (cases "r = a")
    case True
    have "events_of (request_id a) (fst (base_generate_batch g rs)) = []"
      using Cons.prems(1) base_ids by (intro events_of_notin) fastforce
    with True g show ?thesis
      by (simp add: case_prod_beta Let_def full_events_def)
  next
    case False
    with Cons.prems have "request_id r \<noteq> request_id a" by (auto simp: rev_image_eqI)
    with False Cons g rec show ?thesis
      by (simp add: case_prod_beta Let_def)
  qed
qed

lemma base_prefix:
  assumes "distinct (map request_id rs)" "r \<in> set rs"
  shows "prefix (events_of (request_id r) (fst (base_generate_batch g rs)))
    (full_events (request_id r) (fst (g r)))"
  using assms
proof (induction rs)
  case Nil
  then show ?case by simp
next
  case (Cons a rs)
  show ?case
  proof (cases "r = a")
    case True
    have "events_of (request_id a) (fst (base_generate_batch g rs)) = []"
      using Cons.prems(1) base_ids by (intro events_of_notin) fastforce
    with True show ?thesis
      by (auto simp: case_prod_beta Let_def full_events_def
          split: option.split)
  next
    case False
    with Cons.prems have "request_id r \<noteq> request_id a" by (auto simp: rev_image_eqI)
    with False Cons show ?thesis
      by (auto simp: case_prod_beta Let_def split: option.split)
  qed
qed

interpretation compat: batch_backend g "base_generate_batch g" for g
  by unfold_locales (auto intro: base_ids base_complete base_prefix)

section \<open>The mock backend keeps the contract\<close>

lemma mock_step_other: "request_id r \<noteq> i \<Longrightarrow> events_of i (mock_step k r) = []"
  by (simp add: mock_step_def)

lemma mock_step_own: "events_of (request_id r) (mock_step k r) = mock_step k r"
  by (simp add: mock_step_def)

lemma mock_row:
  assumes "distinct (map request_id rs)" "r \<in> set rs"
  shows "events_of (request_id r) (concat (map (mock_step k) rs)) = mock_step k r"
  using assms
proof (induction rs)
  case Nil
  then show ?case by simp
next
  case (Cons a rs)
  have none: "events_of i (concat (map (mock_step k) qs)) = []" if "i \<notin> request_id ` set qs" for i qs
    using that by (induction qs) (auto simp: mock_step_other)
  show ?case
  proof (cases "r = a")
    case True
    with Cons.prems show ?thesis using none [of "request_id a" rs] by (simp add: mock_step_own)
  next
    case False
    with Cons.prems have "request_id a \<noteq> request_id r" by (auto simp: rev_image_eqI)
    with False Cons show ?thesis by (simp add: mock_step_other)
  qed
qed

lemma mock_rows:
  assumes "0 < max_tokens (sampling r)"
  shows "concat (map (\<lambda>k. mock_step k r) [0..<n]) =
    map (\<lambda>i. BatchToken (request_id r) (mock_token i)) [0..<min n (nat (max_tokens (sampling r)))] @
    (if max_tokens (sampling r) \<le> int n then [BatchCompleted (request_id r)] else [])"
proof (induction n)
  case 0
  show ?case using assms by simp
next
  case (Suc n)
  consider "max_tokens (sampling r) \<le> int n" | "max_tokens (sampling r) = int n + 1"
    | "int n + 1 < max_tokens (sampling r)" by linarith
  then show ?case
  proof cases
    case 1
    then have "min (Suc n) (nat (max_tokens (sampling r))) = min n (nat (max_tokens (sampling r)))" by linarith
    with 1 Suc show ?thesis by (simp add: mock_step_def)
  next
    case 2
    then have "min (Suc n) (nat (max_tokens (sampling r))) = Suc n" "min n (nat (max_tokens (sampling r))) = n"
      by linarith+
    with 2 Suc show ?thesis by (simp add: mock_step_def)
  next
    case 3
    then have "min (Suc n) (nat (max_tokens (sampling r))) = Suc n" "min n (nat (max_tokens (sampling r))) = n"
      by linarith+
    with 3 Suc show ?thesis by (simp add: mock_step_def)
  qed
qed

lemma events_of_concat: "events_of i (concat xss) = concat (map (events_of i) xss)"
  by (induction xss) simp_all

definition mock_tokens :: "runtime_request \<Rightarrow> string list" where
  "mock_tokens r = map mock_token [0..<nat (max_tokens (sampling r))]"

lemma mock_steps_ge: "r \<in> set rs \<Longrightarrow> max_tokens (sampling r) \<le> int (mock_steps rs)"
proof -
  assume "r \<in> set rs"
  then have "max_tokens (sampling r) \<le> Max (set (map (\<lambda>r. max_tokens (sampling r)) rs))"
    by (intro Max_ge) auto
  then show ?thesis by (simp add: mock_steps_def)
qed

lemma yields_steps: "yields (concat (map (\<lambda>i. Sleep d # map Yield (f i)) is)) = concat (map f is)"
  by (induction "is") auto

lemma yields_batch:
  "yields (mock_generate_batch b rs)
   = (if rs = [] then [] else concat (map (\<lambda>i. concat (map (mock_step i) rs)) [0..<mock_steps rs]))"
  unfolding mock_generate_batch_def by (simp add: yields_steps del: map_concat)

lemma mock_complete:
  assumes "distinct (map request_id rs)" "r \<in> set rs" "1 \<le> max_tokens (sampling r)"
  shows "events_of (request_id r) (yields (mock_generate_batch b rs))
    = full_events (request_id r) (mock_tokens r)"
proof -
  have "events_of (request_id r) (yields (mock_generate_batch b rs))
      = concat (map (\<lambda>k. mock_step k r) [0..<mock_steps rs])"
    using assms(2) mock_row [OF assms(1,2)] by (auto simp: yields_batch events_of_concat comp_def)
  also have "\<dots> = full_events (request_id r) (mock_tokens r)"
    using mock_rows [of r "mock_steps rs"] mock_steps_ge [OF assms(2)] assms(3)
    by (simp add: full_events_def mock_tokens_def comp_def min_absorb2 nat_le_iff)
  finally show ?thesis .
qed

lemma mock_ids: "e \<in> set (yields (mock_generate_batch b rs)) \<Longrightarrow> ev_id e \<in> request_id ` set rs"
  by (auto simp: yields_batch mock_step_def split: if_splits)

text \<open>What the worker sees of the two generators.\<close>

definition mock_stream :: "mock_backend \<Rightarrow> runtime_request \<Rightarrow> string stream" where
  "mock_stream b r = (yields (mock_generate b r), None)"

definition mock_batch_stream :: "mock_backend \<Rightarrow> runtime_request list \<Rightarrow> batch_event stream" where
  "mock_batch_stream b rs = (yields (mock_generate_batch b rs), None)"

lemma mock_generate_tokens: "yields (mock_generate b r) = mock_tokens r"
proof -
  have "yields (concat (map (\<lambda>i. [Sleep d, Yield (f i)]) is)) = map f is"
    for d and f :: "nat \<Rightarrow> string" and "is"
    by (induction "is") auto
  then show ?thesis by (simp add: mock_generate_def mock_tokens_def)
qed

interpretation mock: batch_backend "mock_stream b" "mock_batch_stream b" for b
  by unfold_locales
    (auto simp: mock_stream_def mock_batch_stream_def mock_complete mock_generate_tokens dest: mock_ids)

section \<open>Time\<close>

lemma slept_const: "slept (concat (map (\<lambda>i. Sleep d # map Yield (f i)) is)) = of_nat (length is) * d"
  by (induction "is") (auto simp: algebra_simps)

lemma mock_generate_time:
  "slept (mock_generate b r)
   = prefill_latency_s b + of_nat (nat (max_tokens (sampling r))) * decode_latency_s b"
  using slept_const [of "decode_latency_s b" "\<lambda>i. [mock_token i]"] by (simp add: mock_generate_def)

lemma mock_batch_time:
  "rs \<noteq> [] \<Longrightarrow> slept (mock_generate_batch b rs)
   = prefill_latency_s b + of_nat (mock_steps rs) * decode_latency_s b"
  by (simp add: mock_generate_batch_def slept_const)

lemma mock_steps_max:
  assumes "rs \<noteq> []"
  shows "\<exists>r \<in> set rs. mock_steps rs = nat (max_tokens (sampling r))"
proof -
  have "Max (set (map (\<lambda>r. max_tokens (sampling r)) rs)) \<in> set (map (\<lambda>r. max_tokens (sampling r)) rs)"
    using assms by (intro Max_in) auto
  then show ?thesis by (auto simp: mock_steps_def)
qed

section \<open>Properties\<close>

text \<open>
  C29: Batching changes nothing but the time. For a batch of valid requests with distinct ids, the
  interleaved events of the mock backend give every request exactly the tokens of a single run,
  in order, then one completion and nothing after, the same as the compatibility mode of the base
  class; and the batch takes as long as its longest request alone.
\<close>

theorem mock_batch_equals_single:
  assumes "distinct (map request_id rs)" and "\<forall>r \<in> set rs. 1 \<le> max_tokens (sampling r)"
    and "r \<in> set rs" and "0 \<le> decode_latency_s b"
  shows "events_of (request_id r) (yields (mock_generate_batch b rs))
      = full_events (request_id r) (yields (mock_generate b r)) \<and>
    events_of (request_id r) (fst (base_generate_batch (mock_stream b) rs))
      = events_of (request_id r) (yields (mock_generate_batch b rs)) \<and>
    (\<exists>q \<in> set rs. slept (mock_generate_batch b rs) = slept (mock_generate b q)) \<and>
    slept (mock_generate b r) \<le> slept (mock_generate_batch b rs)"
proof -
  have ne: "rs \<noteq> []" using assms(3) by auto
  have ok: "snd (base_generate_batch (mock_stream b) qs) = None" for qs
    by (induction qs) (simp_all add: mock_stream_def case_prod_beta Let_def)
  have "nat (max_tokens (sampling r)) \<le> mock_steps rs"
    using mock_steps_ge [OF assms(3)] by simp
  then have "of_nat (nat (max_tokens (sampling r))) * decode_latency_s b
      \<le> of_nat (mock_steps rs) * decode_latency_s b"
    using assms(4) by (intro mult_right_mono) auto
  then have le: "slept (mock_generate b r) \<le> slept (mock_generate_batch b rs)"
    by (simp add: mock_generate_time mock_batch_time [OF ne])
  have "events_of (request_id r) (yields (mock_generate_batch b rs))
      = full_events (request_id r) (yields (mock_generate b r))"
    using mock.law_complete [of rs b r] assms(1-3) by (simp add: mock_batch_stream_def mock_stream_def)
  moreover have "events_of (request_id r) (fst (base_generate_batch (mock_stream b) rs))
      = full_events (request_id r) (yields (mock_generate b r))"
    using compat.law_complete [of rs "mock_stream b" r] ok assms(1-3) by (simp add: mock_stream_def)
  moreover obtain q where "q \<in> set rs" "mock_steps rs = nat (max_tokens (sampling q))"
    using mock_steps_max [OF ne] by blast
  ultimately show ?thesis
    using le by (auto simp: mock_generate_time mock_batch_time [OF ne])
qed

definition wit_sampled :: "string \<Rightarrow> int \<Rightarrow> runtime_request" where
  "wit_sampled u n = from_chat_request u 0
     \<lparr>ccr_model = ''m'', ccr_messages = [], ccr_max_tokens = n, ccr_temperature = 1, ccr_top_p = 1,
      ccr_stream = False, ccr_priority = 0\<rparr>"

theorem mock_batch_equals_single_witness:
  "let rs = [wit_sampled ''a'' 1, wit_sampled ''b'' 3]; b = init_mock 25 10 in
     events_of (new_request_id ''b'') (yields (mock_generate_batch b rs))
       = full_events (new_request_id ''b'') (yields (mock_generate b (wit_sampled ''b'' 3))) \<and>
     slept (mock_generate_batch b rs) = 55 / 1000"
proof -
  let ?rs = "[wit_sampled ''a'' 1, wit_sampled ''b'' 3]" and ?b = "init_mock 25 10"
  have "distinct (map request_id ?rs)" "\<forall>r \<in> set ?rs. 1 \<le> max_tokens (sampling r)"
    "wit_sampled ''b'' 3 \<in> set ?rs" "0 \<le> decode_latency_s ?b"
    by (simp_all add: wit_sampled_def from_chat_request_def new_request_id_def init_mock_def)
  from mock_batch_equals_single [OF this]
  have "events_of (request_id (wit_sampled ''b'' 3)) (yields (mock_generate_batch ?b ?rs))
      = full_events (request_id (wit_sampled ''b'' 3)) (yields (mock_generate ?b (wit_sampled ''b'' 3)))"
    by blast
  moreover have "request_id (wit_sampled ''b'' 3) = new_request_id ''b''"
    by (simp add: wit_sampled_def from_chat_request_def)
  moreover have "slept (mock_generate_batch ?b ?rs) = 55 / 1000"
    by (simp add: mock_batch_time mock_steps_def wit_sampled_def from_chat_request_def init_mock_def)
  ultimately show ?thesis by (simp add: Let_def)
qed

end
