(* ===== verification/Latency.thy ===== *)
theory Latency
  imports Prelude
begin

text \<open>
  \<open>metrics/latency.py\<close> and the histogram of \<open>metrics/collector.py\<close>: the percentile of a list of
  samples and the bucketed counts behind the Prometheus export.
\<close>

section \<open>Percentile\<close>

definition percentile :: "rat list \<Rightarrow> rat \<Rightarrow> rat" where
  "percentile values pct =
     (if values = [] then 0
      else (let sorted_values = sort values;
                n = int (length sorted_values);
                index = min (n - 1) (max 0 (py_round (pct / 100 * of_int (n - 1)))) in
        sorted_values ! nat index))"

definition percentile_index :: "nat \<Rightarrow> rat \<Rightarrow> nat" where
  "percentile_index n pct = nat (min (int n - 1) (max 0 (py_round (pct / 100 * of_int (int n - 1)))))"

lemma percentile_nth:
  "values \<noteq> [] \<Longrightarrow> percentile values pct = sort values ! percentile_index (length values) pct"
  by (simp add: percentile_def percentile_index_def Let_def)

lemma percentile_index_less: "0 < n \<Longrightarrow> percentile_index n pct < n"
  by (auto simp: percentile_index_def)

lemma percentile_index_mono: "p \<le> q \<Longrightarrow> 0 < n \<Longrightarrow> percentile_index n p \<le> percentile_index n q"
  unfolding percentile_index_def
  by (intro nat_mono min.mono max.mono order_refl py_round_mono mult_right_mono divide_right_mono) auto

lemma percentile_index_0: "percentile_index n 0 = 0"
  using py_round_of_int [of 0] by (simp add: percentile_index_def)

lemma percentile_index_100: "percentile_index n 100 = n - 1"
  using py_round_of_int [of "int n - 1"] by (auto simp: percentile_index_def)

section \<open>Histogram\<close>

record histogram =
  boundaries :: "rat list"
  counts :: "nat list"
  h_sum :: rat
  h_total :: nat

definition latency_buckets :: "rat list" where
  "latency_buckets =
     [1 / 1000, 5 / 1000, 1 / 100, 25 / 1000, 5 / 100, 1 / 10, 25 / 100, 5 / 10, 1, 25 / 10, 5, 10]"

text \<open>\<open>buckets or _LATENCY_BUCKETS\<close>: no list and the empty list both mean the default.\<close>

definition histogram_init :: "rat list option \<Rightarrow> histogram" where
  "histogram_init buckets =
     (let bs = (case buckets of None \<Rightarrow> latency_buckets
                | Some l \<Rightarrow> if l = [] then latency_buckets else l) in
      \<lparr>boundaries = bs, counts = replicate (length bs + 1) 0, h_sum = 0, h_total = 0\<rparr>)"

text \<open>The loop of \<open>observe\<close>: the index of the first boundary at or above the value.\<close>

fun first_bucket :: "rat \<Rightarrow> rat list \<Rightarrow> nat option" where
  "first_bucket v [] = None"
| "first_bucket v (b # bs) = (if v \<le> b then Some 0 else map_option Suc (first_bucket v bs))"

definition observe :: "rat \<Rightarrow> histogram \<Rightarrow> histogram" where
  "observe v h =
     (let h1 = h\<lparr>h_sum := h_sum h + v, h_total := h_total h + 1\<rparr> in
      case first_bucket v (boundaries h1) of
        Some idx \<Rightarrow> h1\<lparr>counts := (counts h1)[idx := counts h1 ! idx + 1]\<rparr>
      | None \<Rightarrow> (let l = length (counts h1) - 1 in
          h1\<lparr>counts := (counts h1)[l := counts h1 ! l + 1]\<rparr>))"

text \<open>The running \<open>cumulative\<close> of the Prometheus export, one value per boundary.\<close>

fun cumulative_from :: "nat \<Rightarrow> nat list \<Rightarrow> nat list" where
  "cumulative_from acc [] = []"
| "cumulative_from acc (c # cs) = (acc + c) # cumulative_from (acc + c) cs"

definition cumulative_counts :: "histogram \<Rightarrow> nat list" where
  "cumulative_counts h = cumulative_from 0 (take (length (boundaries h)) (counts h))"

text \<open>
  \<open>prometheus_lines\<close>; \<open>fmt\<close> is Python's text for a \<open>float\<close>, which the exact rationals of the
  model do not determine.
\<close>

definition prometheus_lines :: "(rat \<Rightarrow> string) \<Rightarrow> string \<Rightarrow> string \<Rightarrow> histogram \<Rightarrow> string" where
  "prometheus_lines fmt name help_text h =
     (if h_total h = 0 then ''''
      else py_join [newline]
        ([''# HELP '' @ name @ '' '' @ help_text,
          ''# TYPE '' @ name @ '' histogram''] @
         map2 (\<lambda>b c. name @ ''_bucket{le='' @ [CHR 0x22] @ fmt b @ [CHR 0x22] @ ''} '' @ str_nat c)
           (boundaries h) (cumulative_counts h) @
         [name @ ''_bucket{le='' @ [CHR 0x22] @ ''+Inf'' @ [CHR 0x22] @ ''} '' @ str_nat (h_total h),
          name @ ''_sum '' @ fmt (h_sum h),
          name @ ''_count '' @ str_nat (h_total h)]) @ [newline])"

record histogram_snapshot =
  hs_count :: nat
  hs_sum :: rat
  hs_buckets :: "(string \<times> nat) list"
  hs_inf :: nat

definition round_6 :: "rat \<Rightarrow> rat" where
  "round_6 x = of_int (py_round (x * 1000000)) / 1000000"

definition histogram_snapshot_of :: "(rat \<Rightarrow> string) \<Rightarrow> histogram \<Rightarrow> histogram_snapshot" where
  "histogram_snapshot_of fmt h =
     \<lparr>hs_count = h_total h, hs_sum = round_6 (h_sum h),
      hs_buckets = map2 (\<lambda>b c. (fmt b, c)) (boundaries h) (counts h),
      hs_inf = last (counts h)\<rparr>"

section \<open>Counts of a histogram\<close>

definition observe_all :: "rat list \<Rightarrow> histogram \<Rightarrow> histogram" where
  "observe_all vs h = foldl (\<lambda>h v. observe v h) h vs"

definition bucket_of :: "rat \<Rightarrow> rat list \<Rightarrow> nat" where
  "bucket_of v bs = (case first_bucket v bs of Some i \<Rightarrow> i | None \<Rightarrow> length bs)"

definition histogram_wf :: "histogram \<Rightarrow> bool" where
  "histogram_wf h \<longleftrightarrow> length (counts h) = length (boundaries h) + 1 \<and> sum_list (counts h) = h_total h"

lemma first_bucket_less: "first_bucket v bs = Some i \<Longrightarrow> i < length bs"
  by (induction bs arbitrary: i) (auto split: if_splits)

lemma bucket_of_le: "bucket_of v bs \<le> length bs"
  by (auto simp: bucket_of_def split: option.split dest: first_bucket_less)

lemma observe_frame [metric_simps]:
  "boundaries (observe v h) = boundaries h" "h_total (observe v h) = h_total h + 1"
  "h_sum (observe v h) = h_sum h + v" "length (counts (observe v h)) = length (counts h)"
  by (simp_all add: observe_def Let_def split: option.split)

lemma observe_counts:
  "length (counts h) = length (boundaries h) + 1 \<Longrightarrow>
   counts (observe v h) = (let i = bucket_of v (boundaries h) in (counts h)[i := counts h ! i + 1])"
  by (simp add: observe_def bucket_of_def Let_def split: option.split)

lemma sum_list_incr: "i < length xs \<Longrightarrow> sum_list (xs[i := Suc (xs ! i)]) = Suc (sum_list xs)"
  by (simp add: sum_list_update elem_le_sum_list)

lemma observe_wf: "histogram_wf h \<Longrightarrow> histogram_wf (observe v h)"
  using bucket_of_le [of v "boundaries h"]
  by (simp add: histogram_wf_def metric_simps observe_counts Let_def sum_list_incr)

lemma histogram_init_wf: "histogram_wf (histogram_init bs)"
  by (simp add: histogram_wf_def histogram_init_def Let_def sum_list_replicate)

text \<open>The number of samples in bucket \<open>i\<close> is the number whose first boundary is the \<open>i\<close>th.\<close>

lemma observe_all_frame [metric_simps]:
  "boundaries (observe_all vs h) = boundaries h" "h_total (observe_all vs h) = h_total h + length vs"
  "h_sum (observe_all vs h) = h_sum h + sum_list vs"
  by (induction vs arbitrary: h) (simp_all add: observe_all_def metric_simps)

lemma observe_all_wf: "histogram_wf h \<Longrightarrow> histogram_wf (observe_all vs h)"
  by (induction vs arbitrary: h) (simp_all add: observe_all_def observe_wf)

lemma observe_all_counts:
  assumes "histogram_wf h" "i < length (counts h)"
  shows "counts (observe_all vs h) ! i
    = counts h ! i + length (filter (\<lambda>v. bucket_of v (boundaries h) = i) vs)"
  using assms
proof (induction vs arbitrary: h)
  case Nil
  then show ?case by (simp add: observe_all_def)
next
  case (Cons v vs)
  have "counts (observe_all vs (observe v h)) ! i = counts (observe v h) ! i
      + length (filter (\<lambda>v. bucket_of v (boundaries h) = i) vs)"
    using Cons.IH [of "observe v h"] Cons.prems by (simp add: observe_wf metric_simps)
  moreover have "counts (observe v h) ! i
      = counts h ! i + (if bucket_of v (boundaries h) = i then 1 else 0)"
    using Cons.prems by (simp add: observe_counts histogram_wf_def Let_def)
  ultimately show ?case by (simp add: observe_all_def)
qed

lemma bucket_of_le_iff:
  "sorted bs \<Longrightarrow> i < length bs \<Longrightarrow> bucket_of v bs \<le> i \<longleftrightarrow> v \<le> bs ! i"
proof (induction bs arbitrary: i)
  case Nil
  then show ?case by simp
next
  case (Cons b bs)
  have s: "bucket_of v (b # bs) = (if v \<le> b then 0 else Suc (bucket_of v bs))"
    by (simp add: bucket_of_def split: option.split)
  show ?case
  proof (cases i)
    case 0
    then show ?thesis by (simp add: s)
  next
    case (Suc j)
    have "b \<le> bs ! j" using Cons.prems Suc by simp
    with Cons Suc show ?thesis by (auto simp: s intro: order_trans)
  qed
qed

lemma cumulative_from_nth:
  "i < length cs \<Longrightarrow> cumulative_from acc cs ! i = acc + sum_list (take (Suc i) cs)"
  by (induction cs arbitrary: acc i) (auto simp: nth_Cons' take_Cons')

lemma length_cumulative_from [simp]: "length (cumulative_from acc cs) = length cs"
  by (induction cs arbitrary: acc) auto

lemma sum_filter_upto:
  "(\<Sum>j < Suc i. length (filter (\<lambda>v. f v = j) vs)) = length (filter (\<lambda>v. f v \<le> (i :: nat)) vs)"
proof (induction vs)
  case Nil
  then show ?case by simp
next
  case (Cons v vs)
  have "(\<Sum>j < Suc i. length (filter (\<lambda>v. f v = j) (v # vs)))
      = (\<Sum>j < Suc i. (if f v = j then 1 else 0) + length (filter (\<lambda>v. f v = j) vs))"
    by (intro sum.cong) auto
  also have "\<dots> = (if f v \<le> i then 1 else 0) + length (filter (\<lambda>v. f v \<le> i) vs)"
    by (simp add: sum.distrib Cons.IH [symmetric] del: sum.lessThan_Suc)
  finally show ?case by simp
qed

lemma histogram_run:
  assumes "sorted bs" and "bs \<noteq> []" and "i < length bs"
  shows "cumulative_counts (observe_all vs (histogram_init (Some bs))) ! i
      = length (filter (\<lambda>v. v \<le> bs ! i) vs)"
    and "histogram_wf (observe_all vs (histogram_init (Some bs)))"
    and "h_total (observe_all vs (histogram_init (Some bs))) = length vs"
    and "h_sum (observe_all vs (histogram_init (Some bs))) = sum_list vs"
proof -
  let ?g = "histogram_init (Some bs)" and ?h = "observe_all vs (histogram_init (Some bs))"
  have b: "boundaries ?g = bs" "counts ?g = replicate (length bs + 1) 0" "h_total ?g = 0" "h_sum ?g = 0"
    using assms(2) by (simp_all add: histogram_init_def Let_def)
  have wf: "histogram_wf ?h" by (intro observe_all_wf histogram_init_wf)
  have len: "length (counts ?h) = length bs + 1"
    using wf by (simp add: histogram_wf_def metric_simps b)
  have c: "counts ?h ! j = length (filter (\<lambda>v. bucket_of v bs = j) vs)" if "j < length bs + 1" for j
    using observe_all_counts [OF histogram_init_wf, of j "Some bs" vs] that by (simp add: b nth_Cons')
  have "cumulative_counts ?h ! i = sum_list (take (Suc i) (counts ?h))"
    using assms(3) len
    by (simp add: cumulative_counts_def metric_simps b cumulative_from_nth min_def Suc_le_eq)
  also have "\<dots> = (\<Sum>j < Suc i. counts ?h ! j)"
    using assms(3) len by (simp add: sum_list_sum_nth min_def atLeast0LessThan)
  also have "\<dots> = (\<Sum>j < Suc i. length (filter (\<lambda>v. bucket_of v bs = j) vs))"
    using assms(3) by (intro sum.cong) (simp_all add: c)
  also have "\<dots> = length (filter (\<lambda>v. v \<le> bs ! i) vs)"
    unfolding sum_filter_upto using bucket_of_le_iff [OF assms(1,3)] by simp
  finally show "cumulative_counts ?h ! i = length (filter (\<lambda>v. v \<le> bs ! i) vs)" .
  show "histogram_wf ?h" "h_total ?h = length vs" "h_sum ?h = sum_list vs"
    using wf by (simp_all add: metric_simps b)
qed

lemmas cumulative_count_le = histogram_run(1)

section \<open>Properties\<close>

text \<open>
  A percentile of a non-empty list of samples is one of the samples, lies between the least
  and the greatest, and does not decrease when the requested percentage grows; so the exported
  50th, 95th and 99th percentiles are always in order.
\<close>

lemma percentile_ordered:
  assumes "values \<noteq> []" and "p \<le> q"
  shows "percentile values p \<in> set values \<and>
    percentile values p \<le> percentile values q \<and>
    percentile values 0 = Min (set values) \<and> percentile values 100 = Max (set values)"
proof -
  let ?n = "length values" and ?s = "sort values"
  have n: "0 < ?n" using assms(1) by simp
  have mem: "percentile values r \<in> set values" for r
    using percentile_index_less [OF n, of r] assms(1)
    by (metis percentile_nth length_sort nth_mem set_sort)
  have mono: "percentile values a \<le> percentile values b" if "a \<le> b" for a b
    unfolding percentile_nth [OF assms(1)]
    using percentile_index_mono [OF that n] percentile_index_less [OF n, of b]
    by (intro sorted_nth_mono) auto
  have first: "percentile values 0 \<le> v" and last: "v \<le> percentile values 100" if "v \<in> set values" for v
  proof -
    from that obtain i where i: "i < ?n" "v = ?s ! i" by (metis in_set_conv_nth length_sort set_sort)
    have "percentile_index ?n 0 \<le> i" "i \<le> percentile_index ?n 100"
      using i(1) by (simp_all add: percentile_index_0 percentile_index_100)
    then show "percentile values 0 \<le> v" "v \<le> percentile values 100"
      unfolding percentile_nth [OF assms(1)] i(2)
      using i(1) percentile_index_less [OF n] by (auto intro!: sorted_nth_mono)
  qed
  have "percentile values 0 = Min (set values)" "percentile values 100 = Max (set values)"
    using mem first last by (auto intro!: Min_eqI [symmetric] Max_eqI [symmetric])
  with mem mono assms(2) show ?thesis by blast
qed

lemma percentile_ordered_witness:
  "percentile [7, 1, 5, 3] 50 = 5 \<and> percentile [7, 1, 5, 3] 50 \<le> percentile [7, 1, 5, 3] 95"
proof
  show "percentile [7, 1, 5, 3] 50 = 5"
    by code_simp
  show "percentile [7, 1, 5, 3] 50 \<le> percentile [7, 1, 5, 3] 95"
    using percentile_ordered [of "[7, 1, 5, 3]" 50 95] by simp
qed

text \<open>
  The Prometheus contract of a histogram. For boundaries in increasing order, after any
  sequence of observations the cumulative count exported for a boundary is the number of
  observations at or below it, the exported total is the number of observations and equals the
  sum of all bucket counts, and the exported sum is their sum.
\<close>

lemma histogram_cumulative:
  assumes "sorted bs" and "bs \<noteq> []" and "i < length bs"
  shows "let h = observe_all vs (histogram_init (Some bs)) in
    cumulative_counts h ! i = length (filter (\<lambda>v. v \<le> bs ! i) vs) \<and>
    h_total h = length vs \<and> sum_list (counts h) = h_total h \<and> h_sum h = sum_list vs"
  using histogram_run [OF assms, of vs] by (simp add: Let_def histogram_wf_def)

lemma histogram_cumulative_witness:
  "let h = observe_all [1 / 2, 3, 1, 9] (histogram_init (Some [1, 5])) in
     cumulative_counts h = [2, 3] \<and> cumulative_counts h ! 1 = length (filter (\<lambda>v. v \<le> 5) [1 / 2, 3, 1, 9 :: rat])"
proof -
  let ?h = "observe_all [1 / 2, 3, 1, 9] (histogram_init (Some [1, 5]))"
  have "cumulative_counts ?h = [2, 3]"
    by (simp add: observe_all_def histogram_init_def observe_def cumulative_counts_def Let_def)
  moreover have "cumulative_counts ?h ! 1 = length (filter (\<lambda>v. v \<le> [1, 5] ! 1) [1 / 2, 3, 1, 9 :: rat])"
    using histogram_cumulative [of "[1, 5]" 1 "[1 / 2, 3, 1, 9]"] by (simp only: Let_def) simp
  ultimately show ?thesis by simp
qed

end
