(* ===== verification/Gpu.thy ===== *)
theory Gpu
  imports Prelude
begin

text \<open>
  \<open>metrics/gpu.py\<close>: the sampler that asks \<open>nvidia-smi\<close> for one CSV row per GPU and folds the
  rows into a snapshot. The subprocess is outside the program: its outcome is an argument. The
  rows are read by Python's \<open>csv.reader\<close> in its default dialect, whose character automaton is
  written out here, with the exceptions it and \<open>int()\<close> raise.
\<close>

section \<open>Snapshots\<close>

record gpu_device =
  g_index :: int
  g_name :: string
  g_memory_used_mb :: int
  g_memory_total_mb :: int
  g_utilization_pct :: int

record gpu_snapshot =
  gs_status :: string
  gs_source :: string
  gs_gpu_count :: int
  gs_memory_used_mb :: int
  gs_memory_total_mb :: int
  gs_utilization_pct :: int
  gs_gpus :: "gpu_device list"
  gs_reason :: "string option"

datatype gpu_exn = CsvError | ValueError

definition gpu_unavailable :: "string \<Rightarrow> gpu_snapshot" where
  "gpu_unavailable r =
     \<lparr>gs_status = ''unavailable'', gs_source = ''nvidia-smi'', gs_gpu_count = 0,
      gs_memory_used_mb = 0, gs_memory_total_mb = 0, gs_utilization_pct = 0, gs_gpus = [],
      gs_reason = Some r\<rparr>"

section \<open>csv.reader\<close>

datatype csv_state = StartRecord | StartField | InField | InQuoted | QuoteInQuoted | EatCrnl

record csv_reader =
  cs_state :: csv_state
  cs_field :: string
  cs_fields :: "string list"

definition csv_reset :: csv_reader where
  "csv_reset = \<lparr>cs_state = StartRecord, cs_field = '''', cs_fields = []\<rparr>"

definition csv_save :: "csv_reader \<Rightarrow> csv_reader" where
  "csv_save r = r\<lparr>cs_fields := cs_fields r @ [cs_field r], cs_field := ''''\<rparr>"

text \<open>\<open>csv.field_size_limit()\<close>: a character too many is a \<open>csv.Error\<close>.\<close>

definition field_limit :: nat where
  "field_limit = 131072"

definition csv_add :: "char \<Rightarrow> csv_reader \<Rightarrow> gpu_exn + csv_reader" where
  "csv_add c r =
     (if field_limit \<le> length (cs_field r) then Inl CsvError
      else Inr (r\<lparr>cs_field := cs_field r @ [c]\<rparr>))"

definition csv_goto :: "csv_state \<Rightarrow> csv_reader \<Rightarrow> csv_reader" where
  "csv_goto s r = r\<lparr>cs_state := s\<rparr>"

definition is_crnl :: "char \<Rightarrow> bool" where
  "is_crnl c \<longleftrightarrow> c = newline \<or> c = CHR 0x0D"

text \<open>One character, or the end of the line as \<open>None\<close>.\<close>

definition csv_start_field :: "char option \<Rightarrow> csv_reader \<Rightarrow> gpu_exn + csv_reader" where
  "csv_start_field c r =
     (case c of
        None \<Rightarrow> Inr (csv_goto StartRecord (csv_save r))
      | Some ch \<Rightarrow>
          if is_crnl ch then Inr (csv_goto EatCrnl (csv_save r))
          else if ch = CHR 0x22 then Inr (csv_goto InQuoted r)
          else if ch = CHR '','' then Inr (csv_goto StartField (csv_save r))
          else csv_add ch (csv_goto InField r))"

definition csv_char :: "char option \<Rightarrow> csv_reader \<Rightarrow> gpu_exn + csv_reader" where
  "csv_char c r =
     (case cs_state r of
        StartRecord \<Rightarrow>
          (case c of
             None \<Rightarrow> Inr r
           | Some ch \<Rightarrow> if is_crnl ch then Inr (csv_goto EatCrnl r) else csv_start_field c r)
      | StartField \<Rightarrow> csv_start_field c r
      | InField \<Rightarrow>
          (case c of
             None \<Rightarrow> Inr (csv_goto StartRecord (csv_save r))
           | Some ch \<Rightarrow>
               if is_crnl ch then Inr (csv_goto EatCrnl (csv_save r))
               else if ch = CHR '','' then Inr (csv_goto StartField (csv_save r))
               else csv_add ch r)
      | InQuoted \<Rightarrow>
          (case c of
             None \<Rightarrow> Inr r
           | Some ch \<Rightarrow> if ch = CHR 0x22 then Inr (csv_goto QuoteInQuoted r) else csv_add ch r)
      | QuoteInQuoted \<Rightarrow>
          (case c of
             None \<Rightarrow> Inr (csv_goto StartRecord (csv_save r))
           | Some ch \<Rightarrow>
               if ch = CHR 0x22 then csv_add ch (csv_goto InQuoted r)
               else if ch = CHR '','' then Inr (csv_goto StartField (csv_save r))
               else if is_crnl ch then Inr (csv_goto EatCrnl (csv_save r))
               else csv_add ch (csv_goto InField r))
      | EatCrnl \<Rightarrow>
          (case c of
             None \<Rightarrow> Inr (csv_goto StartRecord r)
           | Some ch \<Rightarrow> if is_crnl ch then Inr r else Inl CsvError))"

fun csv_chars :: "char option list \<Rightarrow> csv_reader \<Rightarrow> gpu_exn + csv_reader" where
  "csv_chars [] r = Inr r"
| "csv_chars (c # cs) r = (case csv_char c r of Inl e \<Rightarrow> Inl e | Inr r1 \<Rightarrow> csv_chars cs r1)"

text \<open>Lines as \<open>StringIO\<close> yields them, each with its newline; one row may span lines when a
  quoted field holds a newline, and the last row may end without one.\<close>

fun split_lines :: "string \<Rightarrow> string \<Rightarrow> string list" where
  "split_lines [] acc = (if acc = [] then [] else [acc])"
| "split_lines (c # cs) acc =
     (if c = newline then (acc @ [c]) # split_lines cs [] else split_lines cs (acc @ [c]))"

fun csv_rows :: "string list \<Rightarrow> csv_reader \<Rightarrow> gpu_exn + string list list" where
  "csv_rows [] r =
     (if cs_field r \<noteq> [] \<or> cs_state r = InQuoted then Inr [cs_fields (csv_save r)] else Inr [])"
| "csv_rows (l # ls) r =
     (case csv_chars (map Some l @ [None]) r of
        Inl e \<Rightarrow> Inl e
      | Inr r1 \<Rightarrow>
          if cs_state r1 = StartRecord then
            (case csv_rows ls csv_reset of Inl e \<Rightarrow> Inl e | Inr rows \<Rightarrow> Inr (cs_fields r1 # rows))
          else csv_rows ls r1)"

definition csv_reader_rows :: "string \<Rightarrow> gpu_exn + string list list" where
  "csv_reader_rows output = csv_rows (split_lines output []) csv_reset"

section \<open>Parsing the rows\<close>

text \<open>\<open>str.isdigit\<close> also holds of the superscripts two, three and one, which \<open>int()\<close>
  refuses.\<close>

definition py_isdigit :: "char \<Rightarrow> bool" where
  "py_isdigit c \<longleftrightarrow> is_ascii_digit c \<or> c \<in> set [CHR 0xB2, CHR 0xB3, CHR 0xB9]"

text \<open>\<open>sys.get_int_max_str_digits()\<close>: \<open>int()\<close> refuses longer texts.\<close>

definition int_digits_limit :: nat where
  "int_digits_limit = 4300"

definition parse_int :: "string \<Rightarrow> gpu_exn + int" where
  "parse_int value =
     (let digits = filter py_isdigit value in
      if digits = [] then Inr 0
      else if int_digits_limit < length digits then Inl ValueError
      else if list_all is_ascii_digit digits then Inr (int (digits_val digits))
      else Inl ValueError)"

fun parse_device :: "string list \<Rightarrow> gpu_exn + gpu_device" where
  "parse_device (index # name # used # tot # util # rest) =
     (case parse_int index of Inl e \<Rightarrow> Inl e | Inr i \<Rightarrow>
      (case parse_int used of Inl e \<Rightarrow> Inl e | Inr u \<Rightarrow>
      (case parse_int tot of Inl e \<Rightarrow> Inl e | Inr t \<Rightarrow>
      (case parse_int util of Inl e \<Rightarrow> Inl e | Inr p \<Rightarrow>
        Inr \<lparr>g_index = i, g_name = name, g_memory_used_mb = u, g_memory_total_mb = t,
             g_utilization_pct = p\<rparr>))))"
| "parse_device _ = Inl ValueError"

text \<open>The five query fields; blank rows and short rows are skipped.\<close>

fun parse_rows :: "string list list \<Rightarrow> gpu_exn + gpu_device list" where
  "parse_rows [] = Inr []"
| "parse_rows (row # rows) =
     (if row = [] \<or> (\<forall>value \<in> set row. py_strip value = []) then parse_rows rows
      else if length row < 5 then parse_rows rows
      else
        (case parse_device (map py_strip (take 5 row)) of
           Inl e \<Rightarrow> Inl e
         | Inr d \<Rightarrow> (case parse_rows rows of Inl e \<Rightarrow> Inl e | Inr ds \<Rightarrow> Inr (d # ds))))"

definition parse_nvidia_smi :: "string \<Rightarrow> gpu_exn + gpu_device list" where
  "parse_nvidia_smi output =
     (case csv_reader_rows output of Inl e \<Rightarrow> Inl e | Inr rows \<Rightarrow> parse_rows rows)"

section \<open>The sampler\<close>

text \<open>How running the command ended: \<open>subprocess.TimeoutExpired\<close>, an \<open>OSError\<close> with its text,
  or a completed process with its return code, output and error output.\<close>

datatype run_outcome = RunTimeout | RunOSError string | RunCompleted int string string

definition sampler_snapshot :: "bool \<Rightarrow> bool \<Rightarrow> run_outcome \<Rightarrow> gpu_exn + gpu_snapshot" where
  "sampler_snapshot has_runner command_found outcome =
     (if \<not> has_runner \<and> \<not> command_found then Inr (gpu_unavailable ''nvidia-smi not found'')
      else (case outcome of
        RunTimeout \<Rightarrow> Inr (gpu_unavailable ''nvidia-smi timed out'')
      | RunOSError msg \<Rightarrow> Inr (gpu_unavailable msg)
      | RunCompleted returncode out err \<Rightarrow>
          if returncode \<noteq> 0 then
            Inr (gpu_unavailable
              (if py_strip err \<noteq> [] then py_strip err
               else ''nvidia-smi exited '' @ str_int returncode))
          else (case parse_nvidia_smi out of
              Inl e \<Rightarrow> Inl e
            | Inr gpus \<Rightarrow>
                if gpus = [] then Inr (gpu_unavailable ''no GPU data'')
                else Inr \<lparr>gs_status = ''available'', gs_source = ''nvidia-smi'',
                  gs_gpu_count = int (length gpus),
                  gs_memory_used_mb = (\<Sum>g\<leftarrow>gpus. g_memory_used_mb g),
                  gs_memory_total_mb = (\<Sum>g\<leftarrow>gpus. g_memory_total_mb g),
                  gs_utilization_pct =
                    py_round (of_int (\<Sum>g\<leftarrow>gpus. g_utilization_pct g) / of_nat (length gpus)),
                  gs_gpus = gpus, gs_reason = None\<rparr>)))"

section \<open>Lemmas\<close>

lemma split_lines_acc: "newline \<notin> set s \<Longrightarrow> split_lines (s @ newline # t) acc = (acc @ s @ [newline]) # split_lines t []"
  by (induction s arbitrary: acc) auto

lemma csv_chars_append:
  "csv_chars (xs @ ys) r = (case csv_chars xs r of Inl e \<Rightarrow> Inl e | Inr r1 \<Rightarrow> csv_chars ys r1)"
  by (induction xs arbitrary: r) (auto split: sum.split)

definition plain_char :: "char \<Rightarrow> bool" where
  "plain_char c \<longleftrightarrow> \<not> is_crnl c \<and> c \<noteq> CHR 0x22 \<and> c \<noteq> CHR '',''"

lemmas csv_defs = csv_char_def csv_start_field_def csv_save_def csv_add_def csv_goto_def

lemma csv_chars_in_field:
  assumes "\<forall>c \<in> set s. plain_char c" and "cs_state r = InField"
    and "length (cs_field r) + length s \<le> field_limit"
  shows "csv_chars (map Some s) r = Inr (r\<lparr>cs_field := cs_field r @ s\<rparr>)"
  using assms
proof (induction s arbitrary: r)
  case Nil
  then show ?case by simp
next
  case (Cons c s)
  then have "csv_char (Some c) r = Inr (r\<lparr>cs_field := cs_field r @ [c]\<rparr>)"
    by (simp add: csv_char_def csv_add_def plain_char_def)
  with Cons.IH [of "r\<lparr>cs_field := cs_field r @ [c]\<rparr>"] Cons.prems show ?case by simp
qed

lemma csv_chars_field:
  assumes "\<forall>c \<in> set s. plain_char c" "s \<noteq> []" "length s \<le> field_limit"
    and r: "cs_state r \<in> {StartRecord, StartField}" "cs_field r = []"
  shows "csv_chars (map Some s) r = Inr (r\<lparr>cs_state := InField, cs_field := s\<rparr>)"
proof (cases s)
  case Nil
  with assms(2) show ?thesis by simp
next
  case (Cons c t)
  with assms(1) have c: "plain_char c" by simp
  have "csv_char (Some c) r = csv_add c (csv_goto InField r)"
    using r(1) c by (auto simp: csv_char_def csv_start_field_def plain_char_def)
  then have "csv_char (Some c) r = Inr (r\<lparr>cs_state := InField, cs_field := [c]\<rparr>)"
    using r(2) by (simp add: csv_goto_def csv_add_def field_limit_def)
  with Cons assms(1,3) csv_chars_in_field [of t "r\<lparr>cs_state := InField, cs_field := [c]\<rparr>"]
  show ?thesis by simp
qed

definition field_ok :: "string \<Rightarrow> bool" where
  "field_ok f \<longleftrightarrow> f \<noteq> [] \<and> length f \<le> field_limit \<and> (\<forall>c \<in> set f. plain_char c)"

text \<open>A line of plain non-empty fields is read back field by field.\<close>

lemma csv_chars_line:
  assumes "fs \<noteq> []" "\<forall>f \<in> set fs. field_ok f"
    and "cs_state r \<in> {StartRecord, StartField}" "cs_field r = []"
  shows "csv_chars (map Some (py_join '','' fs @ [newline]) @ [None]) r
    = Inr (r\<lparr>cs_state := StartRecord, cs_field := [], cs_fields := cs_fields r @ fs\<rparr>)"
  using assms
proof (induction "'',''" fs arbitrary: r rule: py_join.induct)
  case 1
  then show ?case by simp
next
  case (2 x)
  then have "csv_chars (map Some x) r = Inr (r\<lparr>cs_state := InField, cs_field := x\<rparr>)"
    by (intro csv_chars_field) (auto simp: field_ok_def)
  then show ?case
    by (simp add: csv_chars_append csv_defs is_crnl_def)
next
  case (3 x y fs)
  let ?r = "r\<lparr>cs_state := StartField, cs_field := [], cs_fields := cs_fields r @ [x]\<rparr>"
  have "csv_chars (map Some x) r = Inr (r\<lparr>cs_state := InField, cs_field := x\<rparr>)"
    using 3 by (intro csv_chars_field) (auto simp: field_ok_def)
  then have "csv_chars (map Some (x @ '','')) r = Inr ?r"
    by (simp add: csv_chars_append csv_defs is_crnl_def)
  moreover have "csv_chars (map Some (py_join '','' (y # fs) @ [newline]) @ [None]) ?r
      = Inr (?r\<lparr>cs_state := StartRecord, cs_field := [], cs_fields := cs_fields ?r @ y # fs\<rparr>)"
    using 3 by (intro "3.hyps") auto
  ultimately show ?case
    using csv_chars_append [of "map Some (x @ '','')" _ r] by simp
qed

lemma csv_rows_plain:
  assumes "\<forall>fs \<in> set rows. fs \<noteq> [] \<and> (\<forall>f \<in> set fs. field_ok f)"
  shows "csv_reader_rows (concat (map (\<lambda>fs. py_join '','' fs @ [newline]) rows)) = Inr rows"
  using assms
proof (induction rows)
  case Nil
  show ?case by (simp add: csv_reader_rows_def csv_reset_def)
next
  case (Cons fs rows)
  have plain: "newline \<notin> set (py_join '','' fs)"
    using Cons.prems
    by (induction "'',''" fs rule: py_join.induct) (auto simp: field_ok_def plain_char_def is_crnl_def)
  have "csv_chars (map Some (py_join '','' fs @ [newline]) @ [None]) csv_reset
      = Inr (csv_reset\<lparr>cs_state := StartRecord, cs_field := [], cs_fields := cs_fields csv_reset @ fs\<rparr>)"
    using Cons.prems by (intro csv_chars_line) (auto simp: csv_reset_def)
  then show ?case
    using Cons split_lines_acc [OF plain, of _ "[]"]
    by (simp add: csv_reader_rows_def csv_reset_def)
qed

text \<open>ASCII digits against the character classes of the reader and of \<open>str\<close>.\<close>

lemma digit_chars:
  assumes "is_ascii_digit c"
  shows "py_isdigit c" "plain_char c" "\<not> py_isspace c"
  using assms
  by (auto simp: py_isdigit_def plain_char_def is_crnl_def is_ascii_digit_def py_isspace_def)

lemma length_str_nat: "n < 10 ^ k \<Longrightarrow> 0 < k \<Longrightarrow> length (str_nat n) \<le> k"
proof (induction k arbitrary: n)
  case 0
  then show ?case by simp
next
  case (Suc k)
  show ?case
  proof (cases "n < 10")
    case True
    then show ?thesis by (subst str_nat.simps) simp
  next
    case False
    then have "0 < k" using Suc.prems by (cases k) auto
    moreover have "n div 10 < 10 ^ k" using Suc.prems by (simp add: less_mult_imp_div_less mult.commute)
    ultimately show ?thesis using Suc.IH [of "n div 10"] False by (subst str_nat.simps) simp
  qed
qed

lemma length_str_nat_64:
  assumes "n < 2 ^ 64" shows "length (str_nat n) \<le> 20"
proof -
  have "(2::nat) ^ 64 \<le> 10 ^ 20" by simp
  with assms show ?thesis by (intro length_str_nat) auto
qed

lemma parse_int_str_nat: "n < 2 ^ 64 \<Longrightarrow> parse_int (str_nat n) = Inr (int n)"
proof -
  assume "n < 2 ^ 64"
  then have "\<not> int_digits_limit < length (str_nat n)"
    using length_str_nat_64 by (fastforce simp: int_digits_limit_def)
  have "filter py_isdigit (str_nat n) = str_nat n"
    by (intro filter_True) (auto dest: str_nat_digits digit_chars)
  moreover have "list_all is_ascii_digit (str_nat n)"
    by (auto simp: list_all_iff dest: str_nat_digits)
  moreover note \<open>\<not> int_digits_limit < length (str_nat n)\<close>
  ultimately show ?thesis by (simp add: parse_int_def)
qed

lemma py_strip_str_nat [simp]: "py_strip (str_nat n) = str_nat n"
  using str_nat_digits [OF hd_in_set [OF str_nat_nonempty]]
    str_nat_digits [OF last_in_set [OF str_nat_nonempty]]
  by (intro py_strip_id) (simp_all add: digit_chars)

lemma py_strip_space [simp]: "py_strip (CHR '' '' # s) = py_strip s"
  by (simp add: py_strip_def py_lstrip_def py_isspace_def)

text \<open>What \<open>nvidia-smi --format=csv,noheader,nounits\<close> prints for one GPU.\<close>

definition nvidia_fields :: "gpu_device \<Rightarrow> string list" where
  "nvidia_fields d =
     [str_nat (nat (g_index d)), '' '' @ g_name d, '' '' @ str_nat (nat (g_memory_used_mb d)),
      '' '' @ str_nat (nat (g_memory_total_mb d)), '' '' @ str_nat (nat (g_utilization_pct d))]"

definition nvidia_csv :: "gpu_device list \<Rightarrow> string" where
  "nvidia_csv ds = concat (map (\<lambda>d. py_join '','' (nvidia_fields d) @ [newline]) ds)"

definition plain_device :: "gpu_device \<Rightarrow> bool" where
  "plain_device d \<longleftrightarrow>
     (\<forall>x \<in> {g_index d, g_memory_used_mb d, g_memory_total_mb d, g_utilization_pct d}.
        0 \<le> x \<and> x < 2 ^ 64) \<and>
     length (g_name d) < field_limit \<and> g_name d \<noteq> [] \<and> (\<forall>c \<in> set (g_name d). plain_char c) \<and>
     \<not> py_isspace (hd (g_name d)) \<and> \<not> py_isspace (last (g_name d))"

lemma parse_rows_nvidia:
  assumes "\<forall>d \<in> set ds. plain_device d"
  shows "parse_rows (map nvidia_fields ds) = Inr ds"
  using assms
proof (induction ds)
  case Nil
  then show ?case by simp
next
  case (Cons d ds)
  then have "py_strip (g_name d) = g_name d" "g_name d \<noteq> []"
    by (auto simp: plain_device_def intro: py_strip_id)
  moreover have "nat x < 2 ^ 64" if "x < 2 ^ 64" for x :: int
    using that by (simp add: nat_less_iff)
  ultimately show ?case using Cons
    by (simp add: nvidia_fields_def parse_int_str_nat plain_device_def)
qed

lemma nvidia_fields_plain:
  assumes "plain_device d"
  shows "nvidia_fields d \<noteq> [] \<and> (\<forall>f \<in> set (nvidia_fields d). field_ok f)"
proof -
  have sp: "plain_char (CHR '' '')" by (simp add: plain_char_def is_crnl_def)
  have num: "field_ok (str_nat (nat x))" "field_ok ('' '' @ str_nat (nat x))" if "x < 2 ^ 64" for x :: int
  proof -
    have "nat x < 2 ^ 64" using that by (simp add: nat_less_iff)
    then have "length (str_nat (nat x)) \<le> 20" by (rule length_str_nat_64)
    then show "field_ok (str_nat (nat x))" "field_ok ('' '' @ str_nat (nat x))"
      by (auto simp: field_ok_def field_limit_def sp dest: str_nat_digits digit_chars)
  qed
  have "field_ok ('' '' @ g_name d)" using assms by (simp add: field_ok_def plain_device_def sp)
  with num assms show ?thesis by (simp add: nvidia_fields_def plain_device_def)
qed

lemma parse_nvidia_csv:
  assumes "\<forall>d \<in> set ds. plain_device d"
  shows "parse_nvidia_smi (nvidia_csv ds) = Inr ds"
proof -
  have "csv_reader_rows (nvidia_csv ds) = Inr (map nvidia_fields ds)"
    unfolding nvidia_csv_def
    using csv_rows_plain [of "map nvidia_fields ds"] nvidia_fields_plain assms
    by (auto simp: comp_def)
  then show ?thesis by (simp add: parse_nvidia_smi_def parse_rows_nvidia [OF assms])
qed

lemma mean_bounds:
  fixes xs :: "int list"
  assumes "xs \<noteq> []" "\<forall>x \<in> set xs. a \<le> x \<and> x \<le> b"
  shows "of_int a \<le> (of_int (sum_list xs) / of_nat (length xs) :: rat)"
    and "(of_int (sum_list xs) / of_nat (length xs) :: rat) \<le> of_int b"
proof -
  have "int (length xs) * a \<le> sum_list xs \<and> sum_list xs \<le> int (length xs) * b"
    using assms(2) by (induction xs) (auto simp: algebra_simps)
  then have "(of_int (int (length xs) * a) :: rat) \<le> of_int (sum_list xs)"
    "(of_int (sum_list xs) :: rat) \<le> of_int (int (length xs) * b)" by (simp_all only: of_int_le_iff)
  with assms(1) show "of_int a \<le> (of_int (sum_list xs) / of_nat (length xs) :: rat)"
    "(of_int (sum_list xs) / of_nat (length xs) :: rat) \<le> of_int b"
    by (simp_all add: field_simps)
qed

text \<open>Exceptions come only from a character outside ASCII, a carriage return or an oversized
  field.\<close>

definition safe_char :: "char \<Rightarrow> bool" where
  "safe_char c \<longleftrightarrow> (of_char c :: nat) < 128 \<and> c \<noteq> CHR 0x0D"

definition safe_text :: "string \<Rightarrow> bool" where
  "safe_text s \<longleftrightarrow> (\<forall>c \<in> set s. safe_char c)"

definition safe_reader :: "nat \<Rightarrow> csv_reader \<Rightarrow> bool" where
  "safe_reader n r \<longleftrightarrow> cs_state r \<noteq> EatCrnl \<and>
     (\<forall>f \<in> set (cs_field r # cs_fields r). safe_text f \<and> length f \<le> n)"

lemma safe_reader_mono: "safe_reader m r \<Longrightarrow> m \<le> n \<Longrightarrow> safe_reader n r"
  by (auto simp: safe_reader_def)

lemma csv_char_safe:
  assumes "safe_reader n r" "n < field_limit" "safe_char c" "c \<noteq> newline"
  shows "\<exists>r1. csv_char (Some c) r = Inr r1 \<and> safe_reader (Suc n) r1"
proof -
  have "\<not> is_crnl c" using assms(3,4) by (simp add: is_crnl_def safe_char_def)
  moreover have "safe_char (CHR 0x22)" by (simp add: safe_char_def)
  moreover have "length (cs_field r) \<le> n" "\<not> field_limit \<le> length (cs_field r)"
    using assms(1,2) by (simp_all add: safe_reader_def)
  moreover have "\<forall>f \<in> set (cs_fields r). safe_text f \<and> length f \<le> Suc n"
    using assms(1) by (auto simp: safe_reader_def)
  ultimately show ?thesis using assms(1,3)
    by (cases "cs_state r") (simp_all add: csv_defs safe_reader_def safe_text_def)
qed

lemma csv_chars_safe:
  assumes "safe_reader n r" "n + length s \<le> field_limit" "safe_text s" "newline \<notin> set s"
  shows "\<exists>r1. csv_chars (map Some s) r = Inr r1 \<and> safe_reader (n + length s) r1"
  using assms
proof (induction s arbitrary: n r)
  case Nil
  then show ?case by simp
next
  case (Cons c s)
  with csv_char_safe [of n r c] obtain r1 where
    "csv_char (Some c) r = Inr r1" "safe_reader (Suc n) r1"
    by (auto simp: safe_text_def)
  with Cons.IH [of "Suc n" r1] Cons.prems show ?case by (simp add: safe_text_def)
qed

lemma csv_eol_safe:
  assumes "safe_reader n r" "n < field_limit" "t = [] \<or> t = [Some newline]"
  shows "\<exists>r1. csv_chars (t @ [None]) r = Inr r1 \<and> safe_reader (n + length t) r1"
proof -
  have "safe_char newline" by (simp add: safe_char_def)
  moreover have "length (cs_field r) \<le> n" "\<not> field_limit \<le> length (cs_field r)"
    using assms(1,2) by (simp_all add: safe_reader_def)
  moreover have "\<forall>f \<in> set (cs_fields r). safe_text f \<and> length f \<le> Suc n"
    using assms(1) by (auto simp: safe_reader_def)
  ultimately show ?thesis using assms(1,3)
    by (cases "cs_state r") (auto simp: csv_defs is_crnl_def safe_reader_def safe_text_def)
qed

lemma csv_line_safe:
  assumes "safe_reader n r" "n + length l < field_limit" "safe_text s" "newline \<notin> set s"
    and "l = s \<or> l = s @ [newline]"
  shows "\<exists>r1. csv_chars (map Some l @ [None]) r = Inr r1 \<and> safe_reader (n + length l) r1"
proof -
  have le: "n + length s < field_limit" using assms(2,5) by auto
  then obtain r1 where r1: "csv_chars (map Some s) r = Inr r1" "safe_reader (n + length s) r1"
    using csv_chars_safe [OF assms(1) _ assms(3,4)] by auto
  obtain t where t: "t = [] \<or> t = [Some newline]" "map Some l = map Some s @ t" using assms(5) by auto
  from t(2) have "length l = length s + length t" by (metis length_append length_map)
  with csv_eol_safe [OF r1(2) le t(1)] r1(1) t(2) show ?thesis by (simp add: csv_chars_append add.assoc)
qed

lemma split_lines_length: "(\<Sum>l\<leftarrow>split_lines t acc. length l) = length acc + length t"
  by (induction t acc rule: split_lines.induct) auto

lemma split_lines_shape:
  "newline \<notin> set acc \<Longrightarrow> l \<in> set (split_lines t acc) \<Longrightarrow>
   \<exists>s. newline \<notin> set s \<and> set s \<subseteq> set acc \<union> set t \<and> (l = s \<or> l = s @ [newline])"
proof (induction t acc rule: split_lines.induct)
  case (1 acc)
  then show ?case by (auto split: if_splits)
next
  case (2 c cs acc)
  show ?case
  proof (cases "c = newline")
    case True
    with 2 have "l = acc @ [newline] \<or> l \<in> set (split_lines cs [])" by simp
    then show ?thesis
    proof
      assume "l = acc @ [newline]"
      with "2.prems"(1) show ?thesis by blast
    next
      assume "l \<in> set (split_lines cs [])"
      with "2.IH"(1) [OF True] obtain s where "newline \<notin> set s" "set s \<subseteq> set [] \<union> set cs"
        "l = s \<or> l = s @ [newline]" by auto
      then show ?thesis by (intro exI [of _ s]) auto
    qed
  next
    case False
    with "2.prems" have "l \<in> set (split_lines cs (acc @ [c]))" "newline \<notin> set (acc @ [c])" by simp_all
    with "2.IH"(2) [OF False] obtain s where "newline \<notin> set s" "set s \<subseteq> set (acc @ [c]) \<union> set cs"
      "l = s \<or> l = s @ [newline]" by blast
    then show ?thesis by (intro exI [of _ s]) auto
  qed
qed

lemma csv_rows_safe:
  assumes "\<forall>l \<in> set ls. \<exists>s. newline \<notin> set s \<and> safe_text s \<and> (l = s \<or> l = s @ [newline])"
    and "safe_reader n r" "n + (\<Sum>l\<leftarrow>ls. length l) \<le> m" "m < field_limit"
  shows "\<exists>rows. csv_rows ls r = Inr rows \<and>
    (\<forall>row \<in> set rows. \<forall>f \<in> set row. safe_text f \<and> length f \<le> m)"
  using assms
proof (induction ls arbitrary: n r)
  case Nil
  then show ?case by (auto simp: csv_save_def safe_reader_def)
next
  case (Cons l ls)
  then obtain s where "newline \<notin> set s" "safe_text s" "l = s \<or> l = s @ [newline]" by auto
  moreover have "n + length l < field_limit" using Cons.prems(3,4) by simp
  ultimately obtain r1 where
    r1: "csv_chars (map Some l @ [None]) r = Inr r1" "safe_reader (n + length l) r1"
    using csv_line_safe [OF Cons.prems(2)] by blast
  have reset: "safe_reader (n + length l) csv_reset"
    by (simp add: safe_reader_def csv_reset_def safe_text_def)
  have ls: "\<forall>l \<in> set ls. \<exists>s. newline \<notin> set s \<and> safe_text s \<and> (l = s \<or> l = s @ [newline])"
    using Cons.prems(1) by simp
  have m: "n + length l + (\<Sum>l\<leftarrow>ls. length l) \<le> m" using Cons.prems(3) by simp
  from Cons.IH [OF ls reset m Cons.prems(4)] obtain rows where
    "csv_rows ls csv_reset = Inr rows"
    "\<forall>row \<in> set rows. \<forall>f \<in> set row. safe_text f \<and> length f \<le> m" by blast
  moreover from Cons.IH [OF ls r1(2) m Cons.prems(4)] obtain rows' where
    "csv_rows ls r1 = Inr rows'"
    "\<forall>row \<in> set rows'. \<forall>f \<in> set row. safe_text f \<and> length f \<le> m" by blast
  moreover have "\<forall>f \<in> set (cs_fields r1). safe_text f \<and> length f \<le> m"
    using r1(2) m by (auto simp: safe_reader_def)
  ultimately show ?case using r1(1) by auto
qed

definition field_safe :: "string \<Rightarrow> bool" where
  "field_safe f \<longleftrightarrow> safe_text f \<and> length f \<le> int_digits_limit"

lemma set_py_strip: "set (py_strip s) \<subseteq> set s"
proof
  fix x assume "x \<in> set (py_strip s)"
  then have "x \<in> set (dropWhile py_isspace (rev (dropWhile py_isspace s)))"
    by (simp add: py_strip_def py_lstrip_def)
  then have "x \<in> set (rev (dropWhile py_isspace s))" by (rule set_dropWhileD)
  then have "x \<in> set (dropWhile py_isspace s)" by simp
  then show "x \<in> set s" by (rule set_dropWhileD)
qed

lemma field_safe_strip: "field_safe f \<Longrightarrow> field_safe (py_strip f)"
proof -
  assume f: "field_safe f"
  have "length (py_strip f) \<le> length f"
    unfolding py_strip_def py_lstrip_def
    by (metis (no_types, lifting) length_dropWhile_le length_rev order_trans)
  with f set_py_strip [of f] show ?thesis by (auto simp: field_safe_def safe_text_def)
qed

lemma parse_int_safe: "field_safe s \<Longrightarrow> \<exists>n. parse_int s = Inr n"
proof -
  assume s: "field_safe s"
  have "is_ascii_digit c" if "c \<in> set s" "py_isdigit c" for c
  proof -
    have "safe_char c" using s that(1) by (simp add: field_safe_def safe_text_def)
    moreover have "\<not> safe_char (CHR 0xB2)" "\<not> safe_char (CHR 0xB3)" "\<not> safe_char (CHR 0xB9)"
      by (simp_all add: safe_char_def)
    ultimately show ?thesis using that(2) unfolding py_isdigit_def by (metis empty_iff list.set set_ConsD)
  qed
  then have "list_all is_ascii_digit (filter py_isdigit s)" by (simp add: list_all_iff)
  moreover have "\<not> int_digits_limit < length (filter py_isdigit s)"
    using s by (metis field_safe_def length_filter_le not_less order_trans)
  ultimately show ?thesis by (simp add: parse_int_def Let_def)
qed

lemma parse_device_safe:
  assumes "length fs = 5" "\<forall>f \<in> set fs. field_safe f"
  shows "\<exists>d. parse_device fs = Inr d"
proof -
  from assms(1) obtain i n u t p where fs: "fs = [i, n, u, t, p]"
    by (auto simp: length_Suc_conv eval_nat_numeral)
  with assms(2) parse_int_safe obtain a b c d where
    "parse_int i = Inr a" "parse_int u = Inr b" "parse_int t = Inr c" "parse_int p = Inr d" by force
  with fs show ?thesis by simp
qed

lemma parse_rows_safe:
  "\<forall>row \<in> set rows. \<forall>f \<in> set row. field_safe f \<Longrightarrow> \<exists>ds. parse_rows rows = Inr ds"
proof (induction rows)
  case Nil
  then show ?case by simp
next
  case (Cons row rows)
  then obtain ds where ds: "parse_rows rows = Inr ds" by auto
  have "\<forall>f \<in> set (map py_strip (take 5 row)). field_safe f"
    using Cons.prems field_safe_strip in_set_takeD [of _ 5 row] by auto
  with parse_device_safe [of "map py_strip (take 5 row)"]
  have "\<not> length row < 5 \<Longrightarrow> \<exists>d. parse_device (map py_strip (take 5 row)) = Inr d" by simp
  with ds show ?case by auto
qed

section \<open>Properties\<close>

text \<open>
  C31: Round trip with \<open>nvidia-smi\<close>. For any list of GPUs with readings in 64 bits and plain
  names (no comma, quote or line break, no space at either end), parsing the rows the tool prints
  gives back exactly those GPUs in order.
\<close>

theorem parse_nvidia_smi_roundtrip:
  assumes "\<forall>d \<in> set ds. plain_device d"
  shows "parse_nvidia_smi (nvidia_csv ds) = Inr ds"
  using assms by (rule parse_nvidia_csv)

definition wit_gpus :: "gpu_device list" where
  "wit_gpus =
     [\<lparr>g_index = 0, g_name = ''RTX 4090'', g_memory_used_mb = 1200, g_memory_total_mb = 24564,
       g_utilization_pct = 30\<rparr>,
      \<lparr>g_index = 1, g_name = ''A100'', g_memory_used_mb = 0, g_memory_total_mb = 40960,
       g_utilization_pct = 33\<rparr>]"

lemma wit_gpus_plain: "\<forall>d \<in> set wit_gpus. plain_device d"
  by (simp add: wit_gpus_def plain_device_def field_limit_def plain_char_def is_crnl_def py_isspace_def)

theorem parse_nvidia_smi_roundtrip_witness:
  "length wit_gpus = 2 \<and> parse_nvidia_smi (nvidia_csv wit_gpus) = Inr wit_gpus"
  using parse_nvidia_smi_roundtrip [OF wit_gpus_plain] by (simp add: wit_gpus_def)



text \<open>
  The aggregates. For rows as \<open>nvidia-smi\<close> prints them, the snapshot counts the GPUs, adds
  up their memory, and its utilization, a half-even rounded mean, lies between the least and the
  greatest utilization of a GPU.
\<close>

lemma sampler_aggregates:
  assumes "\<forall>d \<in> set ds. plain_device d" and "ds \<noteq> []"
    and "\<forall>d \<in> set ds. lo \<le> g_utilization_pct d \<and> g_utilization_pct d \<le> hi"
  shows "\<exists>s. sampler_snapshot True found (RunCompleted 0 (nvidia_csv ds) err) = Inr s \<and>
    gs_gpu_count s = int (length ds) \<and> gs_gpus s = ds \<and>
    gs_memory_used_mb s = (\<Sum>d\<leftarrow>ds. g_memory_used_mb d) \<and>
    gs_memory_total_mb s = (\<Sum>d\<leftarrow>ds. g_memory_total_mb d) \<and>
    lo \<le> gs_utilization_pct s \<and> gs_utilization_pct s \<le> hi"
proof -
  have "map g_utilization_pct ds \<noteq> []" using assms(2) by simp
  note m = mean_bounds [OF this, of lo hi]
  have "lo \<le> py_round (of_int (\<Sum>d\<leftarrow>ds. g_utilization_pct d) / of_nat (length ds))"
    "py_round (of_int (\<Sum>d\<leftarrow>ds. g_utilization_pct d) / of_nat (length ds)) \<le> hi"
    using m assms(3) by (auto intro: py_round_ge_of_int py_round_le_of_int)
  with assms(2) parse_nvidia_csv [OF assms(1)] show ?thesis
    by (simp add: sampler_snapshot_def)
qed

lemma sampler_aggregates_witness:
  "\<exists>s. sampler_snapshot True False (RunCompleted 0 (nvidia_csv wit_gpus) '''') = Inr s \<and>
    gs_gpu_count s = int (length wit_gpus) \<and> gs_gpus s = wit_gpus \<and>
    gs_memory_used_mb s = (\<Sum>d\<leftarrow>wit_gpus. g_memory_used_mb d) \<and>
    gs_memory_total_mb s = (\<Sum>d\<leftarrow>wit_gpus. g_memory_total_mb d) \<and>
    30 \<le> gs_utilization_pct s \<and> gs_utilization_pct s \<le> 33"
  by (rule sampler_aggregates [OF wit_gpus_plain]) (simp_all add: wit_gpus_def)

text \<open>A superscript digit passes the filter and is refused by \<open>int()\<close>.\<close>

lemma parse_int_superscript: "parse_int [CHR 0xB2] = Inl ValueError"
  by (simp add: parse_int_def int_digits_limit_def py_isdigit_def is_ascii_digit_def)

end
