(* ===== verification/Collector.thy ===== *)
theory Collector
  imports Request Latency Gpu "HOL-Library.List_Lexorder" "HOL-Library.Char_ord"
    "HOL-Library.Product_Lexorder"
begin

text \<open>
  \<open>metrics/collector.py\<close>: the counters, sample lists and histograms of the runtime, the
  operations that record events, and the two exports. A \<open>Counter\<close> is an association list in
  insertion order. \<open>fmt\<close> stands for Python's decimal text of a \<open>float\<close>; the GPU sampler's
  result is an argument of the exports.
\<close>

section \<open>Counter\<close>

type_synonym 'k counter = "('k \<times> nat) list"

fun counter_incr :: "'k \<Rightarrow> 'k counter \<Rightarrow> 'k counter" where
  "counter_incr k [] = [(k, 1)]"
| "counter_incr k ((j, c) # xs) = (if j = k then (j, c + 1) # xs else (j, c) # counter_incr k xs)"

definition counter_of :: "'k list \<Rightarrow> 'k counter" where
  "counter_of xs = foldl (\<lambda>c k. counter_incr k c) [] xs"

fun counter_get :: "'k \<Rightarrow> 'k counter \<Rightarrow> nat" where
  "counter_get k [] = 0"
| "counter_get k ((j, c) # xs) = (if j = k then c else counter_get k xs)"

definition counter_total :: "'k counter \<Rightarrow> nat" where
  "counter_total c = (\<Sum>x\<leftarrow>c. snd x)"

lemma counter_total_incr [simp]: "counter_total (counter_incr k c) = counter_total c + 1"
  by (induction k c rule: counter_incr.induct) (simp_all add: counter_total_def)

lemma counter_get_incr [simp]:
  "counter_get j (counter_incr k c) = (if j = k then counter_get j c + 1 else counter_get j c)"
  by (induction k c rule: counter_incr.induct) auto

lemma counter_keys_incr: "set (map fst (counter_incr k c)) = insert k (set (map fst c))"
  by (induction k c rule: counter_incr.induct) auto

lemma counter_distinct_incr: "distinct (map fst c) \<Longrightarrow> distinct (map fst (counter_incr k c))"
proof (induction k c rule: counter_incr.induct)
  case (1 k)
  show ?case by simp
next
  case (2 k j c xs)
  then show ?case using counter_keys_incr [of k xs] by auto
qed

lemma counter_get_mem: "distinct (map fst c) \<Longrightarrow> (k, n) \<in> set c \<Longrightarrow> counter_get k c = n"
  by (induction c) (auto simp: rev_image_eqI)

lemma counter_of_append: "counter_of (xs @ [k]) = counter_incr k (counter_of xs)"
  by (simp add: counter_of_def)

lemma counter_of_Nil [simp]: "counter_of [] = []"
  by (simp add: counter_of_def)

lemma counter_total_of: "counter_total (counter_of xs) = length xs"
  by (induction xs rule: rev_induct) (simp_all add: counter_of_append counter_total_def [of "[]"])

lemma counter_get_of: "counter_get k (counter_of xs) = count_list xs k"
  by (induction xs rule: rev_induct) (auto simp: counter_of_append)

lemma counter_distinct_of: "distinct (map fst (counter_of xs))"
  by (induction xs rule: rev_induct) (simp_all add: counter_of_append counter_distinct_incr)

lemma counter_keys_of: "set (map fst (counter_of xs)) = set xs"
proof (induction xs rule: rev_induct)
  case Nil
  show ?case by simp
next
  case (snoc x xs)
  then show ?case using counter_keys_incr [of x "counter_of xs"] by (simp add: counter_of_append)
qed

section \<open>The collector\<close>

record metrics_collector =
  request_count :: nat
  completed_count :: nat
  failed_count :: nat
  rejected_count :: nat
  rejections_by_reason :: "string counter"
  rejections_by_priority :: "string counter"
  rejections_by_reason_priority :: "(string \<times> string) counter"
  active_requests :: int
  generated_tokens_total :: nat
  batch_count :: nat
  batch_sizes :: "nat list"
  queue_wait_times :: "seconds list"
  ttft_times :: "seconds list"
  total_latencies :: "seconds list"
  queue_wait_histogram :: histogram
  ttft_histogram :: histogram
  total_latency_histogram :: histogram

definition init_collector :: metrics_collector where
  "init_collector =
     \<lparr>request_count = 0, completed_count = 0, failed_count = 0, rejected_count = 0,
      rejections_by_reason = [], rejections_by_priority = [], rejections_by_reason_priority = [],
      active_requests = 0, generated_tokens_total = 0, batch_count = 0, batch_sizes = [],
      queue_wait_times = [], ttft_times = [], total_latencies = [],
      queue_wait_histogram = histogram_init None, ttft_histogram = histogram_init None,
      total_latency_histogram = histogram_init None\<rparr>"

text \<open>The three optional samples of \<open>_record_timing\<close>.\<close>

definition record_queue_wait :: "runtime_request \<Rightarrow> metrics_collector \<Rightarrow> metrics_collector" where
  "record_queue_wait r m =
     (case (enqueued_at r, started_at r) of
        (Some e, Some s) \<Rightarrow>
          (let wait = s - e in
           m\<lparr>queue_wait_times := queue_wait_times m @ [wait],
             queue_wait_histogram := observe wait (queue_wait_histogram m)\<rparr>)
      | _ \<Rightarrow> m)"

definition record_ttft :: "runtime_request \<Rightarrow> metrics_collector \<Rightarrow> metrics_collector" where
  "record_ttft r m =
     (case first_token_at r of
        Some f \<Rightarrow>
          (let ttft = f - created_at r in
           m\<lparr>ttft_times := ttft_times m @ [ttft], ttft_histogram := observe ttft (ttft_histogram m)\<rparr>)
      | None \<Rightarrow> m)"

definition record_total :: "runtime_request \<Rightarrow> metrics_collector \<Rightarrow> metrics_collector" where
  "record_total r m =
     (case py_or (completed_at r) (failed_at r) of
        Some end_time \<Rightarrow>
          (let tot = end_time - created_at r in
           m\<lparr>total_latencies := total_latencies m @ [tot],
             total_latency_histogram := observe tot (total_latency_histogram m)\<rparr>)
      | None \<Rightarrow> m)"

definition record_timing :: "runtime_request \<Rightarrow> metrics_collector \<Rightarrow> metrics_collector" where
  "record_timing r m = record_total r (record_ttft r (record_queue_wait r m))"

definition record_request :: "metrics_collector \<Rightarrow> metrics_collector" where
  "record_request m =
     m\<lparr>request_count := request_count m + 1, active_requests := active_requests m + 1\<rparr>"

definition record_success :: "runtime_request \<Rightarrow> nat \<Rightarrow> metrics_collector \<Rightarrow> metrics_collector" where
  "record_success r generated_tokens m =
     record_timing r
       (m\<lparr>completed_count := completed_count m + 1,
          active_requests := max 0 (active_requests m - 1),
          generated_tokens_total := generated_tokens_total m + generated_tokens\<rparr>)"

text \<open>\<open>record_failure\<close> also stamps the request it is given.\<close>

definition record_failure ::
  "seconds \<Rightarrow> runtime_request \<Rightarrow> metrics_collector \<Rightarrow> runtime_request \<times> metrics_collector"
where
  "record_failure now r m =
     (let r1 = mark_failed now r in
      (r1, record_timing r1
         (m\<lparr>failed_count := failed_count m + 1,
            active_requests := max 0 (active_requests m - 1)\<rparr>)))"

definition record_rejection :: "int \<Rightarrow> string \<Rightarrow> metrics_collector \<Rightarrow> metrics_collector" where
  "record_rejection prio reason m =
     (let normalized_reason = (if reason = [] then ''unknown'' else reason);
          priority_label = str_int prio in
      m\<lparr>rejected_count := rejected_count m + 1,
        rejections_by_reason := counter_incr normalized_reason (rejections_by_reason m),
        rejections_by_priority := counter_incr priority_label (rejections_by_priority m),
        rejections_by_reason_priority :=
          counter_incr (normalized_reason, priority_label) (rejections_by_reason_priority m)\<rparr>)"

definition record_batch :: "nat \<Rightarrow> metrics_collector \<Rightarrow> metrics_collector" where
  "record_batch batch_size m =
     m\<lparr>batch_count := batch_count m + 1, batch_sizes := batch_sizes m @ [batch_size]\<rparr>"

definition avg :: "rat list \<Rightarrow> rat" where
  "avg values = (if values = [] then 0 else sum_list values / of_nat (length values))"

definition max_default :: "nat list \<Rightarrow> nat" where
  "max_default xs = (if xs = [] then 0 else Max (set xs))"

section \<open>The JSON snapshot\<close>

record timing_snapshot =
  ts_avg_s :: rat
  ts_p50_s :: rat
  ts_p95_s :: rat
  ts_p99_s :: rat
  ts_histogram :: histogram_snapshot

definition timing_snapshot_of :: "(rat \<Rightarrow> string) \<Rightarrow> rat list \<Rightarrow> histogram \<Rightarrow> timing_snapshot" where
  "timing_snapshot_of fmt values h =
     \<lparr>ts_avg_s = avg values, ts_p50_s = percentile values 50, ts_p95_s = percentile values 95,
      ts_p99_s = percentile values 99, ts_histogram = histogram_snapshot_of fmt h\<rparr>"

record metrics_snapshot =
  ms_request_count :: nat
  ms_completed_count :: nat
  ms_failed_count :: nat
  ms_rejected_count :: nat
  ms_rejections_by_reason :: "(string \<times> nat) list"
  ms_rejections_by_priority :: "(string \<times> nat) list"
  ms_active_requests :: int
  ms_generated_tokens_total :: nat
  ms_batch_count :: nat
  ms_batch_size_avg :: rat
  ms_batch_size_max :: nat
  ms_batch_size_distribution :: "(string \<times> nat) list"
  ms_queue_wait :: timing_snapshot
  ms_ttft :: timing_snapshot
  ms_total_latency :: timing_snapshot
  ms_gpu :: gpu_snapshot

definition collector_snapshot ::
  "(rat \<Rightarrow> string) \<Rightarrow> gpu_exn + gpu_snapshot \<Rightarrow> metrics_collector \<Rightarrow> gpu_exn + metrics_snapshot"
where
  "collector_snapshot fmt gpu m =
     (case gpu of Inl e \<Rightarrow> Inl e | Inr g \<Rightarrow>
      Inr \<lparr>ms_request_count = request_count m, ms_completed_count = completed_count m,
        ms_failed_count = failed_count m, ms_rejected_count = rejected_count m,
        ms_rejections_by_reason = sort (rejections_by_reason m),
        ms_rejections_by_priority = sort (rejections_by_priority m),
        ms_active_requests = active_requests m,
        ms_generated_tokens_total = generated_tokens_total m,
        ms_batch_count = batch_count m,
        ms_batch_size_avg = avg (map of_nat (batch_sizes m)),
        ms_batch_size_max = max_default (batch_sizes m),
        ms_batch_size_distribution =
          map (\<lambda>(size, c). (str_nat size, c)) (sort (counter_of (batch_sizes m))),
        ms_queue_wait = timing_snapshot_of fmt (queue_wait_times m) (queue_wait_histogram m),
        ms_ttft = timing_snapshot_of fmt (ttft_times m) (ttft_histogram m),
        ms_total_latency = timing_snapshot_of fmt (total_latencies m) (total_latency_histogram m),
        ms_gpu = g\<rparr>)"

section \<open>The Prometheus export\<close>

definition quoted :: "string \<Rightarrow> string" where
  "quoted s = [CHR 0x22] @ s @ [CHR 0x22]"

definition py_rstrip :: "string \<Rightarrow> string" where
  "py_rstrip s = rev (py_lstrip (rev s))"

definition escape_label :: "string \<Rightarrow> string" where
  "escape_label v =
     py_replace newline [CHR 0x5C, CHR ''n'']
       (py_replace (CHR 0x22) [CHR 0x5C, CHR 0x22]
         (py_replace (CHR 0x5C) [CHR 0x5C, CHR 0x5C] v))"

definition metric_head :: "string \<Rightarrow> string \<Rightarrow> string \<Rightarrow> string list" where
  "metric_head name help_text kind =
     [''# HELP '' @ name @ '' '' @ help_text, ''# TYPE '' @ name @ '' '' @ kind]"

definition status_line :: "string \<Rightarrow> nat \<Rightarrow> string" where
  "status_line status c = ''llm_requests_total{status='' @ quoted status @ ''} '' @ str_nat c"

definition rejection_line :: "(string \<times> string) \<times> nat \<Rightarrow> string" where
  "rejection_line x =
     ''llm_rejected_requests_total{reason='' @ quoted (escape_label (fst (fst x)))
       @ '',priority='' @ quoted (escape_label (snd (fst x))) @ ''} '' @ str_nat (snd x)"

definition gpu_device_lines :: "string \<Rightarrow> gpu_device \<Rightarrow> string list" where
  "gpu_device_lines source g =
     (let index = escape_label (str_int (g_index g));
          name = escape_label (g_name g);
          labels = ''gpu='' @ quoted index @ '',name='' @ quoted name @ '',source='' @ quoted source in
      [''llm_gpu_device_memory_used_bytes{'' @ labels @ ''} '' @ str_int (g_memory_used_mb g * 1024 * 1024),
       ''llm_gpu_device_memory_total_bytes{'' @ labels @ ''} '' @ str_int (g_memory_total_mb g * 1024 * 1024),
       ''llm_gpu_device_utilization_percent{'' @ labels @ ''} '' @ str_int (g_utilization_pct g)])"

definition gpu_prometheus_lines :: "gpu_snapshot \<Rightarrow> string list" where
  "gpu_prometheus_lines g =
     (let source = escape_label (gs_source g);
          available = (if gs_status g = ''available'' then 1 else 0 :: nat);
          src = ''{source='' @ quoted source @ ''} '' in
      metric_head ''llm_gpu_available'' ''Whether GPU metrics are available from the sampler.'' ''gauge'' @
      [''llm_gpu_available'' @ src @ str_nat available, ''''] @
      metric_head ''llm_gpu_count'' ''Number of GPUs reported by the sampler.'' ''gauge'' @
      [''llm_gpu_count'' @ src @ str_int (gs_gpu_count g), ''''] @
      metric_head ''llm_gpu_memory_used_bytes'' ''Total GPU memory used.'' ''gauge'' @
      [''llm_gpu_memory_used_bytes'' @ src @ str_int (gs_memory_used_mb g * 1024 * 1024), ''''] @
      metric_head ''llm_gpu_memory_total_bytes'' ''Total GPU memory capacity.'' ''gauge'' @
      [''llm_gpu_memory_total_bytes'' @ src @ str_int (gs_memory_total_mb g * 1024 * 1024), ''''] @
      metric_head ''llm_gpu_utilization_percent'' ''Average GPU utilization percent.'' ''gauge'' @
      [''llm_gpu_utilization_percent'' @ src @ str_int (gs_utilization_pct g)] @
      (if gs_gpus g = [] then []
       else [''''] @
         metric_head ''llm_gpu_device_memory_used_bytes'' ''Per-GPU memory used.'' ''gauge'' @
         metric_head ''llm_gpu_device_memory_total_bytes'' ''Per-GPU memory capacity.'' ''gauge'' @
         metric_head ''llm_gpu_device_utilization_percent'' ''Per-GPU utilization percent.'' ''gauge'' @
         concat (map (gpu_device_lines source) (gs_gpus g))))"

definition quantile_lines :: "(rat \<Rightarrow> string) \<Rightarrow> string \<Rightarrow> rat list \<Rightarrow> string list" where
  "quantile_lines fmt name values =
     [''''] @ metric_head name ''Latency quantiles in seconds.'' ''gauge'' @
     map (\<lambda>(q, p). name @ ''{quantile='' @ quoted q @ ''} '' @ fmt (percentile values p))
       [(''0.5'', 50), (''0.95'', 95), (''0.99'', 99)]"

definition histogram_lines :: "(rat \<Rightarrow> string) \<Rightarrow> string \<Rightarrow> histogram \<Rightarrow> string \<Rightarrow> string list" where
  "histogram_lines fmt name h help_text =
     (let t = prometheus_lines fmt name help_text h in
      if t = [] then [] else ['''', py_rstrip t])"

definition simple_metric :: "string \<Rightarrow> string \<Rightarrow> string \<Rightarrow> string \<Rightarrow> string list" where
  "simple_metric name help_text kind v = [''''] @ metric_head name help_text kind @ [name @ '' '' @ v]"

definition collector_prometheus_lines ::
  "(rat \<Rightarrow> string) \<Rightarrow> nat \<Rightarrow> gpu_snapshot \<Rightarrow> metrics_collector \<Rightarrow> string list"
where
  "collector_prometheus_lines fmt queue_size g m =
     metric_head ''llm_requests_total'' ''Total requests received.'' ''counter'' @
     [status_line ''received'' (request_count m + rejected_count m),
      status_line ''accepted'' (request_count m),
      status_line ''completed'' (completed_count m),
      status_line ''failed'' (failed_count m),
      status_line ''rejected'' (rejected_count m), ''''] @
     metric_head ''llm_rejected_requests_total'' ''Total rejected requests.'' ''counter'' @
     map rejection_line (sort (rejections_by_reason_priority m)) @
     simple_metric ''llm_generated_tokens_total'' ''Total generated tokens.'' ''counter''
       (str_nat (generated_tokens_total m)) @
     simple_metric ''llm_batches_total'' ''Total batch executions.'' ''counter'' (str_nat (batch_count m)) @
     simple_metric ''llm_active_requests'' ''Currently active requests.'' ''gauge''
       (str_int (active_requests m)) @
     simple_metric ''llm_queue_size'' ''Current scheduler queue depth.'' ''gauge'' (str_nat queue_size) @
     simple_metric ''llm_batch_size_avg'' ''Average observed batch size.'' ''gauge''
       (fmt (avg (map of_nat (batch_sizes m)))) @
     simple_metric ''llm_batch_size_max'' ''Maximum observed batch size.'' ''gauge''
       (str_nat (max_default (batch_sizes m))) @
     [''''] @ gpu_prometheus_lines g @
     quantile_lines fmt ''llm_queue_wait_quantile_seconds'' (queue_wait_times m) @
     quantile_lines fmt ''llm_ttft_quantile_seconds'' (ttft_times m) @
     quantile_lines fmt ''llm_total_latency_quantile_seconds'' (total_latencies m) @
     histogram_lines fmt ''llm_queue_wait_seconds'' (queue_wait_histogram m)
       ''Queue wait time histogram.'' @
     histogram_lines fmt ''llm_ttft_seconds'' (ttft_histogram m) ''Time-to-first-token histogram.'' @
     histogram_lines fmt ''llm_total_latency_seconds'' (total_latency_histogram m)
       ''Total request latency histogram.''"

definition snapshot_prometheus ::
  "(rat \<Rightarrow> string) \<Rightarrow> nat \<Rightarrow> gpu_exn + gpu_snapshot \<Rightarrow> metrics_collector \<Rightarrow> gpu_exn + string"
where
  "snapshot_prometheus fmt queue_size gpu m =
     (case gpu of Inl e \<Rightarrow> Inl e
      | Inr g \<Rightarrow> Inr (py_join [newline] (collector_prometheus_lines fmt queue_size g m) @ [newline]))"

section \<open>Runs of recorded events\<close>

datatype metric_op =
    MRequest
  | MSuccess runtime_request nat
  | MFailure seconds runtime_request
  | MRejection int string
  | MBatch nat

fun apply_op :: "metric_op \<Rightarrow> metrics_collector \<Rightarrow> metrics_collector" where
  "apply_op MRequest m = record_request m"
| "apply_op (MSuccess r n) m = record_success r n m"
| "apply_op (MFailure t r) m = snd (record_failure t r m)"
| "apply_op (MRejection p reason) m = record_rejection p reason m"
| "apply_op (MBatch n) m = record_batch n m"

definition run_ops :: "metric_op list \<Rightarrow> metrics_collector" where
  "run_ops ops = foldl (\<lambda>m p. apply_op p m) init_collector ops"

lemma run_ops_Nil [simp]: "run_ops [] = init_collector"
  by (simp add: run_ops_def)

lemma run_ops_snoc [simp]: "run_ops (ops @ [p]) = apply_op p (run_ops ops)"
  by (simp add: run_ops_def)

text \<open>What an operation reports about itself.\<close>

fun settles :: "metric_op \<Rightarrow> bool" where
  "settles (MSuccess r n) = True"
| "settles (MFailure t r) = True"
| "settles _ = False"

fun rejection_of :: "metric_op \<Rightarrow> (string \<times> string) option" where
  "rejection_of (MRejection p reason) = Some (if reason = [] then ''unknown'' else reason, str_int p)"
| "rejection_of _ = None"

fun batch_of :: "metric_op \<Rightarrow> nat option" where
  "batch_of (MBatch n) = Some n"
| "batch_of _ = None"

definition rejections :: "metric_op list \<Rightarrow> (string \<times> string) list" where
  "rejections ops = List.map_filter rejection_of ops"

lemma rejections_simps [simp]:
  "rejections [] = []"
  "rejections (ops @ [p]) = rejections ops @ (case rejection_of p of None \<Rightarrow> [] | Some x \<Rightarrow> [x])"
  by (auto simp: rejections_def map_filter_def split: option.split)

lemma batches_snoc:
  "List.map_filter batch_of (ops @ [p])
   = List.map_filter batch_of ops @ (case batch_of p of None \<Rightarrow> [] | Some x \<Rightarrow> [x])"
  by (auto simp: map_filter_def split: option.split)

text \<open>Recording the timing of a request touches only the samples and their histograms.\<close>

lemma record_timing_frame [metric_simps]:
  "request_count (record_timing r m) = request_count m"
  "completed_count (record_timing r m) = completed_count m"
  "failed_count (record_timing r m) = failed_count m"
  "rejected_count (record_timing r m) = rejected_count m"
  "rejections_by_reason (record_timing r m) = rejections_by_reason m"
  "rejections_by_priority (record_timing r m) = rejections_by_priority m"
  "rejections_by_reason_priority (record_timing r m) = rejections_by_reason_priority m"
  "active_requests (record_timing r m) = active_requests m"
  "generated_tokens_total (record_timing r m) = generated_tokens_total m"
  "batch_count (record_timing r m) = batch_count m"
  "batch_sizes (record_timing r m) = batch_sizes m"
  by (simp_all add: record_timing_def record_total_def record_ttft_def record_queue_wait_def Let_def
      split: option.split)

lemmas record_defs = record_request_def record_success_def record_failure_def record_rejection_def
  record_batch_def Let_def

section \<open>Accounting\<close>

text \<open>The parts of the collector as functions of the recorded events.\<close>

lemma run_ops_rejections:
  "rejections_by_reason_priority (run_ops ops) = counter_of (rejections ops) \<and>
   rejections_by_reason (run_ops ops) = counter_of (map fst (rejections ops)) \<and>
   rejections_by_priority (run_ops ops) = counter_of (map snd (rejections ops)) \<and>
   rejected_count (run_ops ops) = length (rejections ops)"
proof (induction ops rule: rev_induct)
  case Nil
  show ?case by (simp add: init_collector_def)
next
  case (snoc p ops)
  then show ?case
    by (cases p) (simp_all add: record_defs metric_simps counter_of_append)
qed

lemma run_ops_batches:
  "batch_sizes (run_ops ops) = List.map_filter batch_of ops \<and>
   batch_count (run_ops ops) = length (List.map_filter batch_of ops)"
proof (induction ops rule: rev_induct)
  case Nil
  show ?case by (simp add: init_collector_def map_filter_def)
next
  case (snoc p ops)
  then show ?case by (cases p) (simp_all add: record_defs metric_simps batches_snoc)
qed

lemma run_ops_counts:
  "request_count (run_ops ops) = count_list ops MRequest \<and>
   completed_count (run_ops ops) + failed_count (run_ops ops) = length (filter settles ops)"
proof (induction ops rule: rev_induct)
  case Nil
  show ?case by (simp add: init_collector_def)
next
  case (snoc p ops)
  then show ?case by (cases p) (simp_all add: record_defs metric_simps)
qed

lemma active_step:
  "active_requests (apply_op p m) =
     (if p = MRequest then active_requests m + 1
      else if settles p then max 0 (active_requests m - 1) else active_requests m)"
  by (cases p) (simp_all add: record_defs metric_simps)

lemma active_lower:
  "0 \<le> active_requests (run_ops ops) \<and>
   int (count_list ops MRequest) - int (length (filter settles ops)) \<le> active_requests (run_ops ops)"
proof (induction ops rule: rev_induct)
  case Nil
  show ?case by (simp add: init_collector_def)
next
  case (snoc p ops)
  then show ?case by (cases p) (auto simp: active_step simp del: apply_op.simps)
qed

definition balanced :: "metric_op list \<Rightarrow> bool" where
  "balanced ops \<longleftrightarrow>
     (\<forall>n \<le> length ops. length (filter settles (take n ops)) \<le> count_list (take n ops) MRequest)"

lemma balanced_prefix: "balanced (ops @ [p]) \<Longrightarrow> balanced ops"
  unfolding balanced_def
proof (intro allI impI)
  fix n assume b: "\<forall>n \<le> length (ops @ [p]). length (filter settles (take n (ops @ [p])))
      \<le> count_list (take n (ops @ [p])) MRequest" and n: "n \<le> length ops"
  from b [rule_format, of n] n show "length (filter settles (take n ops)) \<le> count_list (take n ops) MRequest"
    by simp
qed

lemma balanced_whole: "balanced ops \<Longrightarrow> length (filter settles ops) \<le> count_list ops MRequest"
  unfolding balanced_def by (metis order_refl take_all)

lemma active_balanced:
  "balanced ops \<Longrightarrow> active_requests (run_ops ops)
     = int (count_list ops MRequest) - int (length (filter settles ops))"
proof (induction ops rule: rev_induct)
  case Nil
  show ?case by (simp add: init_collector_def)
next
  case (snoc p ops)
  from balanced_whole [OF snoc.prems] snoc.IH [OF balanced_prefix [OF snoc.prems]]
  show ?case by (cases p) (auto simp: active_step simp del: apply_op.simps)
qed

section \<open>Histograms and sample lists\<close>

definition samples_agree :: "metrics_collector \<Rightarrow> bool" where
  "samples_agree m \<longleftrightarrow>
     queue_wait_histogram m = observe_all (queue_wait_times m) (histogram_init None) \<and>
     ttft_histogram m = observe_all (ttft_times m) (histogram_init None) \<and>
     total_latency_histogram m = observe_all (total_latencies m) (histogram_init None)"

lemma observe_all_snoc: "observe_all (vs @ [v]) h = observe v (observe_all vs h)"
  by (simp add: observe_all_def)

lemma record_timing_samples: "samples_agree m \<Longrightarrow> samples_agree (record_timing r m)"
  by (simp add: record_timing_def record_total_def record_ttft_def record_queue_wait_def Let_def
      samples_agree_def observe_all_snoc split: option.split)

lemma samples_agree_frame:
  "samples_agree (m\<lparr>completed_count := c, active_requests := a, generated_tokens_total := g\<rparr>) = samples_agree m"
  "samples_agree (m\<lparr>failed_count := c, active_requests := a\<rparr>) = samples_agree m"
  by (simp_all add: samples_agree_def)

lemma apply_op_samples: "samples_agree m \<Longrightarrow> samples_agree (apply_op p m)"
proof (cases p)
  case (MSuccess r n)
  assume "samples_agree m"
  then show ?thesis using MSuccess
    by (simp add: record_success_def record_timing_samples samples_agree_frame)
next
  case (MFailure t r)
  assume "samples_agree m"
  then show ?thesis using MFailure
    by (simp add: record_failure_def Let_def record_timing_samples samples_agree_frame)
qed (simp_all add: record_defs samples_agree_def)

lemma run_ops_samples: "samples_agree (run_ops ops)"
proof (induction ops rule: rev_induct)
  case Nil
  show ?case by (simp add: samples_agree_def init_collector_def observe_all_def)
next
  case (snoc p ops)
  then show ?case by (simp add: apply_op_samples)
qed

lemma latency_buckets_sorted: "sorted latency_buckets" "latency_buckets \<noteq> []" "length latency_buckets = 12"
  by (simp_all add: latency_buckets_def)

lemma histogram_init_default: "histogram_init (Some latency_buckets) = histogram_init None"
  by (simp add: histogram_init_def latency_buckets_def)

section \<open>Labels\<close>

text \<open>A label value as a Prometheus scraper reads it, up to its closing quote.\<close>

fun scan_label :: "string \<Rightarrow> (string \<times> string) option" where
  "scan_label [] = None"
| "scan_label (c # cs) =
     (if c = CHR 0x22 then Some ([], cs)
      else if c = newline then None
      else if c = CHR 0x5C then
        (case cs of
           [] \<Rightarrow> None
         | d # ds \<Rightarrow>
             if d = CHR ''n'' then map_option (apfst ((#) newline)) (scan_label ds)
             else if d = CHR 0x5C \<or> d = CHR 0x22 then map_option (apfst ((#) d)) (scan_label ds)
             else None)
      else map_option (apfst ((#) c)) (scan_label cs))"

lemma escape_label_Nil [simp]: "escape_label [] = []"
  by (simp add: escape_label_def py_replace_def)

lemma escape_label_Cons:
  "escape_label (c # s) =
     (if c = CHR 0x5C then [CHR 0x5C, CHR 0x5C] else if c = CHR 0x22 then [CHR 0x5C, CHR 0x22]
      else if c = newline then [CHR 0x5C, CHR ''n''] else [c]) @ escape_label s"
  by (simp add: escape_label_def py_replace_def)

lemma scan_escape: "scan_label (escape_label s @ CHR 0x22 # rest) = Some (s, rest)"
  by (induction s) (simp_all add: escape_label_Cons)

section \<open>Averages\<close>

lemma sum_le_max: "sum_list xs \<le> length xs * max_default xs"
proof (induction xs)
  case Nil
  show ?case by simp
next
  case (Cons x xs)
  have "x \<le> max_default (x # xs)" "max_default xs \<le> max_default (x # xs)"
    by (auto simp: max_default_def)
  then have "x + length xs * max_default xs \<le> max_default (x # xs) + length xs * max_default (x # xs)"
    by (intro add_mono mult_le_mono2)
  with Cons show ?case by simp
qed

lemma avg_le_max: "avg (map of_nat xs) \<le> of_nat (max_default xs)"
proof (cases "xs = []")
  case True
  then show ?thesis by (simp add: avg_def)
next
  case False
  have "(of_nat (sum_list xs) :: rat) \<le> of_nat (length xs * max_default xs)"
    by (simp only: of_nat_le_iff sum_le_max)
  then have "(sum_list (map of_nat xs) :: rat) \<le> of_nat (length xs) * of_nat (max_default xs)"
    by (simp add: sum_list_of_nat)
  with False show ?thesis by (simp add: avg_def field_simps)
qed

section \<open>Properties\<close>

lemma percentile_mono: "p \<le> q \<Longrightarrow> percentile values p \<le> percentile values q"
proof (cases "values = []")
  case True
  then show ?thesis by (simp add: percentile_def)
next
  case False
  assume "p \<le> q"
  moreover have n: "0 < length values" using False by simp
  ultimately show ?thesis
    unfolding percentile_nth [OF False]
    using percentile_index_mono [of p q "length values"] percentile_index_less [OF n, of q]
    by (intro sorted_nth_mono) auto
qed


text \<open>
  C25: The active gauge. If no request is settled before it was accepted, the gauge is exactly the
  number of accepted requests that are not settled yet, although each settlement clamps it at zero.
\<close>

theorem active_gauge_exact:
  assumes "balanced ops"
  shows "active_requests (run_ops ops) =
    int (request_count (run_ops ops)) - int (completed_count (run_ops ops)) - int (failed_count (run_ops ops))"
  using active_balanced [OF assms] run_ops_counts [of ops]
  by (metis diff_diff_eq of_nat_add)

definition wit_request_at :: "seconds \<Rightarrow> runtime_request" where
  "wit_request_at t = from_chat_request ''a'' t
     \<lparr>ccr_model = ''m'', ccr_messages = [], ccr_max_tokens = 4, ccr_temperature = 1, ccr_top_p = 1,
      ccr_stream = False, ccr_priority = 0\<rparr>"

definition wit_ops :: "metric_op list" where
  "wit_ops = [MRequest, MRejection 3 ''queue_full'', MRequest, MBatch 2,
     MSuccess (wit_request_at 1) 4,
     MRejection 0 '''', MRequest]"

theorem active_gauge_exact_witness:
  "active_requests (run_ops wit_ops) = 2 \<and> request_count (run_ops wit_ops) = 3 \<and>
   completed_count (run_ops wit_ops) = 1 \<and> failed_count (run_ops wit_ops) = 0"
proof -
  have bal: "balanced wit_ops"
    by (auto simp: balanced_def wit_ops_def take_Cons' le_Suc_eq)
  have "request_count (run_ops wit_ops) = 3" "completed_count (run_ops wit_ops) = 1"
    "failed_count (run_ops wit_ops) = 0"
    by (simp_all add: run_ops_def wit_ops_def record_defs metric_simps init_collector_def)
  with active_gauge_exact [OF bal] show ?thesis by simp
qed



text \<open>
  C26: Histograms and quantiles describe the same samples. After any sequence of events, the
  cumulative count exported for a bucket of each of the three histograms is the number of samples
  in the list behind the matching quantiles that lie at or below the boundary.
\<close>

theorem collector_histograms_match:
  assumes "i < 12"
  shows "let m = run_ops ops; le = (\<lambda>vs. length (filter (\<lambda>v. v \<le> latency_buckets ! i) vs)) in
    cumulative_counts (queue_wait_histogram m) ! i = le (queue_wait_times m) \<and>
    cumulative_counts (ttft_histogram m) ! i = le (ttft_times m) \<and>
    cumulative_counts (total_latency_histogram m) ! i = le (total_latencies m) \<and>
    h_total (total_latency_histogram m) = length (total_latencies m)"
proof -
  have i: "i < length latency_buckets" using assms by (simp add: latency_buckets_sorted(3))
  have le: "cumulative_counts (observe_all vs (histogram_init None)) ! i
      = length (filter (\<lambda>v. v \<le> latency_buckets ! i) vs)" for vs
    using cumulative_count_le [OF latency_buckets_sorted(1,2) i, of vs] by (simp add: histogram_init_default)
  have "h_total (histogram_init None) = 0" by (simp add: histogram_init_def)
  with run_ops_samples [of ops] show ?thesis
    by (simp add: samples_agree_def Let_def le metric_simps)
qed

theorem collector_histograms_match_witness:
  "let m = run_ops [MRequest, MFailure 7 ((wit_request_at 5)\<lparr>enqueued_at := Some 5, started_at := Some 6\<rparr>)] in
     queue_wait_times m = [1] \<and> total_latencies m = [2] \<and>
     cumulative_counts (queue_wait_histogram m) ! 8 = length (filter (\<lambda>v. v \<le> latency_buckets ! 8) [1])"
proof -
  let ?ops = "[MRequest, MFailure 7 ((wit_request_at 5)\<lparr>enqueued_at := Some 5, started_at := Some 6\<rparr>)]"
  have "queue_wait_times (run_ops ?ops) = [1]" "total_latencies (run_ops ?ops) = [2]"
    by (simp_all add: run_ops_def record_defs record_timing_def record_total_def record_ttft_def
        record_queue_wait_def init_collector_def wit_request_at_def from_chat_request_def mark_failed_def
        py_or_def)
  with collector_histograms_match [of 8 ?ops] show ?thesis by (simp only: Let_def)
qed

text \<open>
  C36: Label escaping. A scraper that reads a label value up to its closing quote gets back the
  reason, GPU name or source it was made from, whatever quotes, backslashes and newlines it
  holds, and continues right behind the closing quote.
\<close>

theorem label_escape_roundtrip:
  "scan_label (escape_label s @ CHR 0x22 # rest) = Some (s, rest)"
  by (rule scan_escape)

end
