(* ===== verification/Json.thy ===== *)
theory Json
  imports Prelude
begin

text \<open>
  Python's \<open>json\<close> module as the runtime uses it: \<open>json.dumps\<close> in its default ASCII format
  for the event stream and the structured log, and \<open>json.loads\<close> for the lines an inference
  server sends. A float is kept as its literal. The nesting depth at which the interpreter would
  raise \<open>RecursionError\<close> is not modelled.
\<close>

section \<open>Values\<close>

datatype json =
    JNull
  | JBool bool
  | JInt int
  | JFloat string
  | JStr string
  | JArr "json list"
  | JObj "(string \<times> json) list"

text \<open>A decoding error, an integer literal past the digit limit of \<open>int()\<close>, and a code
  point beyond the alphabet of the model.\<close>

datatype json_error = JSONDecodeError | IntLiteralTooLong | OutsideAlphabet

fun dict_put :: "string \<Rightarrow> 'v \<Rightarrow> (string \<times> 'v) list \<Rightarrow> (string \<times> 'v) list" where
  "dict_put k v [] = [(k, v)]"
| "dict_put k v ((j, w) # xs) = (if j = k then (j, v) # xs else (j, w) # dict_put k v xs)"

definition dict_of :: "(string \<times> 'v) list \<Rightarrow> (string \<times> 'v) list" where
  "dict_of kvs = foldl (\<lambda>d (k, v). dict_put k v d) [] kvs"

definition dict_get :: "(string \<times> 'v) list \<Rightarrow> string \<Rightarrow> 'v \<Rightarrow> 'v" where
  "dict_get d k dflt = (case map_of d k of None \<Rightarrow> dflt | Some v \<Rightarrow> v)"

section \<open>json.dumps\<close>

definition hex_digit :: "nat \<Rightarrow> char" where
  "hex_digit n = (if n < 10 then char_of (48 + n) else char_of (87 + n))"

definition esc_char :: "char \<Rightarrow> string" where
  "esc_char c =
     (if c = CHR 0x22 then [CHR 0x5C, CHR 0x22]
      else if c = CHR 0x5C then [CHR 0x5C, CHR 0x5C]
      else if c = CHR 0x0A then [CHR 0x5C, CHR ''n'']
      else if c = CHR 0x0D then [CHR 0x5C, CHR ''r'']
      else if c = CHR 0x09 then [CHR 0x5C, CHR ''t'']
      else if c = CHR 0x0C then [CHR 0x5C, CHR ''f'']
      else if c = CHR 0x08 then [CHR 0x5C, CHR ''b'']
      else if 32 \<le> (of_char c :: nat) \<and> (of_char c :: nat) \<le> 126 then [c]
      else [CHR 0x5C, CHR ''u'', CHR ''0'', CHR ''0'', hex_digit (of_char c div 16), hex_digit (of_char c mod 16)])"

definition dump_str :: "string \<Rightarrow> string" where
  "dump_str s = [CHR 0x22] @ concat (map esc_char s) @ [CHR 0x22]"

fun dumps :: "json \<Rightarrow> string" where
  "dumps JNull = ''null''"
| "dumps (JBool b) = (if b then ''true'' else ''false'')"
| "dumps (JInt i) = str_int i"
| "dumps (JFloat t) = t"
| "dumps (JStr s) = dump_str s"
| "dumps (JArr xs) = ''['' @ py_join '', '' (map dumps xs) @ '']''"
| "dumps (JObj kvs) = ''{'' @ py_join '', '' (map (\<lambda>kv. dump_str (fst kv) @ '': '' @ dumps (snd kv)) kvs) @ ''}''"

section \<open>json.loads\<close>

definition is_json_ws :: "char \<Rightarrow> bool" where
  "is_json_ws c \<longleftrightarrow> c \<in> set [CHR '' '', CHR 0x09, CHR 0x0A, CHR 0x0D]"

definition skip_ws :: "string \<Rightarrow> string" where
  "skip_ws s = dropWhile is_json_ws s"

definition hex_val :: "char \<Rightarrow> nat option" where
  "hex_val c =
     (let n = of_char c in
      if 48 \<le> n \<and> n \<le> 57 then Some (n - 48)
      else if 97 \<le> n \<and> n \<le> 102 then Some (n - 87)
      else if 65 \<le> n \<and> n \<le> 70 then Some (n - 55)
      else None)"

definition decode_u :: "char \<Rightarrow> char \<Rightarrow> char \<Rightarrow> char \<Rightarrow> json_error + char" where
  "decode_u a b c d =
     (case (hex_val a, hex_val b, hex_val c, hex_val d) of
        (Some w, Some x, Some y, Some z) \<Rightarrow>
          (let n = ((w * 16 + x) * 16 + y) * 16 + z in
           if n < 256 then Inr (char_of n) else Inl OutsideAlphabet)
      | _ \<Rightarrow> Inl JSONDecodeError)"

definition simple_escape :: "char \<Rightarrow> char option" where
  "simple_escape c =
     map_of [(CHR 0x22, CHR 0x22), (CHR 0x5C, CHR 0x5C), (CHR ''/'', CHR ''/''), (CHR ''b'', CHR 0x08),
       (CHR ''f'', CHR 0x0C), (CHR ''n'', CHR 0x0A), (CHR ''r'', CHR 0x0D), (CHR ''t'', CHR 0x09)] c"

text \<open>The characters of a string after its opening quote; raw control characters are refused.\<close>

fun parse_string :: "string \<Rightarrow> json_error + (string \<times> string)" where
  "parse_string [] = Inl JSONDecodeError"
| "parse_string (c # cs) =
     (if c = CHR 0x22 then Inr ([], cs)
      else if c = CHR 0x5C then
        (case cs of
           [] \<Rightarrow> Inl JSONDecodeError
         | d # ds \<Rightarrow>
             if d = CHR ''u'' then
               (case ds of
                  h1 # h2 # h3 # h4 # es \<Rightarrow>
                    (case decode_u h1 h2 h3 h4 of
                       Inl e \<Rightarrow> Inl e
                     | Inr ch \<Rightarrow>
                         (case parse_string es of
                            Inl e \<Rightarrow> Inl e | Inr (t, rest) \<Rightarrow> Inr (ch # t, rest)))
                | _ \<Rightarrow> Inl JSONDecodeError)
             else
               (case simple_escape d of
                  None \<Rightarrow> Inl JSONDecodeError
                | Some ch \<Rightarrow>
                    (case parse_string ds of Inl e \<Rightarrow> Inl e | Inr (t, rest) \<Rightarrow> Inr (ch # t, rest))))
      else if (of_char c :: nat) < 32 then Inl JSONDecodeError
      else (case parse_string cs of Inl e \<Rightarrow> Inl e | Inr (t, rest) \<Rightarrow> Inr (c # t, rest)))"

text \<open>The number pattern \<open>-?(0|[1-9][0-9]*)(\.[0-9]+)?([eE][+-]?[0-9]+)?\<close>, split into its
  matched text and the rest; the last component says whether it is an integer.\<close>

definition span_digits :: "string \<Rightarrow> string \<times> string" where
  "span_digits s = (takeWhile is_ascii_digit s, dropWhile is_ascii_digit s)"

definition match_int :: "string \<Rightarrow> (string \<times> string) option" where
  "match_int s =
     (case s of
        [] \<Rightarrow> None
      | c # cs \<Rightarrow>
          if c = CHR ''0'' then Some ([c], cs)
          else if is_ascii_digit c then Some (span_digits s) else None)"

definition match_frac :: "string \<Rightarrow> string \<times> string" where
  "match_frac s =
     (case s of
        [] \<Rightarrow> ([], s)
      | c # cs \<Rightarrow>
          if c = CHR ''.'' \<and> fst (span_digits cs) \<noteq> [] then (c # fst (span_digits cs), snd (span_digits cs))
          else ([], s))"

definition match_exp :: "string \<Rightarrow> string \<times> string" where
  "match_exp s =
     (case s of
        c # d # cs \<Rightarrow>
          if c = CHR ''e'' \<or> c = CHR ''E'' then
            (if d = CHR ''+'' \<or> d = CHR ''-'' then
               (if fst (span_digits cs) \<noteq> [] then (c # d # fst (span_digits cs), snd (span_digits cs)) else ([], s))
             else if fst (span_digits (d # cs)) \<noteq> []
               then (c # fst (span_digits (d # cs)), snd (span_digits (d # cs))) else ([], s))
          else ([], s)
      | _ \<Rightarrow> ([], s))"

definition parse_number :: "string \<Rightarrow> json_error + (json \<times> string)" where
  "parse_number s =
     (let (sign, s1) = (if take 1 s = ''-'' then (''-'', drop 1 s) else ('''', s)) in
      case match_int s1 of
        None \<Rightarrow> Inl JSONDecodeError
      | Some (ip, s2) \<Rightarrow>
          (let (fp, s3) = match_frac s2; (ep, s4) = match_exp s3 in
           if fp = [] \<and> ep = [] then
             (if 4300 < length ip then Inl IntLiteralTooLong
              else Inr (JInt (if sign = [] then int (digits_val ip) else - int (digits_val ip)), s4))
           else Inr (JFloat (sign @ ip @ fp @ ep), s4)))"

definition parse_atom :: "string \<Rightarrow> json_error + (json \<times> string)" where
  "parse_atom s =
     (if take 4 s = ''null'' then Inr (JNull, drop 4 s)
      else if take 4 s = ''true'' then Inr (JBool True, drop 4 s)
      else if take 5 s = ''false'' then Inr (JBool False, drop 5 s)
      else if take 3 s = ''NaN'' then Inr (JFloat ''NaN'', drop 3 s)
      else if take 8 s = ''Infinity'' then Inr (JFloat ''Infinity'', drop 8 s)
      else if take 9 s = ''-Infinity'' then Inr (JFloat ''-Infinity'', drop 9 s)
      else parse_number s)"

lemma length_skip_ws: "length (skip_ws s) \<le> length s"
  by (simp add: skip_ws_def length_dropWhile_le)

lemma parse_string_length: "parse_string s = Inr (t, rest) \<Longrightarrow> length rest < length s"
proof (induction s arbitrary: t rest rule: parse_string.induct)
  case 1
  then show ?case by simp
next
  case (2 c cs)
  then show ?case
    by (fastforce split: if_splits list.splits sum.splits prod.splits option.splits)
qed

lemma skip_ws_shorter:
  "skip_ws s = d # ds \<Longrightarrow> length ds < length s \<and> length (skip_ws ds) < length s"
  using length_skip_ws [of s] length_skip_ws [of ds] by simp

text \<open>
  Values, the elements of an array after its bracket, and the members of an object. A value
  always consumes at least one character; the test of it makes the recursion well-founded.
\<close>

function (sequential)
  parse_value :: "string \<Rightarrow> json_error + (json \<times> string)" and
  parse_elems :: "string \<Rightarrow> json_error + (json list \<times> string)" and
  parse_members :: "string \<Rightarrow> json_error + ((string \<times> json) list \<times> string)"
where
  "parse_value [] = Inl JSONDecodeError"
| "parse_value (c # cs) =
     (if c = CHR 0x22 then
        (case parse_string cs of Inl e \<Rightarrow> Inl e | Inr (t, rest) \<Rightarrow> Inr (JStr t, rest))
      else if c = CHR ''['' then
        (if take 1 (skip_ws cs) = '']'' then Inr (JArr [], drop 1 (skip_ws cs))
         else (case parse_elems (skip_ws cs) of Inl e \<Rightarrow> Inl e | Inr (vs, rest) \<Rightarrow> Inr (JArr vs, rest)))
      else if c = CHR ''{'' then
        (if take 1 (skip_ws cs) = ''}'' then Inr (JObj [], drop 1 (skip_ws cs))
         else (case parse_members (skip_ws cs) of
             Inl e \<Rightarrow> Inl e | Inr (kvs, rest) \<Rightarrow> Inr (JObj (dict_of kvs), rest)))
      else parse_atom (c # cs))"
| "parse_elems s =
     (case parse_value s of
        Inl e \<Rightarrow> Inl e
      | Inr (v, rest) \<Rightarrow>
          if \<not> length rest < length s then Inl JSONDecodeError
          else
            (case skip_ws rest of
               [] \<Rightarrow> Inl JSONDecodeError
             | d # ds \<Rightarrow>
                 if d = CHR '']'' then Inr ([v], ds)
                 else if d = CHR '','' then
                   (case parse_elems (skip_ws ds) of
                      Inl e \<Rightarrow> Inl e | Inr (vs, r2) \<Rightarrow> Inr (v # vs, r2))
                 else Inl JSONDecodeError))"
| "parse_members s =
     (case s of
        [] \<Rightarrow> Inl JSONDecodeError
      | c # cs \<Rightarrow>
          if c \<noteq> CHR 0x22 then Inl JSONDecodeError
          else
            (case parse_string cs of
               Inl e \<Rightarrow> Inl e
             | Inr (k, r1) \<Rightarrow>
                 (case skip_ws r1 of
                    [] \<Rightarrow> Inl JSONDecodeError
                  | d # ds \<Rightarrow>
                      if d \<noteq> CHR '':'' then Inl JSONDecodeError
                      else
                        (case parse_value (skip_ws ds) of
                           Inl e \<Rightarrow> Inl e
                         | Inr (v, r2) \<Rightarrow>
                             if \<not> length r2 < length s then Inl JSONDecodeError
                             else
                               (case skip_ws r2 of
                                  [] \<Rightarrow> Inl JSONDecodeError
                                | f # fs \<Rightarrow>
                                    if f = CHR ''}'' then Inr ([(k, v)], fs)
                                    else if f = CHR '','' then
                                      (case parse_members (skip_ws fs) of
                                         Inl e \<Rightarrow> Inl e | Inr (kvs, r3) \<Rightarrow> Inr ((k, v) # kvs, r3))
                                    else Inl JSONDecodeError)))))"
  by pat_completeness auto

termination
proof (relation "measure (\<lambda>x. case x of Inl s \<Rightarrow> 2 * length s
    | Inr y \<Rightarrow> (case y of Inl s \<Rightarrow> 2 * length s + 1 | Inr s \<Rightarrow> 2 * length s + 1))", goal_cases)
  case 1
  show ?case by simp
next
  case (2 c cs)
  then show ?case using length_skip_ws [of cs] by simp
next
  case (3 c cs)
  then show ?case using length_skip_ws [of cs] by simp
next
  case (4 s)
  then show ?case by simp
qed (auto dest!: skip_ws_shorter parse_string_length)

declare parse_elems.simps [simp del] parse_members.simps [simp del]

definition loads :: "string \<Rightarrow> json_error + json" where
  "loads s =
     (case parse_value (skip_ws s) of
        Inl e \<Rightarrow> Inl e
      | Inr (v, rest) \<Rightarrow> if skip_ws rest = [] then Inr v else Inl JSONDecodeError)"

section \<open>The guard of the value parser never fires\<close>

lemma match_lengths:
  "match_int s = Some (ip, r) \<Longrightarrow> length r < length s"
  "length (snd (match_frac s)) \<le> length s" "length (snd (match_exp s)) \<le> length s"
proof -
  show "match_int s = Some (ip, r) \<Longrightarrow> length r < length s"
    by (auto simp: match_int_def span_digits_def length_dropWhile_le le_imp_less_Suc
        split: list.splits if_splits)
  show "length (snd (match_frac s)) \<le> length s"
    by (auto simp: match_frac_def span_digits_def length_dropWhile_le le_SucI split: list.splits)
  show "length (snd (match_exp s)) \<le> length s"
    by (auto simp: match_exp_def span_digits_def length_dropWhile_le le_SucI split: list.splits)
qed

lemma parse_number_length:
  assumes "parse_number s = Inr (v, rest)" shows "length rest < length s"
proof -
  define s1 where "s1 = (if take 1 s = ''-'' then drop 1 s else s)"
  have "length s1 \<le> length s" by (simp add: s1_def)
  obtain ip s2 where m: "match_int s1 = Some (ip, s2)"
    using assms by (cases "match_int s1") (auto simp: parse_number_def s1_def split: if_splits)
  have "rest = snd (match_exp (snd (match_frac s2)))"
    using assms m by (auto simp: parse_number_def s1_def case_prod_beta Let_def split: if_splits)
  then have "length rest \<le> length s2"
    using match_lengths(2) [of s2] match_lengths(3) [of "snd (match_frac s2)"] by simp
  with match_lengths(1) [OF m] \<open>length s1 \<le> length s\<close> show ?thesis by simp
qed

lemma take_nonempty: "take n s = t \<Longrightarrow> t \<noteq> [] \<Longrightarrow> length (drop n s) < length s"
  by (cases s) auto

lemma parse_atom_length: "parse_atom s = Inr (v, rest) \<Longrightarrow> length rest < length s"
  unfolding parse_atom_def
  by (auto split: if_splits dest: parse_number_length take_nonempty)

lemma parse_shrinks:
  "parse_value s = Inr (v, rest) \<Longrightarrow> length rest < length s"
  "parse_elems s = Inr (vs, rest) \<Longrightarrow> length rest < length s"
  "parse_members s = Inr (kvs, rest) \<Longrightarrow> length rest < length s"
proof (induction s and s and s arbitrary: v rest and vs rest and kvs rest
    rule: parse_value_parse_elems_parse_members.induct)
  case 1
  then show ?case by simp
next
  case (2 c cs)
  have "length (skip_ws cs) \<le> length cs" by (rule length_skip_ws)
  then show ?case using 2
    by (fastforce split: if_splits sum.splits prod.splits dest: parse_string_length parse_atom_length)
next
  case (3 s)
  obtain v r where v: "parse_value s = Inr (v, r)" "length r < length s"
    using "3.prems" by (auto simp: parse_elems.simps [of s] split: sum.splits if_splits)
  obtain d ds where d: "skip_ws r = d # ds"
    using "3.prems" v by (auto simp: parse_elems.simps [of s] split: list.splits)
  have l: "length ds < length r" "length (skip_ws ds) < length r" using skip_ws_shorter [OF d] by auto
  show ?case
  proof (cases "d = CHR '']''")
    case True
    then show ?thesis using "3.prems" v d l by (simp add: parse_elems.simps [of s])
  next
    case False
    then obtain vs2 where "parse_elems (skip_ws ds) = Inr (vs2, rest)"
      using "3.prems" v d by (auto simp: parse_elems.simps [of s] split: if_splits sum.splits)
    then have "length rest < length (skip_ws ds)"
      using "3.IH"(2) v d False "3.prems" by (auto simp: parse_elems.simps [of s] split: if_splits)
    then show ?thesis using l v(2) by simp
  qed
next
  case (4 s)
  note P = "4.prems" [unfolded parse_members.simps [of s]]
  obtain c cs where s: "s = c # cs" "c = CHR 0x22"
    using P by (auto split: list.splits if_splits)
  obtain k r1 where k: "parse_string cs = Inr (k, r1)"
    using P s by (auto split: sum.splits)
  obtain ds where d: "skip_ws r1 = CHR '':'' # ds"
    using P s k by (auto split: list.splits if_splits)
  obtain v r2 where v: "parse_value (skip_ws ds) = Inr (v, r2)" "length r2 < length s"
    using P s k d by (auto split: sum.splits if_splits)
  obtain f fs where f: "skip_ws r2 = f # fs"
    using P s k d v by (auto split: list.splits)
  have l: "length fs < length r2" "length (skip_ws fs) < length r2" using skip_ws_shorter [OF f] by auto
  show ?case
  proof (cases "f = CHR ''}''")
    case True
    then show ?thesis using P s k d v f l by simp
  next
    case False
    then obtain kvs2 where m: "f = CHR '',''" "parse_members (skip_ws fs) = Inr (kvs2, rest)"
      using P s k d v f by (auto split: if_splits sum.splits)
    have "length rest < length (skip_ws fs)"
      using "4.IH"(2) [OF s(1) _ k _ d _ v(1)] s k d v f m False by auto
    then show ?thesis using l v(2) by simp
  qed
qed

section \<open>Decoding what was encoded\<close>

fun json_ok :: "json \<Rightarrow> bool" where
  "json_ok (JInt i) = (length (str_nat (nat \<bar>i\<bar>)) \<le> 4300)"
| "json_ok (JFloat t) = False"
| "json_ok (JArr xs) = (\<forall>x \<in> set xs. json_ok x)"
| "json_ok (JObj kvs) = (distinct (map fst kvs) \<and> (\<forall>kv \<in> set kvs. json_ok (snd kv)))"
| "json_ok _ = True"

definition ends_number :: "string \<Rightarrow> bool" where
  "ends_number rest \<longleftrightarrow> (case rest of [] \<Rightarrow> True
     | c # cs \<Rightarrow> \<not> is_ascii_digit c \<and> c \<noteq> CHR ''.'' \<and> c \<noteq> CHR ''e'' \<and> c \<noteq> CHR ''E'')"

lemma hex_val_digit: "n < 16 \<Longrightarrow> hex_val (hex_digit n) = Some n"
  by (auto simp: hex_val_def hex_digit_def Let_def)

lemma of_char_256: "(of_char c :: nat) < 256"
  by (metis mod_less_divisor of_char_mod_256 zero_less_numeral)

lemma decode_esc:
  "decode_u (CHR ''0'') (CHR ''0'') (hex_digit (of_char c div 16)) (hex_digit (of_char c mod 16)) = Inr c"
proof -
  have zero: "hex_val (CHR ''0'') = Some 0" by (simp add: hex_val_def)
  have "(of_char c :: nat) div 16 < 16" "(of_char c :: nat) mod 16 < 16"
    by (simp_all add: less_mult_imp_div_less)
  note digits = hex_val_digit [OF this(1)] hex_val_digit [OF this(2)]
  have "((0 * 16 + 0) * 16 + (of_char c :: nat) div 16) * 16 + of_char c mod 16 = of_char c" by simp
  then show ?thesis
    unfolding decode_u_def zero digits prod.case option.case Let_def by simp
qed

lemma parse_string_esc_char:
  "parse_string (esc_char c @ s) =
     (case parse_string s of Inl e \<Rightarrow> Inl e | Inr (t, rest) \<Rightarrow> Inr (c # t, rest))"
  by (auto simp: esc_char_def simple_escape_def decode_esc split: sum.split prod.split)

lemma parse_string_dump:
  "parse_string (concat (map esc_char s) @ CHR 0x22 # rest) = Inr (s, rest)"
  by (induction s) (simp_all add: parse_string_esc_char del: parse_string.simps, simp)

lemma span_str_nat:
  assumes "ends_number rest"
  shows "span_digits (str_nat n @ rest) = (str_nat n, rest)"
proof -
  have "takeWhile is_ascii_digit rest = []" "dropWhile is_ascii_digit rest = rest"
    using assms by (auto simp: ends_number_def split: list.splits)
  then show ?thesis
    using str_nat_digits [of _ n] by (simp add: span_digits_def takeWhile_append2 dropWhile_append2)
qed

lemma str_nat_zero_head: "hd (str_nat n) = CHR ''0'' \<Longrightarrow> n = 0"
proof (induction n rule: str_nat.induct)
  case (1 n)
  show ?case
  proof (cases "n < 10")
    case True
    then have "digit n = CHR ''0''" using 1(2) by (subst (asm) str_nat.simps) simp
    then have "(of_char (digit n) :: nat) = of_char (CHR ''0'')" by simp
    with True show ?thesis by (simp add: of_char_digit)
  next
    case False
    then have "hd (str_nat (n div 10)) = CHR ''0''"
      using 1(2) by (subst (asm) str_nat.simps) (simp add: hd_append)
    with 1(1) False show ?thesis by simp
  qed
qed

lemma match_int_str_nat:
  assumes "ends_number rest"
  shows "match_int (str_nat n @ rest) = Some (str_nat n, rest)"
proof (cases "str_nat n")
  case Nil
  then show ?thesis by simp
next
  case (Cons c cs)
  have c: "is_ascii_digit c" using str_nat_digits [of c n] Cons by simp
  show ?thesis
  proof (cases "c = CHR ''0''")
    case True
    then have "n = 0" using str_nat_zero_head [of n] Cons by simp
    then have "cs = []" using Cons by (simp add: str_nat.simps [of 0])
    with True Cons show ?thesis by (simp add: match_int_def)
  next
    case False
    with c Cons span_str_nat [OF assms, of n] show ?thesis by (simp add: match_int_def)
  qed
qed

lemma ends_match: "ends_number rest \<Longrightarrow> match_frac rest = ([], rest) \<and> match_exp rest = ([], rest)"
  by (auto simp: ends_number_def match_frac_def match_exp_def split: list.splits)

lemma parse_number_str_int:
  assumes "ends_number rest" and "length (str_nat (nat \<bar>i\<bar>)) \<le> 4300"
  shows "parse_number (str_int i @ rest) = Inr (JInt i, rest)"
proof (cases "i < 0")
  case True
  with assms match_int_str_nat [OF assms(1), of "nat (- i)"] ends_match [OF assms(1)]
  show ?thesis by (simp add: parse_number_def str_int_def Let_def)
next
  case False
  obtain c cs where c: "str_nat (nat i) = c # cs" "c \<noteq> CHR ''-''" "digits_val (c # cs) = nat i"
    using digits_val_str_nat [of "nat i"] str_nat_digits [of _ "nat i"] not_digit_minus by (cases "str_nat (nat i)") auto
  from False assms match_int_str_nat [OF assms(1), of "nat i"] ends_match [OF assms(1)] c
  show ?thesis by (simp add: parse_number_def str_int_def Let_def)
qed

lemma str_int_head: "\<exists>c cs. str_int i = c # cs \<and> (is_ascii_digit c \<or> c = CHR ''-'')"
  using str_nat_digits [of _ "nat i"] by (cases "str_nat (nat i)") (auto simp: str_int_def)

lemma parse_atom_str_int:
  assumes "ends_number rest" and "length (str_nat (nat \<bar>i\<bar>)) \<le> 4300"
  shows "parse_atom (str_int i @ rest) = Inr (JInt i, rest)"
proof -
  obtain c cs where c: "str_int i = c # cs" "is_ascii_digit c \<or> c = CHR ''-''"
    using str_int_head by blast
  then have "c \<noteq> CHR ''n''" "c \<noteq> CHR ''t''" "c \<noteq> CHR ''f''" "c \<noteq> CHR ''N''" "c \<noteq> CHR ''I''"
    by (auto simp: is_ascii_digit_def)
  moreover have "take 9 (str_int i @ rest) \<noteq> ''-Infinity''"
  proof (cases "i < 0")
    case True
    then obtain d ds where "str_int i = CHR ''-'' # d # ds" "is_ascii_digit d"
      using str_nat_digits [of _ "nat (- i)"] by (cases "str_nat (nat (- i))") (auto simp: str_int_def)
    then show ?thesis by (auto simp: is_ascii_digit_def)
  next
    case False
    then have "c \<noteq> CHR ''-''"
      using c str_nat_digits [of c "nat i"] not_digit_minus by (auto simp: str_int_def)
    with c show ?thesis by simp
  qed
  ultimately show ?thesis
    using parse_number_str_int [OF assms] c by (simp add: parse_atom_def)
qed

lemma dumps_head:
  assumes "json_ok j"
  shows "\<exists>c cs. dumps j = c # cs \<and> \<not> is_json_ws c \<and> c \<noteq> CHR '']'' \<and> c \<noteq> CHR ''}''"
proof (cases j)
  case (JInt i)
  then show ?thesis using str_int_head [of i] by (auto simp: is_ascii_digit_def is_json_ws_def)
next
  case (JFloat t)
  with assms show ?thesis by simp
qed (auto simp: is_json_ws_def dump_str_def)

lemma skip_ws_dumps: "json_ok j \<Longrightarrow> skip_ws (dumps j @ s) = dumps j @ s"
  using dumps_head [of j] by (auto simp: skip_ws_def)

lemma skip_ws_space: "skip_ws (CHR '' '' # s) = skip_ws s"
  by (simp add: skip_ws_def is_json_ws_def)

lemma skip_ws_keep [simp]:
  "skip_ws (CHR '','' # s) = CHR '','' # s" "skip_ws (CHR '']'' # s) = CHR '']'' # s"
  "skip_ws (CHR ''}'' # s) = CHR ''}'' # s" "skip_ws (CHR '':'' # s) = CHR '':'' # s"
  "skip_ws (CHR 0x22 # s) = CHR 0x22 # s"
  by (simp_all add: skip_ws_def is_json_ws_def)

lemma ends_number_simps [simp]:
  "ends_number []" "ends_number (CHR '','' # s)" "ends_number (CHR '']'' # s)"
  "ends_number (CHR ''}'' # s)"
  by (simp_all add: ends_number_def is_ascii_digit_def)

definition decodes :: "json \<Rightarrow> bool" where
  "decodes j \<longleftrightarrow> (\<forall>rest. ends_number rest \<longrightarrow> parse_value (dumps j @ rest) = Inr (j, rest))"

text \<open>One step of the element and member loops on a value that decodes.\<close>

lemma parse_elems_step:
  assumes "decodes j" "ends_number rest"
  shows "parse_elems (dumps j @ rest) =
     (case skip_ws rest of
        [] \<Rightarrow> Inl JSONDecodeError
      | d # ds \<Rightarrow>
          if d = CHR '']'' then Inr ([j], ds)
          else if d = CHR '','' then
            (case parse_elems (skip_ws ds) of Inl e \<Rightarrow> Inl e | Inr (vs, r2) \<Rightarrow> Inr (j # vs, r2))
          else Inl JSONDecodeError)"
proof -
  have v: "parse_value (dumps j @ rest) = Inr (j, rest)" using assms by (simp add: decodes_def)
  from parse_shrinks(1) [OF v] show ?thesis by (subst parse_elems.simps) (simp add: v)
qed

lemma parse_elems_dumps:
  assumes "xs \<noteq> []" "\<forall>x \<in> set xs. decodes x \<and> json_ok x"
  shows "parse_elems (py_join '', '' (map dumps xs) @ CHR '']'' # rest) = Inr (xs, rest)"
  using assms
proof (induction xs)
  case Nil
  then show ?case by simp
next
  case (Cons x xs)
  show ?case
  proof (cases xs)
    case Nil
    then show ?thesis using Cons.prems parse_elems_step [of x "CHR '']'' # rest"] by simp
  next
    case (Cons y ys)
    then have "parse_elems (py_join '', '' (map dumps xs) @ CHR '']'' # rest) = Inr (xs, rest)"
      using Cons.IH Cons.prems by simp
    moreover have "skip_ws (py_join '', '' (map dumps xs) @ t) = py_join '', '' (map dumps xs) @ t" for t
      using Cons Cons.prems skip_ws_dumps [of y] by (cases ys) simp_all
    ultimately show ?thesis
      using Cons Cons.prems
        parse_elems_step [of x "CHR '','' # CHR '' '' # py_join '', '' (map dumps xs) @ CHR '']'' # rest"]
      by (simp add: skip_ws_space)
  qed
qed

definition dump_member :: "string \<times> json \<Rightarrow> string" where
  "dump_member kv = dump_str (fst kv) @ '': '' @ dumps (snd kv)"

lemma parse_members_step:
  assumes "decodes (snd kv)" "json_ok (snd kv)" "ends_number rest"
  shows "parse_members (dump_member kv @ rest) =
     (case skip_ws rest of
        [] \<Rightarrow> Inl JSONDecodeError
      | f # fs \<Rightarrow>
          if f = CHR ''}'' then Inr ([kv], fs)
          else if f = CHR '','' then
            (case parse_members (skip_ws fs) of
               Inl e \<Rightarrow> Inl e | Inr (kvs, r3) \<Rightarrow> Inr (kv # kvs, r3))
          else Inl JSONDecodeError)"
proof -
  obtain k j where kv: "kv = (k, j)" by (cases kv)
  have v: "parse_value (dumps j @ rest) = Inr (j, rest)" using assms kv by (simp add: decodes_def)
  have s: "parse_string (concat (map esc_char k) @ CHR 0x22 # t) = Inr (k, t)" for t
    by (rule parse_string_dump)
  have "length rest < length (dump_member kv @ rest)"
    by (simp add: dump_member_def dump_str_def)
  then show ?thesis
    using assms(2) unfolding kv
    by (subst parse_members.simps)
      (simp add: dump_member_def dump_str_def s v skip_ws_space skip_ws_dumps)
qed

lemma parse_members_dumps:
  assumes "kvs \<noteq> []" "\<forall>kv \<in> set kvs. decodes (snd kv) \<and> json_ok (snd kv)"
  shows "parse_members (py_join '', '' (map dump_member kvs) @ CHR ''}'' # rest) = Inr (kvs, rest)"
  using assms
proof (induction kvs)
  case Nil
  then show ?case by simp
next
  case (Cons x xs)
  show ?case
  proof (cases xs)
    case Nil
    then show ?thesis using Cons.prems parse_members_step [of x "CHR ''}'' # rest"] by simp
  next
    case (Cons y ys)
    then have "parse_members (py_join '', '' (map dump_member xs) @ CHR ''}'' # rest) = Inr (xs, rest)"
      using Cons.IH Cons.prems by simp
    moreover have "skip_ws (py_join '', '' (map dump_member xs) @ t)
        = py_join '', '' (map dump_member xs) @ t" for t
      using Cons by (cases ys) (simp_all add: dump_member_def dump_str_def)
    ultimately show ?thesis
      using Cons Cons.prems
        parse_members_step [of x "CHR '','' # CHR '' '' # py_join '', '' (map dump_member xs) @ CHR ''}'' # rest"]
      by (simp add: skip_ws_space)
  qed
qed

lemma dict_put_new: "k \<notin> fst ` set d \<Longrightarrow> dict_put k v d = d @ [(k, v)]"
  by (induction k v d rule: dict_put.induct) auto

lemma dict_of_distinct: "distinct (map fst kvs) \<Longrightarrow> dict_of kvs = kvs"
proof (induction kvs rule: rev_induct)
  case Nil
  show ?case by (simp add: dict_of_def)
next
  case (snoc x xs)
  then show ?case by (cases x) (simp add: dict_of_def dict_put_new)
qed

lemma dumps_decode: "json_ok j \<Longrightarrow> decodes j"
proof (induction j)
  case (JInt i)
  obtain c cs where c: "str_int i = c # cs" "is_ascii_digit c \<or> c = CHR ''-''"
    using str_int_head by blast
  with JInt parse_atom_str_int [of _ i] show ?case
    by (auto simp: decodes_def is_ascii_digit_def)
next
  case (JStr s)
  show ?case by (simp add: decodes_def dump_str_def parse_string_dump)
next
  case (JArr xs)
  show ?case
  proof (cases "xs = []")
    case True
    then show ?thesis by (simp add: decodes_def)
  next
    case False
    have ok: "\<forall>x \<in> set xs. decodes x \<and> json_ok x" using JArr by auto
    obtain c cs where c: "py_join '', '' (map dumps xs) = c # cs" "\<not> is_json_ws c" "c \<noteq> CHR '']''"
      using False ok dumps_head [of "hd xs"] by (cases xs rule: remdups_adj.cases) auto
    have "skip_ws (c # s) = c # s" for s using c(2) by (simp add: skip_ws_def)
    with c parse_elems_dumps [OF False ok] show ?thesis by (simp add: decodes_def)
  qed
next
  case (JObj kvs)
  have ok: "\<forall>kv \<in> set kvs. decodes (snd kv) \<and> json_ok (snd kv)"
    using JObj by (fastforce simp: snds.simps)
  have d: "dumps (JObj kvs) = ''{'' @ py_join '', '' (map dump_member kvs) @ ''}''"
    by (simp add: dump_member_def [abs_def])
  show ?case
  proof (cases "kvs = []")
    case True
    then show ?thesis by (simp add: decodes_def)
  next
    case False
    obtain cs where c: "py_join '', '' (map dump_member kvs) = CHR 0x22 # cs"
      using False by (cases kvs rule: remdups_adj.cases) (simp_all add: dump_member_def dump_str_def)
    with parse_members_dumps [OF False ok] dict_of_distinct [of kvs] JObj.prems show ?thesis
      by (simp add: decodes_def d del: dumps.simps)
  qed
qed (simp_all add: decodes_def parse_atom_def)

lemma loads_dumps: "json_ok j \<Longrightarrow> loads (dumps j) = Inr j"
  using dumps_decode [of j] skip_ws_dumps [of j "[]"]
  by (auto simp: loads_def decodes_def skip_ws_def dest: spec [of _ "[]"])

text \<open>The encoder writes printable ASCII only, so an encoded value never breaks a line.\<close>

definition printable :: "char \<Rightarrow> bool" where
  "printable c \<longleftrightarrow> 32 \<le> (of_char c :: nat) \<and> (of_char c :: nat) \<le> 126"

lemma printable_digit: "is_ascii_digit c \<Longrightarrow> printable c"
  by (simp add: printable_def is_ascii_digit_def)

lemma printable_hex: "n < 16 \<Longrightarrow> printable (hex_digit n)"
  by (auto simp: printable_def hex_digit_def)

lemma printable_esc: "\<forall>d \<in> set (esc_char c). printable d"
proof -
  have "printable (hex_digit (of_char c div 16))" "printable (hex_digit (of_char c mod 16))"
    by (intro printable_hex; simp add: less_mult_imp_div_less)+
  then show ?thesis by (auto simp: esc_char_def printable_def)
qed

lemma printable_dump_str: "\<forall>d \<in> set (dump_str s). printable d"
  using printable_esc by (auto simp: dump_str_def printable_def)

lemma set_py_join: "set (py_join sep xs) \<subseteq> set sep \<union> \<Union> (set ` set xs)"
  by (induction sep xs rule: py_join.induct) auto

lemma printable_join:
  "\<forall>d \<in> set sep. printable d \<Longrightarrow> \<forall>x \<in> set xs. \<forall>d \<in> set x. printable d \<Longrightarrow>
   \<forall>d \<in> set (py_join sep xs). printable d"
  using set_py_join [of sep xs] by blast

lemma printable_comma: "\<forall>d \<in> set '', ''. printable d"
  by (simp add: printable_def)

lemma printable_dumps: "json_ok j \<Longrightarrow> \<forall>d \<in> set (dumps j). printable d"
proof (induction j)
  case (JInt i)
  have "\<forall>d \<in> set (str_nat n). printable d" for n by (auto dest: str_nat_digits printable_digit)
  then show ?case by (auto simp: str_int_def printable_def)
next
  case (JStr s)
  show ?case by (simp add: printable_dump_str)
next
  case (JArr xs)
  then have "\<forall>x \<in> set (map dumps xs). \<forall>d \<in> set x. printable d" by auto
  from printable_join [OF printable_comma this] show ?case by (auto simp: printable_def)
next
  case (JObj kvs)
  have "\<forall>d \<in> set (dump_member kv). printable d" if "kv \<in> set kvs" for kv
  proof -
    have "snd kv \<in> Basic_BNFs.snds kv" by (simp add: snds.simps)
    with JObj that have "\<forall>d \<in> set (dumps (snd kv)). printable d" by auto
    with printable_dump_str [of "fst kv"] show ?thesis by (auto simp: dump_member_def printable_def)
  qed
  then have "\<forall>x \<in> set (map dump_member kvs). \<forall>d \<in> set x. printable d" by auto
  from printable_join [OF printable_comma this] show ?case
    by (auto simp: printable_def dump_member_def [abs_def])
qed (auto simp: printable_def)

end
