(* ===== verification/Logging.thy ===== *)
theory Logging
  imports Json
begin

text \<open>
  \<open>utils/logging.py\<close>: the events of the request logger and the JSON line that the formatter
  makes of a log record. The time stamp, the level and the logger name of a record come from
  Python's \<open>logging\<close>. \<open>fmt\<close> is the decimal text of a float.
\<close>

section \<open>The request logger\<close>

datatype log_event =
    RequestReceived string string bool
  | RequestEnqueued string
  | RequestRejected string string int
  | BatchFormed nat "string list"
  | TokenGenerated string nat
  | RequestCompleted string nat rat
  | RequestFailed string string

fun log_message :: "log_event \<Rightarrow> string" where
  "log_message (RequestReceived i m s) = ''request received''"
| "log_message (RequestEnqueued i) = ''request enqueued''"
| "log_message (RequestRejected i r c) = ''request rejected''"
| "log_message (BatchFormed n is) = ''batch formed for execution''"
| "log_message (TokenGenerated i k) = ''token generated''"
| "log_message (RequestCompleted i n t) = ''request completed''"
| "log_message (RequestFailed i e) = ''request failed''"

text \<open>The \<open>extra\<close> attributes that a logger method attaches to its record.\<close>

fun log_extra :: "(rat \<Rightarrow> string) \<Rightarrow> log_event \<Rightarrow> (string \<times> json) list" where
  "log_extra fmt (RequestReceived i m s) =
     [(''request_id'', JStr i), (''event'', JStr ''request_received''), (''model'', JStr m), (''stream'', JBool s)]"
| "log_extra fmt (RequestEnqueued i) =
     [(''request_id'', JStr i), (''event'', JStr ''request_enqueued'')]"
| "log_extra fmt (RequestRejected i r c) =
     [(''request_id'', JStr i), (''event'', JStr ''request_rejected''), (''reason'', JStr r), (''status_code'', JInt c)]"
| "log_extra fmt (BatchFormed n is) =
     [(''event'', JStr ''batch_formed''), (''batch_size'', JInt (int n)), (''request_ids'', JArr (map JStr is))]"
| "log_extra fmt (TokenGenerated i k) =
     [(''request_id'', JStr i), (''event'', JStr ''token_generated''), (''token_index'', JInt (int k))]"
| "log_extra fmt (RequestCompleted i n t) =
     [(''request_id'', JStr i), (''event'', JStr ''request_completed''), (''tokens'', JInt (int n)), (''elapsed_ms'', JFloat (fmt t))]"
| "log_extra fmt (RequestFailed i e) =
     [(''request_id'', JStr i), (''event'', JStr ''request_failed''), (''error'', JStr e)]"

section \<open>The formatter\<close>

record log_record =
  lr_timestamp :: string
  lr_level :: string
  lr_name :: string
  lr_message :: string
  lr_exception :: "string option"
  lr_extra :: "(string \<times> json) list"

definition exported_keys :: "string list" where
  "exported_keys =
     [''request_id'', ''event'', ''elapsed_ms'', ''tokens'', ''batch_size'', ''reason'', ''status_code'', ''error'']"

text \<open>\<open>getattr(record, key, None)\<close> copied when it is not \<open>None\<close>.\<close>

definition copy_extra :: "(string \<times> json) list \<Rightarrow> (string \<times> json) list" where
  "copy_extra extra = concat (map (\<lambda>k.
     case map_of extra k of None \<Rightarrow> [] | Some v \<Rightarrow> if v = JNull then [] else [(k, v)]) exported_keys)"

definition log_entry :: "log_record \<Rightarrow> (string \<times> json) list" where
  "log_entry r =
     [(''timestamp'', JStr (lr_timestamp r)), (''level'', JStr (lr_level r)),
      (''logger'', JStr (lr_name r)), (''message'', JStr (lr_message r))] @
     (case lr_exception r of None \<Rightarrow> [] | Some e \<Rightarrow> [(''exception'', JStr e)]) @
     copy_extra (lr_extra r)"

definition format_record :: "log_record \<Rightarrow> string" where
  "format_record r = dumps (JObj (log_entry r))"

definition record_of :: "(rat \<Rightarrow> string) \<Rightarrow> string \<Rightarrow> log_event \<Rightarrow> log_record" where
  "record_of fmt stamp e =
     \<lparr>lr_timestamp = stamp,
      lr_level = (case e of TokenGenerated i k \<Rightarrow> ''DEBUG'' | _ \<Rightarrow> ''INFO''),
      lr_name = ''llm_runtime.request'', lr_message = log_message e, lr_exception = None,
      lr_extra = log_extra fmt e\<rparr>"

section \<open>Lemmas\<close>

lemma copy_extra_keys: "set (map fst (copy_extra x)) \<subseteq> set exported_keys"
  by (auto simp: copy_extra_def split: option.splits if_splits)

lemma distinct_concat_keys:
  "distinct ks \<Longrightarrow>
   distinct (map fst (concat (map (\<lambda>k. case f k of None \<Rightarrow> [] | Some v \<Rightarrow> if P v then [] else [(k, v)]) ks)))"
proof (induction ks)
  case Nil
  then show ?case by simp
next
  case (Cons k ks)
  have "set (map fst (concat (map (\<lambda>k. case f k of None \<Rightarrow> [] | Some v \<Rightarrow> if P v then [] else [(k, v)]) ks)))
      \<subseteq> set ks"
    by (auto split: option.splits if_splits)
  with Cons show ?case by (auto split: option.split)
qed

lemma log_entry_distinct: "distinct (map fst (log_entry r))"
proof -
  have "distinct exported_keys" by (simp add: exported_keys_def)
  then have "distinct (map fst (copy_extra (lr_extra r)))"
    unfolding copy_extra_def by (rule distinct_concat_keys)
  moreover have "set exported_keys \<inter> {''timestamp'', ''level'', ''logger'', ''message'', ''exception''} = {}"
    by (simp add: exported_keys_def)
  ultimately show ?thesis
    using copy_extra_keys [of "lr_extra r"] by (auto simp: log_entry_def split: option.split)
qed

lemma copy_extra_ok:
  assumes "\<forall>kv \<in> set x. json_ok (snd kv)" and "kv \<in> set (copy_extra x)"
  shows "json_ok (snd kv)"
proof -
  have "map_of x (fst kv) = Some (snd kv)"
    using assms(2) by (auto simp: copy_extra_def split: option.splits if_splits dest: sym)
  then show ?thesis using assms(1) by (metis map_of_SomeD snd_conv)
qed

lemma log_entry_ok:
  assumes "\<forall>kv \<in> set (lr_extra r). json_ok (snd kv)"
  shows "json_ok (JObj (log_entry r))"
proof -
  have "\<forall>kv \<in> set (log_entry r). json_ok (snd kv)"
    using copy_extra_ok [OF assms] by (auto simp: log_entry_def split: option.splits)
  with log_entry_distinct show ?thesis by simp
qed

section \<open>Properties\<close>


definition wit_record :: log_record where
  "wit_record = record_of (\<lambda>x. '''') ''now'' (RequestFailed ''a'' [CHR 0x22, newline])"


text \<open>The line of a formed batch names neither a request nor the requests of the batch, and that
  of a received request has lost its model.\<close>

lemma batch_formed_drops_ids:
  "map_of (log_entry (record_of fmt t (BatchFormed n is))) ''request_ids'' = None"
  "map_of (log_entry (record_of fmt t (BatchFormed n is))) ''request_id'' = None"
  "map_of (log_entry (record_of fmt t (RequestReceived i m s))) ''model'' = None"
  by (simp_all add: log_entry_def copy_extra_def exported_keys_def record_of_def)

end
