(* ===== verification/Worker.thy ===== *)
theory Worker
  imports Scheduler Backend Collector Logging
begin

text \<open>
  \<open>workers/manager.py\<close>: the worker that takes batches from the scheduler, runs them on the
  backend and routes every event to the response channel of its request. The worker is suspended
  whenever it waits for the next backend event, and the only thing another task does to a request
  of the batch meanwhile is to abort it (a timeout or a disconnect in \<open>api/routes.py\<close> and
  \<open>api/streaming.py\<close>); so a batch runs over an interleaving of the backend's events with
  aborts. An exception is the text of \<open>str(exc)\<close>. The clock is a sequence of readings.
\<close>

section \<open>State\<close>

record runtime_state =
  st_store :: store
  st_metrics :: metrics_collector
  st_log :: "log_event list"
  st_ticks :: nat

type_synonym clock = "nat \<Rightarrow> seconds"

definition now :: "clock \<Rightarrow> runtime_state \<Rightarrow> seconds" where
  "now ck st = ck (st_ticks st)"

definition tick :: "runtime_state \<Rightarrow> runtime_state" where
  "tick st = st\<lparr>st_ticks := st_ticks st + 1\<rparr>"

definition on_store :: "(store \<Rightarrow> store) \<Rightarrow> runtime_state \<Rightarrow> runtime_state" where
  "on_store f st = st\<lparr>st_store := f (st_store st)\<rparr>"

definition log_emit :: "log_event \<Rightarrow> runtime_state \<Rightarrow> runtime_state" where
  "log_emit e st = st\<lparr>st_log := st_log st @ [e]\<rparr>"

text \<open>\<open>metrics.record_failure\<close> on a request of the store, which it stamps.\<close>

definition fail_request :: "clock \<Rightarrow> ref \<Rightarrow> runtime_state \<Rightarrow> runtime_state" where
  "fail_request ck r st =
     (let (q, m) = record_failure (now ck st) (request (st_store st r)) (st_metrics st) in
      tick (on_store (upd_request (\<lambda>_. q) r) (st\<lparr>st_metrics := m\<rparr>)))"

text \<open>What the routes do to a request that timed out or whose client left: cancel the handle,
  then, for a stream only if the cancellation took effect, record and log the failure.\<close>

definition abort_ref :: "clock \<Rightarrow> string \<Rightarrow> ref \<Rightarrow> runtime_state \<Rightarrow> runtime_state" where
  "abort_ref ck msg r st =
     (let st1 = on_store (upd_handle (snd \<circ> cancel_handle) r) st in
      case handle (st_store st r) of
        Completion h \<Rightarrow> log_emit (RequestFailed (rid (st_store st1) r) msg) (fail_request ck r st1)
      | Streaming h \<Rightarrow>
          if fst (cancel_streaming h)
          then log_emit (RequestFailed (rid (st_store st1) r) msg) (fail_request ck r st1)
          else st1)"

section \<open>Settling one item\<close>

definition invalid_state_text :: string where
  "invalid_state_text = ''invalid state''"

definition record_done :: "ref \<Rightarrow> nat \<Rightarrow> rat \<Rightarrow> runtime_state \<Rightarrow> runtime_state" where
  "record_done r n elapsed_ms st =
     log_emit (RequestCompleted (rid (st_store st) r) n elapsed_ms)
       (st\<lparr>st_metrics := record_success (request (st_store st r)) n (st_metrics st)\<rparr>)"

definition complete_item ::
  "clock \<Rightarrow> seconds \<Rightarrow> ref \<Rightarrow> string list \<Rightarrow> runtime_state \<Rightarrow> runtime_state \<times> string option"
where
  "complete_item ck batch_start r toks st =
     (if sr_cancelled (st_store st r) then (st, None)
      else
        (let st1 = tick (on_store (upd_request (mark_completed (now ck st)) r) st);
             elapsed_ms = (now ck st1 - batch_start) * 1000;
             st2 = tick st1 in
         case handle (st_store st2 r) of
           Completion h \<Rightarrow>
             if fut h = Cancelled then (record_done r (length toks) elapsed_ms st2, None)
             else
               (case set_result \<lparr>gr_request_id = rid (st_store st2) r, gr_tokens = toks,
                     gr_finish_reason = ''stop''\<rparr> (fut h) of
                  Inl e \<Rightarrow> (st2, Some invalid_state_text)
                | Inr f \<Rightarrow>
                    (record_done r (length toks) elapsed_ms
                      (on_store (upd_handle (\<lambda>_. Completion (h\<lparr>fut := f\<rparr>)) r) st2), None))
         | Streaming h \<Rightarrow>
             if sh_cancelled h then (st2, None)
             else
               (record_done r (length toks) elapsed_ms
                 (on_store (upd_handle (\<lambda>_. Streaming (put_event (CompletedEvent ''stop'') h)) r) st2), None)))"

definition fail_item :: "clock \<Rightarrow> ref \<Rightarrow> string \<Rightarrow> runtime_state \<Rightarrow> runtime_state \<times> string option" where
  "fail_item ck r msg st =
     (if sr_cancelled (st_store st r) then (st, None)
      else
        (let st1 = fail_request ck r st;
             st2 = log_emit (RequestFailed (rid (st_store st1) r) msg) st1 in
         case handle (st_store st2 r) of
           Completion h \<Rightarrow>
             if fut h = Cancelled then (st2, None)
             else
               (case set_exception msg (fut h) of
                  Inl e \<Rightarrow> (st2, Some invalid_state_text)
                | Inr f \<Rightarrow> (on_store (upd_handle (\<lambda>_. Completion (h\<lparr>fut := f\<rparr>)) r) st2, None))
         | Streaming h \<Rightarrow>
             (on_store (upd_handle (\<lambda>_. Streaming (put_event (ErrorEvent msg) h)) r) st2, None)))"

section \<open>Executing a batch\<close>

record exec_state =
  ex_items :: "(string \<times> ref) list"
  ex_tokens :: "string \<Rightarrow> string list"
  ex_pending :: "string list"

definition discard_pending :: "string \<Rightarrow> exec_state \<Rightarrow> exec_state" where
  "discard_pending i x = x\<lparr>ex_pending := filter (\<lambda>j. j \<noteq> i) (ex_pending x)\<rparr>"

text \<open>\<open>item.request.mark_first_token()\<close> reads the clock only for the first token.\<close>

definition stamp_first_token :: "clock \<Rightarrow> ref \<Rightarrow> runtime_state \<Rightarrow> runtime_state" where
  "stamp_first_token ck r st =
     (if first_token_at (request (st_store st r)) = None
      then tick (on_store (upd_request (mark_first_token (now ck st)) r) st) else st)"

text \<open>A token of a live request: first-token stamp, token list, and the event of a stream.\<close>

definition accept_token ::
  "clock \<Rightarrow> string \<Rightarrow> ref \<Rightarrow> string \<Rightarrow> exec_state \<times> runtime_state \<Rightarrow> exec_state \<times> runtime_state"
where
  "accept_token ck i r t s =
     (let (x, st) = s;
          st1 = stamp_first_token ck r st;
          x1 = x\<lparr>ex_tokens := (ex_tokens x)(i := ex_tokens x i @ [t])\<rparr> in
      case handle (st_store st1 r) of
        Completion h \<Rightarrow> (x1, st1)
      | Streaming h \<Rightarrow>
          (x1, on_store (upd_handle (\<lambda>_. Streaming (put_event (TokenEvent t) h)) r) st1))"

definition exec_event ::
  "clock \<Rightarrow> seconds \<Rightarrow> batch_event \<Rightarrow> exec_state \<times> runtime_state
    \<Rightarrow> (exec_state \<times> runtime_state) \<times> string option"
where
  "exec_event ck batch_start e s =
     (let (x, st) = s in
      if ev_id e \<notin> set (ex_pending x) then ((x, st), None)
      else
        (case map_of (ex_items x) (ev_id e) of
           None \<Rightarrow> ((x, st), None)
         | Some r \<Rightarrow>
             if sr_cancelled (st_store st r) then ((discard_pending (ev_id e) x, st), None)
             else
               (case e of
                  BatchToken i t \<Rightarrow> (accept_token ck i r t (x, st), None)
                | BatchCompleted i \<Rightarrow>
                    (case complete_item ck batch_start r (ex_tokens x i) st of
                       (st1, Some err) \<Rightarrow> ((x, st1), Some err)
                     | (st1, None) \<Rightarrow> ((discard_pending i x, st1), None)))))"

text \<open>What reaches a running batch, in order.\<close>

datatype wevent = Ev batch_event | Abort ref string

fun exec_step ::
  "clock \<Rightarrow> seconds \<Rightarrow> wevent \<Rightarrow> exec_state \<times> runtime_state
    \<Rightarrow> (exec_state \<times> runtime_state) \<times> string option"
where
  "exec_step ck batch_start (Ev e) s = exec_event ck batch_start e s"
| "exec_step ck batch_start (Abort r msg) s = ((fst s, abort_ref ck msg r (snd s)), None)"

fun exec_trace ::
  "clock \<Rightarrow> seconds \<Rightarrow> wevent list \<Rightarrow> exec_state \<times> runtime_state
    \<Rightarrow> (exec_state \<times> runtime_state) \<times> string option"
where
  "exec_trace ck batch_start [] s = (s, None)"
| "exec_trace ck batch_start (w # ws) s =
     (case exec_step ck batch_start w s of
        (s1, Some err) \<Rightarrow> (s1, Some err)
      | (s1, None) \<Rightarrow> exec_trace ck batch_start ws s1)"

text \<open>The two loops over \<open>pending\<close>: completing what is left, and failing it.\<close>

fun each_pending ::
  "(string \<Rightarrow> ref \<Rightarrow> runtime_state \<Rightarrow> runtime_state \<times> string option)
    \<Rightarrow> (string \<times> ref) list \<Rightarrow> string list \<Rightarrow> runtime_state \<Rightarrow> runtime_state \<times> string option"
where
  "each_pending act its [] st = (st, None)"
| "each_pending act its (i # is) st =
     (case map_of its i of
        None \<Rightarrow> each_pending act its is st
      | Some r \<Rightarrow>
          if sr_cancelled (st_store st r) then each_pending act its is st
          else
            (case act i r st of
               (st1, Some err) \<Rightarrow> (st1, Some err)
             | (st1, None) \<Rightarrow> each_pending act its is st1))"

definition finish_pending ::
  "clock \<Rightarrow> seconds \<Rightarrow> exec_state \<Rightarrow> runtime_state \<Rightarrow> runtime_state \<times> string option"
where
  "finish_pending ck batch_start x =
     each_pending (\<lambda>i r. complete_item ck batch_start r (ex_tokens x i)) (ex_items x) (ex_pending x)"

definition fail_pending ::
  "clock \<Rightarrow> string \<Rightarrow> exec_state \<Rightarrow> runtime_state \<Rightarrow> runtime_state \<times> string option"
where
  "fail_pending ck msg x = each_pending (\<lambda>i r. fail_item ck r msg) (ex_items x) (ex_pending x)"

text \<open>How the event loop interleaves aborts with the events of the backend: \<open>aborts k\<close> happen
  before event \<open>k\<close>, and the last ones before the stream ends.\<close>

fun interleave :: "nat \<Rightarrow> (nat \<Rightarrow> (ref \<times> string) list) \<Rightarrow> batch_event list \<Rightarrow> wevent list" where
  "interleave k aborts [] = map (\<lambda>(r, m). Abort r m) (aborts k)"
| "interleave k aborts (e # es) =
     map (\<lambda>(r, m). Abort r m) (aborts k) @ Ev e # interleave (Suc k) aborts es"

definition active_items :: "ref list \<Rightarrow> runtime_state \<Rightarrow> ref list" where
  "active_items items st = filter (\<lambda>r. \<not> sr_cancelled (st_store st r)) items"

definition start_exec :: "(string list \<Rightarrow> string list) \<Rightarrow> ref list \<Rightarrow> runtime_state \<Rightarrow> exec_state" where
  "start_exec set_order active st =
     (let its = dict_of (map (\<lambda>r. (rid (st_store st) r, r)) active) in
      \<lparr>ex_items = its, ex_tokens = (\<lambda>_. []), ex_pending = set_order (map fst its)\<rparr>)"

text \<open>\<open>set_order\<close> is the order in which iterating a set of ids visits them.\<close>

definition execute_batch ::
  "clock \<Rightarrow> (string list \<Rightarrow> string list) \<Rightarrow> (runtime_request list \<Rightarrow> batch_event stream)
    \<Rightarrow> (nat \<Rightarrow> (ref \<times> string) list) \<Rightarrow> ref list \<Rightarrow> runtime_state \<Rightarrow> runtime_state \<times> string option"
where
  "execute_batch ck set_order gen aborts items st =
     (let active = active_items items st in
      if active = [] then (st, None)
      else
        (let x = start_exec set_order active st;
             batch_start = now ck st;
             (evs, exc) = gen (map (\<lambda>r. request (st_store st r)) active);
             ((x1, st1), err) = exec_trace ck batch_start (interleave 0 aborts evs) (x, tick st) in
         case (case err of Some m \<Rightarrow> Some m | None \<Rightarrow> exc) of
           Some m \<Rightarrow> fail_pending ck m x1 st1
         | None \<Rightarrow>
             (case finish_pending ck batch_start x1 st1 of
                (st2, None) \<Rightarrow> (st2, None)
              | (st2, Some m) \<Rightarrow> fail_pending ck m x1 st2)))"

section \<open>The contract of one request\<close>

text \<open>
  What a batch means for one request, without store, metrics, other requests or ids: its
  handle, the tokens it has so far, and whether the worker still owes it an end.
\<close>

record item =
  it_handle :: response_handle
  it_tokens :: "string list"
  it_open :: bool

datatype item_event = ItToken string | ItDone | ItAbort

definition settle_ok :: "string \<Rightarrow> string list \<Rightarrow> response_handle \<Rightarrow> response_handle" where
  "settle_ok i toks chan =
     (case chan of
        Completion h \<Rightarrow>
          Completion (h\<lparr>fut := Result \<lparr>gr_request_id = i, gr_tokens = toks, gr_finish_reason = ''stop''\<rparr>\<rparr>)
      | Streaming h \<Rightarrow> Streaming (put_event (CompletedEvent ''stop'') h))"

definition settle_error :: "string \<Rightarrow> response_handle \<Rightarrow> response_handle" where
  "settle_error msg chan =
     (case chan of
        Completion h \<Rightarrow> Completion (h\<lparr>fut := Failed msg\<rparr>)
      | Streaming h \<Rightarrow> Streaming (put_event (ErrorEvent msg) h))"

definition give_token :: "string \<Rightarrow> response_handle \<Rightarrow> response_handle" where
  "give_token t chan =
     (case chan of
        Completion h \<Rightarrow> Completion h
      | Streaming h \<Rightarrow> Streaming (put_event (TokenEvent t) h))"

fun item_step :: "string \<Rightarrow> item_event \<Rightarrow> item \<Rightarrow> item" where
  "item_step i ItAbort it = it\<lparr>it_handle := snd (cancel_handle (it_handle it))\<rparr>"
| "item_step i (ItToken t) it =
     (if \<not> it_open it then it
      else if handle_cancelled (it_handle it) then it\<lparr>it_open := False\<rparr>
      else it\<lparr>it_handle := give_token t (it_handle it), it_tokens := it_tokens it @ [t]\<rparr>)"
| "item_step i ItDone it =
     (if \<not> it_open it then it
      else if handle_cancelled (it_handle it) then it\<lparr>it_open := False\<rparr>
      else it\<lparr>it_handle := settle_ok i (it_tokens it) (it_handle it), it_open := False\<rparr>)"

definition item_end :: "string \<Rightarrow> string option \<Rightarrow> item \<Rightarrow> response_handle" where
  "item_end i exc it =
     (if \<not> it_open it \<or> handle_cancelled (it_handle it) then it_handle it
      else (case exc of
          None \<Rightarrow> settle_ok i (it_tokens it) (it_handle it)
        | Some m \<Rightarrow> settle_error m (it_handle it)))"

definition item_start :: "response_handle \<Rightarrow> item" where
  "item_start chan = \<lparr>it_handle = chan, it_tokens = [], it_open = True\<rparr>"

text \<open>The part of an event that concerns the request with id \<open>i\<close> at reference \<open>r\<close>.\<close>

fun project :: "string \<Rightarrow> ref \<Rightarrow> wevent \<Rightarrow> item_event list" where
  "project i r (Ev (BatchToken j t)) = (if j = i then [ItToken t] else [])"
| "project i r (Ev (BatchCompleted j)) = (if j = i then [ItDone] else [])"
| "project i r (Abort q m) = (if q = r then [ItAbort] else [])"

definition item_run :: "string \<Rightarrow> item_event list \<Rightarrow> item \<Rightarrow> item" where
  "item_run i es it = foldl (\<lambda>it e. item_step i e it) it es"

definition item_projected :: "string \<Rightarrow> ref \<Rightarrow> wevent list \<Rightarrow> item \<Rightarrow> item" where
  "item_projected i r ws it = item_run i (concat (map (project i r) ws)) it"

lemma item_run_simps [simp]:
  "item_run i [] it = it" "item_run i (e # es) it = item_run i es (item_step i e it)"
  "item_run i (xs @ ys) it = item_run i ys (item_run i xs it)"
  by (simp_all add: item_run_def)

text \<open>A response channel the worker may still settle: a future is pending, or was cancelled
  together with its handle.\<close>

fun settleable :: "response_handle \<Rightarrow> bool" where
  "settleable (Completion h) = (if ch_cancelled h then fut h = Cancelled else fut h = Pending)"
| "settleable (Streaming h) = True"

definition item_ok :: "item \<Rightarrow> bool" where
  "item_ok it \<longleftrightarrow> (it_open it \<longrightarrow> settleable (it_handle it))"

lemma settleable_cancel: "settleable chan \<Longrightarrow> settleable (snd (cancel_handle chan))"
  by (cases chan) (auto simp: cancel_completion_def Let_def case_prod_beta split: if_splits)

lemma settleable_token: "settleable chan \<Longrightarrow> settleable (give_token t chan)"
  by (cases chan) (auto simp: give_token_def)

lemma item_step_ok: "item_ok it \<Longrightarrow> item_ok (item_step i e it)"
  by (cases e) (auto simp: item_ok_def settleable_cancel settleable_token)

lemma item_run_ok: "item_ok it \<Longrightarrow> item_ok (item_run i es it)"
  by (induction es arbitrary: it) (auto simp: item_step_ok)

section \<open>Effects of the operations on handles and identities\<close>

lemma state_simps [simp]:
  "st_store (tick st) = st_store st" "st_store (log_emit e st) = st_store st"
  "st_store (on_store f st) = f (st_store st)"
  "st_store (record_done r n el st) = st_store st"
  by (simp_all add: tick_def log_emit_def on_store_def record_done_def)

lemma fail_request_store [simp]:
  "handle (st_store (fail_request ck r st) q) = handle (st_store st q)"
  "rid (st_store (fail_request ck r st)) q = rid (st_store st) q"
  by (simp_all add: fail_request_def record_failure_def Let_def on_store_def tick_def handle_simps
      request_simps)

lemma abort_ref_store:
  "handle (st_store (abort_ref ck m r st) q) =
     (if q = r then snd (cancel_handle (handle (st_store st r))) else handle (st_store st q))"
  "rid (st_store (abort_ref ck m r st)) q = rid (st_store st) q"
  by (auto simp: abort_ref_def Let_def handle_simps split: response_handle.split)

lemma complete_item_effect:
  assumes "settleable (handle (st_store st r))" "\<not> sr_cancelled (st_store st r)"
  shows "snd (complete_item ck bs r toks st) = None \<and>
    (\<forall>q. rid (st_store (fst (complete_item ck bs r toks st))) q = rid (st_store st) q \<and>
      handle (st_store (fst (complete_item ck bs r toks st)) q) =
        (if q = r then settle_ok (rid (st_store st) r) toks (handle (st_store st r))
         else handle (st_store st q)))"
proof (cases "handle (st_store st r)")
  case (Completion h)
  then have "\<not> ch_cancelled h" "fut h = Pending" using assms by (auto simp: sr_cancelled_def)
  with Completion assms(2) show ?thesis
    by (auto simp: complete_item_def Let_def handle_simps request_simps set_result_def settle_ok_def)
next
  case (Streaming h)
  then have "\<not> sh_cancelled h" using assms by (auto simp: sr_cancelled_def)
  with Streaming assms(2) show ?thesis
    by (auto simp: complete_item_def Let_def handle_simps request_simps settle_ok_def)
qed

lemma fail_item_effect:
  assumes "settleable (handle (st_store st r))" "\<not> sr_cancelled (st_store st r)"
  shows "snd (fail_item ck r m st) = None \<and>
    (\<forall>q. rid (st_store (fst (fail_item ck r m st))) q = rid (st_store st) q \<and>
      handle (st_store (fst (fail_item ck r m st)) q) =
        (if q = r then settle_error m (handle (st_store st r)) else handle (st_store st q)))"
proof (cases "handle (st_store st r)")
  case (Completion h)
  then have "\<not> ch_cancelled h" "fut h = Pending" using assms by (auto simp: sr_cancelled_def)
  with Completion assms(2) show ?thesis
    by (auto simp: fail_item_def Let_def handle_simps set_exception_def settle_error_def)
next
  case (Streaming h)
  with assms(2) show ?thesis
    by (auto simp: fail_item_def Let_def handle_simps settle_error_def)
qed

lemma stamp_first_token_store [simp]:
  "handle (st_store (stamp_first_token ck r st) q) = handle (st_store st q)"
  "rid (st_store (stamp_first_token ck r st)) q = rid (st_store st) q"
  by (simp_all add: stamp_first_token_def handle_simps request_simps)

lemma accept_token_effect:
  assumes "accept_token ck i r t (x, st) = (x1, st1)"
  shows "ex_items x1 = ex_items x \<and> ex_pending x1 = ex_pending x \<and>
    ex_tokens x1 = (ex_tokens x)(i := ex_tokens x i @ [t]) \<and>
    (\<forall>q. rid (st_store st1) q = rid (st_store st) q \<and>
      handle (st_store st1 q) =
        (if q = r then give_token t (handle (st_store st r)) else handle (st_store st q)))"
  using assms
  by (cases "handle (st_store st r)")
    (auto simp: accept_token_def Let_def handle_simps request_simps give_token_def)

section \<open>A batch is its requests side by side\<close>

definition sim :: "(ref \<Rightarrow> string) \<Rightarrow> (ref \<Rightarrow> item) \<Rightarrow> exec_state \<Rightarrow> runtime_state \<Rightarrow> bool" where
  "sim ident f x st \<longleftrightarrow>
     (\<forall>q. rid (st_store st) q = ident q) \<and> distinct (map fst (ex_items x)) \<and>
     (\<forall>(i, r) \<in> set (ex_items x). i = ident r \<and> handle (st_store st r) = it_handle (f r) \<and>
        ex_tokens x i = it_tokens (f r) \<and> (i \<in> set (ex_pending x) \<longleftrightarrow> it_open (f r)) \<and> item_ok (f r))"

lemma simD:
  assumes "sim ident f x st" "(i, r) \<in> set (ex_items x)"
  shows "i = ident r" "handle (st_store st r) = it_handle (f r)" "ex_tokens x i = it_tokens (f r)"
    "i \<in> set (ex_pending x) \<longleftrightarrow> it_open (f r)" "item_ok (f r)" "rid (st_store st) q = ident q"
    "map_of (ex_items x) i = Some r"
  using assms by (auto simp: sim_def)

lemma sim_unique:
  assumes "sim ident f x st" "(i, r) \<in> set (ex_items x)" "(j, q) \<in> set (ex_items x)"
  shows "i = j \<longleftrightarrow> r = q"
proof
  assume "i = j"
  with simD(7) [OF assms(1,2)] simD(7) [OF assms(1,3)] show "r = q" by simp
next
  assume "r = q"
  with simD(1) [OF assms(1,2)] simD(1) [OF assms(1,3)] show "i = j" by simp
qed

definition step_items :: "(ref \<Rightarrow> string) \<Rightarrow> wevent \<Rightarrow> (ref \<Rightarrow> item) \<Rightarrow> ref \<Rightarrow> item" where
  "step_items ident w f r = item_run (ident r) (project (ident r) r w) (f r)"

text \<open>A step that changes at most the item at \<open>r\<close> and matches the abstract step there.\<close>

lemma sim_update:
  assumes "sim ident f x st" and "(i, r) \<in> set (ex_items x)"
    and "ex_items x1 = ex_items x"
    and "\<forall>q. rid (st_store st1) q = rid (st_store st) q"
    and "\<forall>q. q \<noteq> r \<longrightarrow> handle (st_store st1 q) = handle (st_store st q)"
    and "\<forall>j. j \<noteq> i \<longrightarrow> ex_tokens x1 j = ex_tokens x j \<and>
      (j \<in> set (ex_pending x1) \<longleftrightarrow> j \<in> set (ex_pending x))"
    and "handle (st_store st1 r) = it_handle g" "ex_tokens x1 i = it_tokens g"
      "i \<in> set (ex_pending x1) \<longleftrightarrow> it_open g" "item_ok g"
  shows "sim ident (f(r := g)) x1 st1"
  unfolding sim_def
proof (intro conjI ballI allI)
  show "rid (st_store st1) q = ident q" for q using assms(1,4) by (simp add: sim_def)
  show "distinct (map fst (ex_items x1))" using assms(1,3) by (simp add: sim_def)
  fix p assume "p \<in> set (ex_items x1)"
  moreover obtain j q where "p = (j, q)" by (rule prod.exhaust)
  ultimately have p: "p = (j, q)" "(j, q) \<in> set (ex_items x)" using assms(3) by simp_all
  show "case p of (i, ra) \<Rightarrow> i = ident ra \<and> handle (st_store st1 ra) = it_handle ((f(r := g)) ra) \<and>
      ex_tokens x1 i = it_tokens ((f(r := g)) ra) \<and>
      (i \<in> set (ex_pending x1)) = it_open ((f(r := g)) ra) \<and> item_ok ((f(r := g)) ra)"
    using simD(1-5) [OF assms(1) p(2)] sim_unique [OF assms(1,2) p(2)] assms(5-10) p(1) by auto
qed

lemma step_items_Ev:
  "step_items ident (Ev e) f r = (if ev_id e = ident r
     then item_step (ident r) (case e of BatchToken j t \<Rightarrow> ItToken t | BatchCompleted j \<Rightarrow> ItDone) (f r)
     else f r)"
  by (cases e) (auto simp: step_items_def)

lemma sim_cong:
  assumes "sim ident f x st" "\<forall>(i, r) \<in> set (ex_items x). f r = g r"
  shows "sim ident g x st"
  using assms unfolding sim_def by fastforce

lemma exec_step_sim:
  assumes sim: "sim ident f x st" and run: "exec_step ck bs w (x, st) = (s1, err)"
  shows "err = None \<and> ex_items (fst s1) = ex_items x \<and>
    sim ident (step_items ident w f) (fst s1) (snd s1)"
proof (cases w)
  case (Abort r m)
  have s1: "s1 = (x, abort_ref ck m r st)" "err = None" using run Abort by auto
  have "sim ident (step_items ident w f) x (abort_ref ck m r st)"
    using sim unfolding sim_def Abort
    by (auto simp: abort_ref_store step_items_def item_ok_def settleable_cancel)
  with s1 show ?thesis by simp
next
  case (Ev e)
  let ?i = "ev_id e"
  show ?thesis
  proof (cases "?i \<in> set (ex_pending x) \<and> map_of (ex_items x) ?i \<noteq> None")
    case False
    then have s1: "s1 = (x, st)" "err = None"
      using run Ev by (auto simp: exec_event_def split: option.splits if_splits)
    have "f r = step_items ident (Ev e) f r" if "(j, r) \<in> set (ex_items x)" for j r
    proof (cases "?i = ident r")
      case True
      with False simD [OF sim that] have "\<not> it_open (f r)" by auto
      then show ?thesis by (cases e) (simp_all add: step_items_Ev)
    qed (simp add: step_items_Ev)
    with s1 Ev sim show ?thesis by (auto intro: sim_cong)
  next
    case True
    then obtain r where r: "map_of (ex_items x) ?i = Some r" by auto
    then have mem: "(?i, r) \<in> set (ex_items x)" by (rule map_of_SomeD)
    note d = simD [OF sim mem]
    let ?g = "step_items ident (Ev e) f r"
    have g_ok: "item_ok ?g" using d(5) by (simp add: step_items_def item_run_ok)
    have open_r: "it_open (f r)" using True d(4) by simp
    have upd: "sim ident (step_items ident (Ev e) f) x1 st1"
      if "sim ident (f(r := ?g)) x1 st1" "ex_items x1 = ex_items x" for x1 st1
    proof (rule sim_cong [OF that(1)], clarify)
      fix j q assume q: "(j, q) \<in> set (ex_items x1)"
      then have "(j, q) \<in> set (ex_items x)" using that(2) by simp
      then have "q \<noteq> r \<Longrightarrow> ?i \<noteq> ident q"
        using simD(1) [OF sim, of j q] sim_unique [OF sim mem, of j q] by auto
      then show "(f(r := ?g)) q = step_items ident (Ev e) f q" by (auto simp: step_items_Ev)
    qed
    show ?thesis
    proof (cases "sr_cancelled (st_store st r)")
      case c: True
      then have s1: "s1 = (discard_pending ?i x, st)" "err = None"
        using run Ev True r by (auto simp: exec_event_def)
      have "handle_cancelled (it_handle (f r))" using c d(2) by (simp add: sr_cancelled_def)
      then have "?g = (f r)\<lparr>it_open := False\<rparr>"
        using open_r d(1) by (cases e) (simp_all add: step_items_Ev)
      then have "sim ident (f(r := ?g)) (discard_pending ?i x) st"
        using d g_ok by (intro sim_update [OF sim mem]) (auto simp: discard_pending_def)
      with s1 upd Ev show ?thesis by (simp add: discard_pending_def)
    next
      case c: False
      then have live: "\<not> handle_cancelled (it_handle (f r))" using d(2) by (simp add: sr_cancelled_def)
      show ?thesis
      proof (cases e)
        case (BatchToken i t)
        obtain x1 st1 where a: "accept_token ck i r t (x, st) = (x1, st1)" by (cases "accept_token ck i r t (x, st)")
        then have s1: "s1 = (x1, st1)" "err = None"
          using run Ev True r c BatchToken by (auto simp: exec_event_def)
        have "?g = (f r)\<lparr>it_handle := give_token t (it_handle (f r)), it_tokens := it_tokens (f r) @ [t]\<rparr>"
          using open_r live d(1) BatchToken by (simp add: step_items_Ev)
        then have "sim ident (f(r := ?g)) x1 st1"
          using d g_ok accept_token_effect [OF a] open_r BatchToken
          by (intro sim_update [OF sim mem]) auto
        with s1 upd Ev accept_token_effect [OF a] show ?thesis by simp
      next
        case (BatchCompleted i)
        have set_ok: "settleable (handle (st_store st r))" using d(2,5) open_r by (simp add: item_ok_def)
        note eff = complete_item_effect [OF set_ok c, of ck bs "ex_tokens x i"]
        obtain st1 where st1: "complete_item ck bs r (ex_tokens x i) st = (st1, None)"
          using eff by (cases "complete_item ck bs r (ex_tokens x i) st") auto
        then have s1: "s1 = (discard_pending i x, st1)" "err = None"
          using run Ev True r c BatchCompleted by (auto simp: exec_event_def)
        have "?g = (f r)\<lparr>it_handle := settle_ok (ident r) (it_tokens (f r)) (it_handle (f r)), it_open := False\<rparr>"
          using open_r live d(1) BatchCompleted by (simp add: step_items_Ev)
        then have "sim ident (f(r := ?g)) (discard_pending i x) st1"
          using d g_ok eff BatchCompleted st1
          by (intro sim_update [OF sim mem]) (auto simp: discard_pending_def)
        with s1 upd Ev show ?thesis by (simp add: discard_pending_def)
      qed
    qed
  qed
qed

lemma exec_trace_sim:
  assumes "sim ident f x st" and "exec_trace ck bs ws (x, st) = (s1, err)"
  shows "err = None \<and> ex_items (fst s1) = ex_items x \<and>
    sim ident (\<lambda>r. item_projected (ident r) r ws (f r)) (fst s1) (snd s1)"
  using assms
proof (induction ws arbitrary: f x st)
  case Nil
  then show ?case by (auto simp: item_projected_def)
next
  case (Cons w ws)
  obtain s2 e2 where s2: "exec_step ck bs w (x, st) = (s2, e2)" by fastforce
  note one = exec_step_sim [OF Cons.prems(1) s2]
  then have "exec_trace ck bs ws (fst s2, snd s2) = (s1, err)" using Cons.prems(2) s2 by simp
  moreover have "sim ident (step_items ident w f) (fst s2) (snd s2)" using one by simp
  ultimately show ?case
    using Cons.IH [of "step_items ident w f" "fst s2" "snd s2"] one
    by (simp add: item_projected_def step_items_def [abs_def])
qed

lemma each_pending_effect:
  fixes eff :: "string \<Rightarrow> response_handle \<Rightarrow> response_handle"
  assumes act: "\<And>i r st. map_of its i = Some r \<Longrightarrow> settleable (handle (st_store st r)) \<Longrightarrow>
      \<not> sr_cancelled (st_store st r) \<Longrightarrow> \<forall>q. rid (st_store st) q = ident q \<Longrightarrow>
      snd (act i r st) = None \<and>
      (\<forall>q. rid (st_store (fst (act i r st))) q = rid (st_store st) q \<and>
        handle (st_store (fst (act i r st)) q) =
          (if q = r then eff i (handle (st_store st r)) else handle (st_store st q)))"
    and its: "\<And>i r. map_of its i = Some r \<Longrightarrow> i = ident r"
    and "distinct ks" and "\<forall>q. rid (st_store st) q = ident q"
    and "\<forall>i \<in> set ks. \<forall>r. map_of its i = Some r \<longrightarrow> settleable (handle (st_store st r))"
  shows "snd (each_pending act its ks st) = None \<and>
    (\<forall>q. rid (st_store (fst (each_pending act its ks st))) q = ident q \<and>
      handle (st_store (fst (each_pending act its ks st)) q) =
        (if ident q \<in> set ks \<and> map_of its (ident q) = Some q \<and> \<not> handle_cancelled (handle (st_store st q))
         then eff (ident q) (handle (st_store st q)) else handle (st_store st q)))"
  using assms(3-5)
proof (induction ks arbitrary: st)
  case Nil
  then show ?case by simp
next
  case (Cons i ks)
  show ?case
  proof (cases "map_of its i")
    case None
    have "ident q \<noteq> i" if "map_of its (ident q) = Some q" for q using None that by auto
    with None Cons show ?thesis by auto
  next
    case (Some r)
    have ir: "i = ident r" by (rule its [OF Some])
    have only: "q = r" if "map_of its (ident q) = Some q" "ident q = i" for q using that Some by simp
    show ?thesis
    proof (cases "sr_cancelled (st_store st r)")
      case True
      then have "handle_cancelled (handle (st_store st r))" by (simp add: sr_cancelled_def)
      with True Some Cons only show ?thesis by auto
    next
      case False
      have live: "\<not> handle_cancelled (handle (st_store st r))" using False by (simp add: sr_cancelled_def)
      have sb: "settleable (handle (st_store st r))" using Cons.prems(3) Some by simp
      note a = act [OF Some sb False Cons.prems(2)]
      define st1 where "st1 = fst (act i r st)"
      have st1: "act i r st = (st1, None)" using a by (simp add: st1_def prod_eq_iff)
      have ids: "\<forall>q. rid (st_store st1) q = ident q" using a Cons.prems(2) by (simp add: st1_def)
      have h1: "handle (st_store st1 q) =
          (if q = r then eff i (handle (st_store st r)) else handle (st_store st q))" for q
        using a by (simp add: st1_def)
      have "settleable (handle (st_store st1 q))" if "j \<in> set ks" "map_of its j = Some q" for j q
      proof -
        have "j \<noteq> i" using that(1) Cons.prems(1) by auto
        then have "q \<noteq> r" using its [OF that(2)] ir by auto
        then show ?thesis using Cons.prems(3) that h1 by simp
      qed
      then have rec: "snd (each_pending act its ks st1) = None \<and>
          (\<forall>q. rid (st_store (fst (each_pending act its ks st1))) q = ident q \<and>
            handle (st_store (fst (each_pending act its ks st1)) q) =
              (if ident q \<in> set ks \<and> map_of its (ident q) = Some q \<and>
                 \<not> handle_cancelled (handle (st_store st1 q))
               then eff (ident q) (handle (st_store st1 q)) else handle (st_store st1 q)))"
        using Cons.IH [of st1] Cons.prems(1) ids by auto
      have step: "each_pending act its (i # ks) st = each_pending act its ks st1"
        using Some False st1 by simp
      have i_out: "i \<notin> set ks" using Cons.prems(1) by simp
      show ?thesis
        unfolding step
      proof (intro conjI allI)
        show "snd (each_pending act its ks st1) = None" using rec by simp
        show "rid (st_store (fst (each_pending act its ks st1))) q = ident q" for q using rec by simp
        show "handle (st_store (fst (each_pending act its ks st1)) q) =
            (if ident q \<in> set (i # ks) \<and> map_of its (ident q) = Some q \<and>
               \<not> handle_cancelled (handle (st_store st q))
             then eff (ident q) (handle (st_store st q)) else handle (st_store st q))" for q
        proof (cases "q = r")
          case True
          then show ?thesis using rec h1 [of r] ir i_out live Some by simp
        next
          case neq: False
          then have "handle (st_store st1 q) = handle (st_store st q)" using h1 by simp
          moreover have "ident q = i \<Longrightarrow> map_of its (ident q) \<noteq> Some q" using only neq by blast
          ultimately show ?thesis using rec by auto
        qed
      qed
    qed
  qed
qed

text \<open>Iterating over a set visits each element once.\<close>

definition iteration_order :: "(string list \<Rightarrow> string list) \<Rightarrow> bool" where
  "iteration_order set_order \<longleftrightarrow>
     (\<forall>xs. distinct xs \<longrightarrow> distinct (set_order xs) \<and> set (set_order xs) = set xs)"

definition ready_batch :: "ref list \<Rightarrow> runtime_state \<Rightarrow> bool" where
  "ready_batch active st \<longleftrightarrow>
     distinct (map (rid (st_store st)) active) \<and> (\<forall>r \<in> set active. settleable (handle (st_store st r)))"

lemma start_exec_items:
  "ready_batch active st \<Longrightarrow>
   ex_items (start_exec so active st) = map (\<lambda>r. (rid (st_store st) r, r)) active"
  by (simp add: start_exec_def ready_batch_def Let_def dict_of_distinct comp_def)

lemma start_exec_lookup:
  assumes "ready_batch active st"
  shows "map_of (ex_items (start_exec so active st)) i = Some r
    \<longleftrightarrow> r \<in> set active \<and> i = rid (st_store st) r"
proof -
  have "distinct (map fst (map (\<lambda>r. (rid (st_store st) r, r)) active))"
    using assms by (simp add: ready_batch_def comp_def)
  from map_of_eq_Some_iff [OF this] show ?thesis by (auto simp: start_exec_items [OF assms])
qed

lemma start_exec_sim:
  assumes "ready_batch active st" "iteration_order so"
  shows "sim (rid (st_store st)) (\<lambda>r. item_start (handle (st_store st r))) (start_exec so active st) (tick st)"
proof -
  let ?ids = "map (rid (st_store st)) active"
  have ids: "distinct ?ids" using assms(1) by (simp add: ready_batch_def)
  have "map fst (ex_items (start_exec so active st)) = ?ids"
    by (simp add: start_exec_items [OF assms(1)])
  moreover from this have "ex_pending (start_exec so active st) = so ?ids"
    by (simp add: start_exec_def Let_def)
  moreover have "set (so ?ids) = set ?ids" using ids assms(2) unfolding iteration_order_def by blast
  ultimately show ?thesis
    using ids assms(1)
    by (auto simp: sim_def start_exec_items [OF assms(1)] item_start_def item_ok_def ready_batch_def)
      (simp_all add: start_exec_def Let_def comp_def)
qed

lemma discard_distinct: "distinct (ex_pending x) \<Longrightarrow> distinct (ex_pending (discard_pending i x))"
  by (simp add: discard_pending_def)

lemma exec_step_distinct:
  assumes "exec_step ck bs w s = (s1, err)" "distinct (ex_pending (fst s))"
  shows "distinct (ex_pending (fst s1))"
proof (cases w)
  case (Abort r m)
  then show ?thesis using assms by auto
next
  case (Ev e)
  obtain x st where s: "s = (x, st)" by (cases s)
  show ?thesis
    using assms accept_token_effect unfolding Ev s
    by (auto simp: exec_event_def discard_distinct split: if_splits option.splits batch_event.splits
        prod.splits) (metis fst_conv prod.collapse)
qed

lemma exec_trace_distinct:
  assumes "exec_trace ck bs ws s = (s1, err)" "distinct (ex_pending (fst s))"
  shows "distinct (ex_pending (fst s1))"
  using assms
proof (induction ws arbitrary: s)
  case Nil
  then show ?case by simp
next
  case (Cons w ws)
  obtain s2 e2 where "exec_step ck bs w s = (s2, e2)" by fastforce
  with Cons exec_step_distinct [OF this] show ?case by (cases e2) auto
qed

lemma pending_effect:
  fixes eff :: "string \<Rightarrow> response_handle \<Rightarrow> response_handle"
  assumes sim: "sim ident f x st" and dist: "distinct (ex_pending x)"
    and act: "\<And>i r st. map_of (ex_items x) i = Some r \<Longrightarrow> settleable (handle (st_store st r)) \<Longrightarrow>
      \<not> sr_cancelled (st_store st r) \<Longrightarrow> \<forall>q. rid (st_store st) q = ident q \<Longrightarrow>
      snd (act i r st) = None \<and>
      (\<forall>q. rid (st_store (fst (act i r st))) q = rid (st_store st) q \<and>
        handle (st_store (fst (act i r st)) q) =
          (if q = r then eff i (handle (st_store st r)) else handle (st_store st q)))"
  shows "snd (each_pending act (ex_items x) (ex_pending x) st) = None"
    and "(i, r) \<in> set (ex_items x) \<Longrightarrow>
      handle (st_store (fst (each_pending act (ex_items x) (ex_pending x) st)) r) =
        (if it_open (f r) \<and> \<not> handle_cancelled (it_handle (f r)) then eff i (it_handle (f r))
         else it_handle (f r))"
proof -
  have mem: "(i, r) \<in> set (ex_items x)" if "map_of (ex_items x) i = Some r" for i r
    using that by (rule map_of_SomeD)
  have "settleable (handle (st_store st r))"
    if "i \<in> set (ex_pending x)" "map_of (ex_items x) i = Some r" for i r
    using simD [OF sim mem [OF that(2)]] that(1) by (simp add: item_ok_def)
  then have e: "snd (each_pending act (ex_items x) (ex_pending x) st) = None \<and>
    (\<forall>q. rid (st_store (fst (each_pending act (ex_items x) (ex_pending x) st))) q = ident q \<and>
      handle (st_store (fst (each_pending act (ex_items x) (ex_pending x) st)) q) =
        (if ident q \<in> set (ex_pending x) \<and> map_of (ex_items x) (ident q) = Some q \<and>
           \<not> handle_cancelled (handle (st_store st q))
         then eff (ident q) (handle (st_store st q)) else handle (st_store st q)))"
    using simD(1) [OF sim mem] sim dist
    by (intro each_pending_effect act) (auto simp: sim_def)
  then show "snd (each_pending act (ex_items x) (ex_pending x) st) = None" by simp
  assume ir: "(i, r) \<in> set (ex_items x)"
  from e simD [OF sim ir] show "handle (st_store (fst (each_pending act (ex_items x) (ex_pending x) st)) r) =
      (if it_open (f r) \<and> \<not> handle_cancelled (it_handle (f r)) then eff i (it_handle (f r))
       else it_handle (f r))" by auto
qed

lemma finish_pending_effect:
  assumes "sim ident f x st" "distinct (ex_pending x)"
  shows "snd (finish_pending ck bs x st) = None"
    and "(i, r) \<in> set (ex_items x) \<Longrightarrow>
      handle (st_store (fst (finish_pending ck bs x st)) r) = item_end i None (f r)"
proof -
  note p = pending_effect [OF assms, of "\<lambda>i r. complete_item ck bs r (ex_tokens x i)"
      "\<lambda>i. settle_ok i (ex_tokens x i)"]
  have act: "snd (complete_item ck bs r (ex_tokens x i) st) = None \<and>
      (\<forall>q. rid (st_store (fst (complete_item ck bs r (ex_tokens x i) st))) q = rid (st_store st) q \<and>
        handle (st_store (fst (complete_item ck bs r (ex_tokens x i) st)) q) =
          (if q = r then settle_ok i (ex_tokens x i) (handle (st_store st r)) else handle (st_store st q)))"
    if "map_of (ex_items x) i = Some r" "settleable (handle (st_store st r))"
      "\<not> sr_cancelled (st_store st r)" "\<forall>q. rid (st_store st) q = ident q" for i r st
  proof -
    have "i = rid (st_store st) r" using simD(1) [OF assms(1) map_of_SomeD [OF that(1)]] that(4) by simp
    with complete_item_effect [OF that(2,3)] show ?thesis by simp
  qed
  show "snd (finish_pending ck bs x st) = None"
    unfolding finish_pending_def by (rule p(1)) (rule act)
  assume ir: "(i, r) \<in> set (ex_items x)"
  have "handle (st_store (fst (finish_pending ck bs x st)) r) =
      (if it_open (f r) \<and> \<not> handle_cancelled (it_handle (f r)) then settle_ok i (ex_tokens x i) (it_handle (f r))
       else it_handle (f r))"
    unfolding finish_pending_def by (rule p(2) [OF _ ir]) (rule act)
  with simD(3) [OF assms(1) ir] show
    "handle (st_store (fst (finish_pending ck bs x st)) r) = item_end i None (f r)"
    by (auto simp: item_end_def)
qed

lemma fail_pending_effect:
  assumes "sim ident f x st" "distinct (ex_pending x)"
  shows "snd (fail_pending ck m x st) = None"
    and "(i, r) \<in> set (ex_items x) \<Longrightarrow>
      handle (st_store (fst (fail_pending ck m x st)) r) = item_end i (Some m) (f r)"
proof -
  note p = pending_effect [OF assms, of "\<lambda>i r. fail_item ck r m" "\<lambda>i. settle_error m"]
  show "snd (fail_pending ck m x st) = None"
    unfolding fail_pending_def by (rule p(1)) (rule fail_item_effect)
  assume ir: "(i, r) \<in> set (ex_items x)"
  have "handle (st_store (fst (fail_pending ck m x st)) r) =
      (if it_open (f r) \<and> \<not> handle_cancelled (it_handle (f r)) then settle_error m (it_handle (f r))
       else it_handle (f r))"
    unfolding fail_pending_def by (rule p(2) [OF _ ir]) (rule fail_item_effect)
  then show "handle (st_store (fst (fail_pending ck m x st)) r) = item_end i (Some m) (f r)"
    by (auto simp: item_end_def)
qed

text \<open>The run of a batch: the loop over the events, then one of the two loops over what is open.\<close>

lemma execute_batch_run:
  assumes ready: "ready_batch (active_items items st) st" and ord: "iteration_order so"
    and gen: "gen (map (\<lambda>r. request (st_store st r)) (active_items items st)) = (evs, exc)"
    and ne: "active_items items st \<noteq> []"
  obtains x1 st1 where
    "exec_trace ck (now ck st) (interleave 0 aborts evs)
       (start_exec so (active_items items st) st, tick st) = ((x1, st1), None)"
    "sim (rid (st_store st))
       (\<lambda>r. item_projected (rid (st_store st) r) r (interleave 0 aborts evs)
         (item_start (handle (st_store st r)))) x1 st1"
    "ex_items x1 = map (\<lambda>r. (rid (st_store st) r, r)) (active_items items st)"
    "distinct (ex_pending x1)"
    "execute_batch ck so gen aborts items st =
      (case exc of Some m \<Rightarrow> fail_pending ck m x1 st1
       | None \<Rightarrow> (fst (finish_pending ck (now ck st) x1 st1), None))"
proof -
  let ?active = "active_items items st" and ?x = "start_exec so (active_items items st) st"
  let ?id = "rid (st_store st)"
  let ?f = "\<lambda>r. item_projected (?id r) r (interleave 0 aborts evs) (item_start (handle (st_store st r)))"
  obtain x1 st1 err where
    run: "exec_trace ck (now ck st) (interleave 0 aborts evs) (?x, tick st) = ((x1, st1), err)"
    by (metis prod.collapse)
  note t = exec_trace_sim [OF start_exec_sim [OF ready ord] run]
  then have err: "err = None" and sim: "sim ?id ?f x1 st1" and items: "ex_items x1 = ex_items ?x"
    by simp_all
  have "distinct (map ?id ?active)" using ready by (simp add: ready_batch_def)
  then have "distinct (ex_pending ?x)"
    using ord start_exec_items [OF ready, of so]
    by (simp add: start_exec_def Let_def iteration_order_def comp_def)
  with exec_trace_distinct [OF run] have dist: "distinct (ex_pending x1)" by simp
  note fin = finish_pending_effect(1) [OF sim dist, where ck = ck and bs = "now ck st"]
  have "execute_batch ck so gen aborts items st =
      (case exc of
         Some m \<Rightarrow> fail_pending ck m x1 st1
       | None \<Rightarrow> (case finish_pending ck (now ck st) x1 st1 of
           (st2, None) \<Rightarrow> (st2, None)
         | (st2, Some m) \<Rightarrow> fail_pending ck m x1 st2))"
    using ne gen run err by (simp add: execute_batch_def Let_def case_prod_beta split: option.split)
  then have "execute_batch ck so gen aborts items st =
      (case exc of Some m \<Rightarrow> fail_pending ck m x1 st1
       | None \<Rightarrow> (fst (finish_pending ck (now ck st) x1 st1), None))"
    using fin by (auto split: option.split prod.split)
  with that run err sim dist items start_exec_items [OF ready, of so] show ?thesis by simp
qed

lemma execute_batch_items:
  assumes ready: "ready_batch (active_items items st) st" and ord: "iteration_order so"
    and gen: "gen (map (\<lambda>r. request (st_store st r)) (active_items items st)) = (evs, exc)"
    and r: "r \<in> set (active_items items st)"
  shows "snd (execute_batch ck so gen aborts items st) = None"
    and "handle (st_store (fst (execute_batch ck so gen aborts items st)) r) =
      item_end (rid (st_store st) r) exc
        (item_projected (rid (st_store st) r) r (interleave 0 aborts evs)
          (item_start (handle (st_store st r))))"
proof -
  let ?id = "rid (st_store st)"
  let ?f = "\<lambda>r. item_projected (?id r) r (interleave 0 aborts evs) (item_start (handle (st_store st r)))"
  have ne: "active_items items st \<noteq> []" using r by auto
  obtain x1 st1 where sim: "sim ?id ?f x1 st1"
    and items: "ex_items x1 = map (\<lambda>r. (?id r, r)) (active_items items st)"
    and dist: "distinct (ex_pending x1)"
    and ex: "execute_batch ck so gen aborts items st =
      (case exc of Some m \<Rightarrow> fail_pending ck m x1 st1
       | None \<Rightarrow> (fst (finish_pending ck (now ck st) x1 st1), None))"
    by (rule execute_batch_run [where gen = gen, OF ready ord gen ne])
  have ir: "(?id r, r) \<in> set (ex_items x1)" using r by (auto simp: items)
  note fin = finish_pending_effect [OF sim dist, where ck = ck and bs = "now ck st"]
  note fl = fail_pending_effect [OF sim dist, where ck = ck]
  show "snd (execute_batch ck so gen aborts items st) = None"
    "handle (st_store (fst (execute_batch ck so gen aborts items st)) r) = item_end (?id r) exc (?f r)"
    unfolding ex using fin(2) [OF ir] fl(1) [where m = "the exc"] fl(2) [OF ir, where m = "the exc"]
    by (auto split: option.split)
qed

section \<open>What one request gets\<close>

definition no_abort :: "ref \<Rightarrow> (nat \<Rightarrow> (ref \<times> string) list) \<Rightarrow> bool" where
  "no_abort r aborts \<longleftrightarrow> (\<forall>k. r \<notin> fst ` set (aborts k))"

fun item_of :: "batch_event \<Rightarrow> item_event" where
  "item_of (BatchToken i t) = ItToken t"
| "item_of (BatchCompleted i) = ItDone"

lemma project_aborts:
  "r \<notin> fst ` set l \<Longrightarrow> concat (map (project i r) (map (\<lambda>(r, m). Abort r m) l)) = []"
  by (induction l) auto

lemma project_interleave:
  assumes "no_abort r aborts"
  shows "concat (map (project i r) (interleave k aborts evs)) = map item_of (events_of i evs)"
proof -
  have ab: "concat (map (project i r) (map (\<lambda>(r, m). Abort r m) (aborts k))) = []" for k
    using assms by (intro project_aborts) (simp add: no_abort_def)
  show ?thesis
  proof (induction evs arbitrary: k)
    case Nil
    show ?case using ab by simp
  next
    case (Cons e es)
    have "project i r (Ev e) = (if ev_id e = i then [item_of e] else [])" by (cases e) auto
    with Cons ab [of k] show ?case by (simp del: map_map)
  qed
qed

definition give_tokens :: "string list \<Rightarrow> response_handle \<Rightarrow> response_handle" where
  "give_tokens ts chan =
     (case chan of
        Completion h \<Rightarrow> Completion h
      | Streaming h \<Rightarrow> Streaming (h\<lparr>queue := queue h @ map TokenEvent ts\<rparr>))"

lemma give_tokens_Nil [simp]: "give_tokens [] chan = chan"
  by (cases chan) (simp_all add: give_tokens_def)

lemma give_tokens_Cons: "give_tokens ts (give_token t chan) = give_tokens (t # ts) chan"
  by (cases chan) (simp_all add: give_tokens_def give_token_def put_event_def)

lemma give_token_cancelled: "handle_cancelled (give_token t chan) = handle_cancelled chan"
  by (cases chan) (simp_all add: give_token_def put_event_def)

lemma item_run_tokens:
  "it_open it \<Longrightarrow> \<not> handle_cancelled (it_handle it) \<Longrightarrow>
   item_run i (map ItToken ts) it =
     it\<lparr>it_handle := give_tokens ts (it_handle it), it_tokens := it_tokens it @ ts\<rparr>"
  by (induction ts arbitrary: it) (simp_all add: give_token_cancelled give_tokens_Cons)

lemma give_tokens_cancelled [simp]: "handle_cancelled (give_tokens ts chan) = handle_cancelled chan"
  by (cases chan) (simp_all add: give_tokens_def)

definition delivered :: "string \<Rightarrow> string list \<Rightarrow> response_handle \<Rightarrow> response_handle" where
  "delivered i ts chan = settle_ok i ts (give_tokens ts chan)"

definition broken_off :: "string \<Rightarrow> string list \<Rightarrow> response_handle \<Rightarrow> response_handle" where
  "broken_off m ts chan = settle_error m (give_tokens ts chan)"

lemma item_run_prefix:
  assumes "\<not> handle_cancelled chan" and "prefix es (full_events i ts)"
  shows "item_end i exc (item_run i (map item_of es) (item_start chan)) =
    (if es = full_events i ts then delivered i ts chan
     else (case exc of
         None \<Rightarrow> delivered i (take (length es) ts) chan
       | Some m \<Rightarrow> broken_off m (take (length es) ts) chan))"
proof -
  have toks: "map item_of (map (BatchToken i) us) = map ItToken us" for us by simp
  show ?thesis
  proof (cases "es = full_events i ts")
    case True
    with assms(1) show ?thesis
      by (simp add: full_events_def toks item_run_tokens item_start_def delivered_def item_end_def
          del: map_map)
  next
    case False
    then have "prefix es (map (BatchToken i) ts)"
      using assms(2) by (auto simp: full_events_def prefix_append prefix_Cons)
    then obtain us where us: "prefix us ts" "es = map (BatchToken i) us"
      using prefix_map_rightE by blast
    then have "us = take (length us) ts" by (auto simp: prefix_def)
    moreover have "length es = length us" using us(2) by simp
    moreover note us(2)
    ultimately show ?thesis
      using assms(1) False
      by (simp add: toks item_run_tokens item_start_def item_end_def delivered_def broken_off_def
          del: map_map split: option.split)
  qed
qed

text \<open>After an abort nothing reaches the request any more.\<close>

lemma item_step_cancelled:
  "handle_cancelled (it_handle it) \<Longrightarrow> it_handle (item_step i e it) =
     (case e of ItAbort \<Rightarrow> snd (cancel_handle (it_handle it)) | _ \<Rightarrow> it_handle it)"
  by (cases e) auto

lemma cancel_cancelled: "handle_cancelled chan \<Longrightarrow> snd (cancel_handle chan) = chan"
  by (cases chan) (auto simp: cancel_completion_def cancel_streaming_def)

lemma item_run_cancelled:
  "handle_cancelled (it_handle it) \<Longrightarrow> it_handle (item_run i es it) = it_handle it"
proof (induction es arbitrary: it)
  case Nil
  then show ?case by simp
next
  case (Cons e es)
  have "it_handle (item_step i e it) = it_handle it"
    using item_step_cancelled [OF Cons.prems] cancel_cancelled [OF Cons.prems]
    by (simp split: item_event.split)
  with Cons show ?case by simp
qed

lemma item_end_cancelled: "handle_cancelled (it_handle it) \<Longrightarrow> item_end i exc it = it_handle it"
  by (simp add: item_end_def)

end
