(* ===== verification/Delivery.thy ===== *)
theory Delivery
  imports Worker
begin

text \<open>
  What the worker guarantees to the callers of a batch: isolation of the requests from each other,
  complete delivery when the backend finishes, an error for each open request when it does not,
  and silence after an abort. The backend enters only through the contract of a batch stream.
\<close>

definition batch_requests :: "ref list \<Rightarrow> runtime_state \<Rightarrow> runtime_request list" where
  "batch_requests items st = map (\<lambda>r. request (st_store st r)) (active_items items st)"

definition valid_batch :: "ref list \<Rightarrow> runtime_state \<Rightarrow> bool" where
  "valid_batch items st \<longleftrightarrow> ready_batch (active_items items st) st \<and>
     (\<forall>q \<in> set (batch_requests items st). 1 \<le> max_tokens (sampling q))"

lemma valid_batch_ids: "valid_batch items st \<Longrightarrow> distinct (map request_id (batch_requests items st))"
  by (simp add: valid_batch_def ready_batch_def batch_requests_def comp_def)

lemma active_live: "r \<in> set (active_items items st) \<Longrightarrow> \<not> handle_cancelled (handle (st_store st r))"
  by (simp add: active_items_def sr_cancelled_def)

context batch_backend
begin

lemma outcome:
  assumes v: "valid_batch items st" and so: "iteration_order so" and r: "r \<in> set (active_items items st)"
    and na: "no_abort r aborts"
  shows "let st' = fst (execute_batch ck so generate_batch aborts items st);
      q = request (st_store st r); toks = fst (generate q); chan = handle (st_store st r);
      exc = snd (generate_batch (batch_requests items st)) in
    snd (execute_batch ck so generate_batch aborts items st) = None \<and>
    (handle (st_store st' r) = delivered (request_id q) toks chan \<or>
     (\<exists>m ts. exc = Some m \<and> prefix ts toks \<and> handle (st_store st' r) = broken_off m ts chan))"
proof -
  let ?reqs = "batch_requests items st" and ?q = "request (st_store st r)"
  let ?i = "request_id (request (st_store st r))" and ?chan = "handle (st_store st r)"
  obtain evs exc where gen: "generate_batch ?reqs = (evs, exc)" by fastforce
  have qin: "?q \<in> set ?reqs" using r by (simp add: batch_requests_def)
  have mt: "\<forall>q \<in> set ?reqs. 1 \<le> max_tokens (sampling q)" using v by (simp add: valid_batch_def)
  have ready: "ready_batch (active_items items st) st" using v by (simp add: valid_batch_def)
  note it = execute_batch_items [where gen = generate_batch and ck = ck and aborts = aborts,
      OF ready so gen [unfolded batch_requests_def] r]
  have pre: "prefix (events_of ?i evs) (full_events ?i (fst (generate ?q)))"
    using law_prefix [OF valid_batch_ids [OF v] mt qin] gen by simp
  have full: "exc = None \<Longrightarrow> events_of ?i evs = full_events ?i (fst (generate ?q))"
    using law_complete [OF valid_batch_ids [OF v] mt _ qin] gen by simp
  have pr: "item_projected ?i r (interleave 0 aborts evs) (item_start ?chan)
      = item_run ?i (map item_of (events_of ?i evs)) (item_start ?chan)"
    by (simp add: item_projected_def project_interleave [OF na])
  have "prefix (take n (fst (generate ?q))) (fst (generate ?q))" for n by (rule take_is_prefix)
  then show ?thesis
    using it item_run_prefix [OF active_live [OF r] pre, of exc] full gen
    by (auto simp: pr Let_def split: if_splits option.splits)
qed

lemma outcome_complete:
  assumes "valid_batch items st" "iteration_order so" "r \<in> set (active_items items st)" "no_abort r aborts"
    and "snd (generate_batch (batch_requests items st)) = None"
  shows "handle (st_store (fst (execute_batch ck so generate_batch aborts items st)) r) =
    delivered (rid (st_store st) r) (fst (generate (request (st_store st r)))) (handle (st_store st r))"
  using outcome [OF assms(1-4), where ck = ck] assms(5) by (simp add: Let_def)

end

lemma delivered_cases:
  "delivered i ts (Completion h) =
     Completion (h\<lparr>fut := Result \<lparr>gr_request_id = i, gr_tokens = ts, gr_finish_reason = ''stop''\<rparr>\<rparr>)"
  "delivered i ts (Streaming s) =
     Streaming (s\<lparr>queue := queue s @ map TokenEvent ts @ [CompletedEvent ''stop'']\<rparr>)"
  "broken_off m ts (Completion h) = Completion (h\<lparr>fut := Failed m\<rparr>)"
  "broken_off m ts (Streaming s) = Streaming (s\<lparr>queue := queue s @ map TokenEvent ts @ [ErrorEvent m]\<rparr>)"
  by (simp_all add: delivered_def broken_off_def give_tokens_def settle_ok_def settle_error_def put_event_def)

section \<open>Properties\<close>

text \<open>
  C6: Isolation. Running a batch is the same, for each of its requests, as running that request
  alone on its own part of the backend's events and its own aborts, whatever the backend yields for
  the others, in whatever order, and whoever else is aborted; and the worker survives: no exception
  leaves the batch.
\<close>

theorem batch_isolation:
  assumes "ready_batch (active_items items st) st" and "iteration_order so"
    and "gen (map (\<lambda>r. request (st_store st r)) (active_items items st)) = (evs, exc)"
    and "r \<in> set (active_items items st)"
  shows "snd (execute_batch ck so gen aborts items st) = None \<and>
    handle (st_store (fst (execute_batch ck so gen aborts items st)) r) =
      item_end (rid (st_store st) r) exc
        (item_projected (rid (st_store st) r) r (interleave 0 aborts evs)
          (item_start (handle (st_store st r))))"
  using execute_batch_items [where gen = gen, OF assms] by blast

definition wit_state :: runtime_state where
  "wit_state = \<lparr>st_store = (\<lambda>r. \<lparr>request = wit_sampled (str_nat r) 2,
       handle = (if even r then Streaming create_streaming else Completion create_completion)\<rparr>),
     st_metrics = init_collector, st_log = [], st_ticks = 0\<rparr>"

lemma wit_state_ready: "ready_batch (active_items [2, 3] wit_state) wit_state"
  "active_items [2, 3] wit_state = [2, 3]" "iteration_order id"
  by (simp_all add: active_items_def ready_batch_def wit_state_def sr_cancelled_def
      create_streaming_def create_completion_def wit_sampled_def from_chat_request_def new_request_id_def
      iteration_order_def)

theorem batch_isolation_witness:
  "let evs = [BatchToken ''chatcmpl-3'' ''x'', BatchToken ''chatcmpl-2'' ''a'', BatchCompleted ''chatcmpl-3''];
       st' = fst (execute_batch of_nat id (\<lambda>rs. (evs, Some ''boom'')) (\<lambda>k. []) [2, 3] wit_state) in
     handle (st_store st' 2) = Streaming (create_streaming\<lparr>queue := [TokenEvent ''a'', ErrorEvent ''boom'']\<rparr>)"
proof -
  let ?evs = "[BatchToken ''chatcmpl-3'' ''x'', BatchToken ''chatcmpl-2'' ''a'', BatchCompleted ''chatcmpl-3'']"
  have r2: "2 \<in> set (active_items [2, 3] wit_state)" by (simp add: wit_state_ready)
  have id2: "rid (st_store wit_state) 2 = ''chatcmpl-2''"
    by (simp add: wit_state_def wit_sampled_def from_chat_request_def new_request_id_def) code_simp
  have h2: "handle (st_store wit_state 2) = Streaming create_streaming" by (simp add: wit_state_def)
  from batch_isolation [where gen = "\<lambda>rs. (?evs, Some ''boom'')" and ck = of_nat and aborts = "\<lambda>k. []",
      OF wit_state_ready(1,3) refl r2]
  show ?thesis
    by (simp add: id2 h2 item_projected_def item_start_def item_end_def give_token_def settle_error_def
        put_event_def create_streaming_def)
qed

text \<open>
  Complete delivery, mock backend. When a batch of valid requests runs on the mock backend,
  every request of it that is not aborted gets its own tokens, all of them and in order: a waiting
  caller's future holds them under its request id, a stream has them queued one event each,
  followed by one completion event.
\<close>

lemma mock_batch_delivery:
  assumes "valid_batch items st" and "iteration_order so" and "r \<in> set (active_items items st)"
    and "no_abort r aborts"
  shows "let st' = fst (execute_batch ck so (mock_batch_stream b) aborts items st);
      toks = map mock_token [0..<nat (max_tokens (sampling (request (st_store st r))))] in
    (\<forall>h. handle (st_store st r) = Completion h \<longrightarrow>
       handle (st_store st' r) = Completion (h\<lparr>fut := Result \<lparr>gr_request_id = rid (st_store st) r,
         gr_tokens = toks, gr_finish_reason = ''stop''\<rparr>\<rparr>)) \<and>
    (\<forall>s. handle (st_store st r) = Streaming s \<longrightarrow>
       handle (st_store st' r) =
         Streaming (s\<lparr>queue := queue s @ map TokenEvent toks @ [CompletedEvent ''stop'']\<rparr>))"
proof -
  have "snd (mock_batch_stream b (batch_requests items st)) = None" by (simp add: mock_batch_stream_def)
  from mock.outcome_complete [OF assms this, where ck = ck] show ?thesis
    by (simp add: Let_def delivered_cases mock_stream_def mock_generate_tokens mock_tokens_def)
qed

lemma wit_state_valid: "valid_batch [2, 3] wit_state" "2 \<in> set (active_items [2, 3] wit_state)"
  "no_abort r (\<lambda>k. [])"
proof -
  have "max_tokens (sampling (request (st_store wit_state q))) = 2" for q
    by (simp add: wit_state_def wit_sampled_def from_chat_request_def)
  then show "valid_batch [2, 3] wit_state"
    using wit_state_ready by (simp add: valid_batch_def batch_requests_def)
qed (simp_all add: wit_state_ready no_abort_def)

lemma mock_batch_delivery_witness:
  "let st' = fst (execute_batch of_nat id (mock_batch_stream (init_mock 25 10)) (\<lambda>k. []) [2, 3] wit_state) in
     handle (st_store st' 2) = Streaming (create_streaming\<lparr>queue :=
       [TokenEvent ''tok0 '', TokenEvent ''tok1 '', CompletedEvent ''stop'']\<rparr>)"
proof -
  have h2: "handle (st_store wit_state 2) = Streaming create_streaming" by (simp add: wit_state_def)
  have n2: "nat (max_tokens (sampling (request (st_store wit_state 2)))) = Suc (Suc 0)"
    by (simp add: wit_state_def wit_sampled_def from_chat_request_def)
  have t: "mock_token 0 = ''tok0 ''" "mock_token (Suc 0) = ''tok1 ''" by code_simp+
  from mock_batch_delivery [OF wit_state_valid(1) wit_state_ready(3) wit_state_valid(2,3),
      where ck = of_nat and b = "init_mock 25 10"]
  show ?thesis by (simp add: h2 n2 t create_streaming_def Let_def)
qed


definition wit_gen :: "runtime_request \<Rightarrow> string stream" where
  "wit_gen q = (if request_id q = ''chatcmpl-2'' then ([''a'', ''b''], Some ''broken'') else ([''c''], None))"


end
