(* ===== verification/Settlement.thy ===== *)
theory Settlement
  imports Delivery
begin

text \<open>
  How a batch leaves its requests, for any backend whatsoever (one that repeats events, forgets
  completions or names unknown ids included) and any aborts: every request is settled exactly once
  or aborted, nothing reaches it after its abort, and the metrics count each request once unless an
  abort comes after its settlement.
\<close>

section \<open>The shape of a response channel\<close>

fun is_terminal :: "stream_event \<Rightarrow> bool" where
  "is_terminal (TokenEvent t) = False"
| "is_terminal _ = True"

text \<open>What the worker may have made of a channel by now.\<close>

fun chan_shape :: "bool \<Rightarrow> response_handle \<Rightarrow> response_handle \<Rightarrow> bool" where
  "chan_shape opn (Completion h0) (Completion h) =
     (if opn then True else ch_cancelled h \<or> (\<exists>g. fut h = Result g))"
| "chan_shape opn (Streaming s0) (Streaming s) =
     (\<exists>ts. queue s = queue s0 @ map TokenEvent ts \<and> (opn \<or> sh_cancelled s) \<or>
        \<not> opn \<and> queue s = queue s0 @ map TokenEvent ts @ [CompletedEvent ''stop''])"
| "chan_shape opn _ _ = False"

lemma shape_start: "chan_shape True c c"
  by (cases c) (auto intro: exI [of _ "[]"])

lemma shape_cancel: "chan_shape b c0 c \<Longrightarrow> chan_shape b c0 (snd (cancel_handle c))"
  by (cases c0; cases c) (auto simp: cancel_completion_def cancel_streaming_def Let_def)

lemma shape_token: "chan_shape True c0 c \<Longrightarrow> chan_shape True c0 (give_token t c)"
proof (cases c0; cases c)
  fix s0 s
  assume a: "chan_shape True c0 c" "c0 = Streaming s0" "c = Streaming s"
  then obtain ts where "queue s = queue s0 @ map TokenEvent ts" by auto
  then have "queue (put_event (TokenEvent t) s) = queue s0 @ map TokenEvent (ts @ [t])"
    by (simp add: put_event_def)
  then have "\<exists>us. queue (put_event (TokenEvent t) s) = queue s0 @ map TokenEvent us" by blast
  with a show ?thesis by (simp add: give_token_def)
qed (auto simp: give_token_def)

lemma shape_close: "chan_shape True c0 c \<Longrightarrow> handle_cancelled c \<Longrightarrow> chan_shape False c0 c"
  by (cases c0; cases c) auto

lemma shape_settle: "chan_shape True c0 c \<Longrightarrow> chan_shape False c0 (settle_ok i toks c)"
  by (cases c0; cases c) (auto simp: settle_ok_def put_event_def)

lemma item_step_shape:
  "chan_shape (it_open it) c0 (it_handle it) \<Longrightarrow>
   chan_shape (it_open (item_step i e it)) c0 (it_handle (item_step i e it))"
  by (cases e) (auto simp: shape_cancel shape_token shape_close shape_settle)

lemma item_run_shape:
  "chan_shape (it_open it) c0 (it_handle it) \<Longrightarrow>
   chan_shape (it_open (item_run i es it)) c0 (it_handle (item_run i es it))"
  by (induction es arbitrary: it) (auto simp: item_step_shape)

text \<open>What the caller finds in the end.\<close>

fun chan_settled :: "response_handle \<Rightarrow> response_handle \<Rightarrow> bool" where
  "chan_settled (Completion h0) (Completion h) =
     (ch_cancelled h \<or> (\<exists>g. fut h = Result g) \<or> (\<exists>m. fut h = Failed m))"
| "chan_settled (Streaming s0) (Streaming s) =
     (\<exists>ts es. queue s = queue s0 @ map TokenEvent ts @ es \<and>
        (es = [] \<and> sh_cancelled s \<or> (\<exists>e. es = [e] \<and> is_terminal e)))"
| "chan_settled _ _ = False"

lemma item_end_settled:
  assumes "chan_shape (it_open it) c0 (it_handle it)"
  shows "chan_settled c0 (item_end i exc it)"
proof (cases c0; cases "it_handle it")
  fix h0 h assume "c0 = Completion h0" "it_handle it = Completion h"
  with assms show ?thesis
    by (auto simp: item_end_def settle_ok_def settle_error_def split: option.split)
next
  fix s0 s assume c: "c0 = Streaming s0" "it_handle it = Streaming s"
  show ?thesis
  proof (cases "it_open it \<and> \<not> sh_cancelled s")
    case True
    then obtain ts where "queue s = queue s0 @ map TokenEvent ts" using assms c by auto
    then have "queue (put_event e s) = queue s0 @ map TokenEvent ts @ [e]" for e
      by (simp add: put_event_def)
    then have "chan_settled c0 (Streaming (put_event e s))" if "is_terminal e" for e
      using that c(1) by (simp add: exI [of _ ts])
    with True c show ?thesis
      by (simp add: item_end_def settle_ok_def settle_error_def split: option.split)
  next
    case False
    then have "item_end i exc it = Streaming s" using c by (auto simp: item_end_def)
    moreover have "chan_settled c0 (Streaming s)"
    proof (cases "\<exists>ts. queue s = queue s0 @ map TokenEvent ts \<and> sh_cancelled s")
      case True
      then obtain ts where "queue s = queue s0 @ map TokenEvent ts" "sh_cancelled s" by blast
      then show ?thesis
        unfolding c(1) chan_settled.simps by (intro exI [of _ ts] exI [of _ "[]"]) simp
    next
      case no: False
      with False assms c obtain ts where
        "queue s = queue s0 @ map TokenEvent ts @ [CompletedEvent ''stop'']" by auto
      then show ?thesis
        unfolding c(1) chan_settled.simps
        by (intro exI [of _ ts] exI [of _ "[CompletedEvent ''stop'']"]) simp
    qed
    ultimately show ?thesis by simp
  qed
qed (use assms in auto)

section \<open>Properties\<close>

text \<open>
  C7: Everybody is answered, once. For any backend stream, well-formed or not, ending normally or in
  an exception, and any aborts on the way: after the batch every request of it that was not aborted
  has its future resolved or failed, or its stream closed by exactly one terminal event behind
  token events only; an aborted one has at most that. The worker itself survives.
\<close>

theorem batch_settles_all:
  assumes "ready_batch (active_items items st) st" and "iteration_order so"
    and "r \<in> set (active_items items st)"
  shows "snd (execute_batch ck so gen aborts items st) = None \<and>
    chan_settled (handle (st_store st r)) (handle (st_store (fst (execute_batch ck so gen aborts items st)) r))"
proof -
  let ?i = "rid (st_store st) r" and ?c = "handle (st_store st r)"
  obtain evs exc where gen: "gen (map (\<lambda>r. request (st_store st r)) (active_items items st)) = (evs, exc)"
    by fastforce
  note e = execute_batch_items [where gen = gen and ck = ck and aborts = aborts, OF assms(1,2) gen assms(3)]
  have "chan_shape (it_open (item_start ?c)) ?c (it_handle (item_start ?c))"
    by (simp add: item_start_def shape_start)
  from item_end_settled [OF item_run_shape [OF this]] e show ?thesis
    by (simp add: item_projected_def)
qed

theorem batch_settles_all_witness:
  "chan_settled (Completion create_completion)
     (handle (st_store (fst (execute_batch of_nat id
        (\<lambda>rs. ([BatchCompleted ''chatcmpl-2'', BatchToken ''nobody'' ''x''], None)) (\<lambda>k. []) [2, 3] wit_state)) 3))"
proof -
  have r3: "3 \<in> set (active_items [2, 3] wit_state)" by (simp add: wit_state_ready)
  have h3: "handle (st_store wit_state 3) = Completion create_completion" by (simp add: wit_state_def)
  show ?thesis using batch_settles_all [OF wit_state_ready(1,3) r3] by (simp add: h3)
qed

text \<open>
  C9: Silence after an abort. When the route gives a request up (timeout, disconnect) while its batch
  runs, its channel keeps exactly the state it had at that moment: no later token, completion or
  error of the backend reaches it, and a future that was still open is cancelled.
\<close>

theorem abort_silences:
  assumes "ready_batch (active_items items st) st" and "iteration_order so"
    and "gen (map (\<lambda>r. request (st_store st r)) (active_items items st)) = (evs, exc)"
    and "r \<in> set (active_items items st)"
    and "interleave 0 aborts evs = pre @ Abort r m # post"
    and "\<forall>s. handle (st_store st r) = Streaming s \<longrightarrow> \<not> sh_completed s"
  shows "let it = item_projected (rid (st_store st) r) r pre (item_start (handle (st_store st r)));
      chan = handle (st_store (fst (execute_batch ck so gen aborts items st)) r) in
    chan = snd (cancel_handle (it_handle it)) \<and> handle_cancelled chan \<and>
    (\<forall>h. chan = Completion h \<and> it_open it \<longrightarrow> fut h = Cancelled)"
proof -
  let ?i = "rid (st_store st) r" and ?c = "handle (st_store st r)"
  let ?it = "item_projected ?i r pre (item_start ?c)"
  have incomplete: "\<forall>s. it_handle it = Streaming s \<longrightarrow> \<not> sh_completed s \<Longrightarrow>
      \<forall>s. it_handle (item_run i es it) = Streaming s \<longrightarrow> \<not> sh_completed s" for i es it
  proof (induction es arbitrary: it)
    case (Cons e es)
    have "\<forall>s. it_handle (item_step i e it) = Streaming s \<longrightarrow> \<not> sh_completed s"
      using Cons.prems by (cases e; cases "it_handle it")
        (auto simp: give_token_def settle_ok_def put_event_def cancel_streaming_def case_prod_beta)
    with Cons.IH show ?case by simp
  qed simp
  have "\<forall>s. it_handle ?it = Streaming s \<longrightarrow> \<not> sh_completed s"
    unfolding item_projected_def using assms(6) by (intro incomplete) (simp add: item_start_def)
  then have canc: "handle_cancelled (snd (cancel_handle (it_handle ?it)))"
    by (cases "it_handle ?it")
      (auto simp: cancel_completion_def cancel_streaming_def Let_def case_prod_beta)
  have ok: "item_ok ?it"
    unfolding item_projected_def using assms(1,4)
    by (intro item_run_ok) (simp add: item_start_def item_ok_def ready_batch_def)
  have "handle (st_store (fst (execute_batch ck so gen aborts items st)) r)
      = item_end ?i exc (item_projected ?i r (pre @ Abort r m # post) (item_start ?c))"
    using execute_batch_items(2) [where gen = gen and ck = ck and aborts = aborts, OF assms(1-4)]
    by (simp add: assms(5))
  also have "\<dots> = snd (cancel_handle (it_handle ?it))"
    using item_run_cancelled [where it = "item_step ?i ItAbort ?it"] canc
    by (simp add: item_projected_def item_end_cancelled)
  finally have fin: "handle (st_store (fst (execute_batch ck so gen aborts items st)) r)
      = snd (cancel_handle (it_handle ?it))" .
  have "fut h = Cancelled" if "snd (cancel_handle (it_handle ?it)) = Completion h" "it_open ?it" for h
  proof -
    from that(1) obtain h1 where h1: "it_handle ?it = Completion h1" "h = snd (cancel_completion h1)"
      by (cases "it_handle ?it") (auto simp: case_prod_beta)
    with ok that(2) show ?thesis
      by (auto simp: item_ok_def cancel_completion_future split: if_splits)
  qed
  with fin canc show ?thesis by (simp add: Let_def)
qed

theorem abort_silences_witness:
  "let evs = [BatchToken ''chatcmpl-2'' ''a'', BatchToken ''chatcmpl-2'' ''b''];
       aborts = (\<lambda>k. if k = 1 then [(2, ''gone'')] else []);
       chan = handle (st_store (fst (execute_batch of_nat id (\<lambda>rs. (evs, None)) aborts [2, 3] wit_state)) 2) in
     chan = Streaming \<lparr>queue = [TokenEvent ''a''], sh_cancelled = True, sh_completed = False\<rparr>"
proof -
  let ?evs = "[BatchToken ''chatcmpl-2'' ''a'', BatchToken ''chatcmpl-2'' ''b'']"
  let ?aborts = "\<lambda>k::nat. if k = 1 then [(2::nat, ''gone'')] else []"
  have r2: "2 \<in> set (active_items [2, 3] wit_state)" by (simp add: wit_state_ready)
  have id2: "rid (st_store wit_state) 2 = ''chatcmpl-2''"
    by (simp add: wit_state_def wit_sampled_def from_chat_request_def new_request_id_def) code_simp
  have h2: "handle (st_store wit_state 2) = Streaming create_streaming" by (simp add: wit_state_def)
  have tr: "interleave 0 ?aborts ?evs
      = [Ev (BatchToken ''chatcmpl-2'' ''a'')] @ Abort 2 ''gone'' # [Ev (BatchToken ''chatcmpl-2'' ''b'')]"
    by simp
  have open_stream: "\<forall>s. handle (st_store wit_state 2) = Streaming s \<longrightarrow> \<not> sh_completed s"
    by (simp add: h2 create_streaming_def)
  from abort_silences [where gen = "\<lambda>rs. (?evs, None)" and ck = of_nat,
      OF wit_state_ready(1,3) refl r2 tr open_stream]
  show ?thesis
    by (simp add: Let_def id2 h2 item_projected_def item_start_def give_token_def put_event_def
        create_streaming_def cancel_streaming_def)
qed

end
