(* ===== verification/Accounting.thy ===== *)
theory Accounting
  imports Settlement
begin

text \<open>
  The metrics of a batch: how often a request is counted as completed or failed. The number of
  settlements recorded and the number of requests the worker still owes an answer add up to a
  constant, as long as an abort only hits a request that is still open; an abort that comes after
  the settlement counts its request a second time.
\<close>

definition settled_total :: "runtime_state \<Rightarrow> nat" where
  "settled_total st = completed_count (st_metrics st) + failed_count (st_metrics st)"

definition item_live :: "item \<Rightarrow> bool" where
  "item_live it \<longleftrightarrow> it_open it \<and> \<not> handle_cancelled (it_handle it)"

definition open_count :: "(string \<times> ref) list \<Rightarrow> (ref \<Rightarrow> item) \<Rightarrow> nat" where
  "open_count its f = length (filter (\<lambda>(i, r). item_live (f r)) its)"

section \<open>What one operation adds\<close>

lemma settled_total_simps [simp]:
  "settled_total (tick st) = settled_total st"
  "settled_total (log_emit e st) = settled_total st"
  "settled_total (on_store u st) = settled_total st"
  "settled_total (record_done r n t st) = settled_total st + 1"
  "settled_total (fail_request ck r st) = settled_total st + 1"
  "settled_total (stamp_first_token ck r st) = settled_total st"
  by (simp_all add: settled_total_def tick_def log_emit_def on_store_def record_done_def record_success_def
      fail_request_def record_failure_def Let_def metric_simps stamp_first_token_def)

lemma complete_item_total:
  assumes "settleable (handle (st_store st r))" "\<not> sr_cancelled (st_store st r)"
  shows "settled_total (fst (complete_item ck bs r toks st)) = settled_total st + 1"
proof (cases "handle (st_store st r)")
  case (Completion h)
  then have "\<not> ch_cancelled h" "fut h = Pending" using assms by (auto simp: sr_cancelled_def)
  with Completion assms(2) show ?thesis
    by (simp add: complete_item_def Let_def handle_simps request_simps set_result_def)
next
  case (Streaming h)
  then have "\<not> sh_cancelled h" using assms by (auto simp: sr_cancelled_def)
  with Streaming assms(2) show ?thesis
    by (simp add: complete_item_def Let_def handle_simps request_simps)
qed

lemma fail_item_total:
  assumes "settleable (handle (st_store st r))" "\<not> sr_cancelled (st_store st r)"
  shows "settled_total (fst (fail_item ck r m st)) = settled_total st + 1"
proof (cases "handle (st_store st r)")
  case (Completion h)
  then have "\<not> ch_cancelled h" "fut h = Pending" using assms by (auto simp: sr_cancelled_def)
  with Completion assms(2) show ?thesis by (simp add: fail_item_def Let_def set_exception_def)
next
  case (Streaming h)
  with assms(2) show ?thesis by (simp add: fail_item_def Let_def)
qed

lemma accept_token_total:
  "accept_token ck i r t (x, st) = (x1, st1) \<Longrightarrow> settled_total st1 = settled_total st"
  by (auto simp: accept_token_def Let_def split: response_handle.splits)

lemma abort_ref_total:
  "settled_total (abort_ref ck m r st) = settled_total st +
     (case handle (st_store st r) of Completion h \<Rightarrow> 1
      | Streaming s \<Rightarrow> if fst (cancel_streaming s) then 1 else 0)"
  by (simp add: abort_ref_def Let_def split: response_handle.split)

section \<open>Counting open requests\<close>

lemma open_count_update:
  assumes "distinct (map snd its)" "(i, r) \<in> set its"
    and "\<forall>(j, q) \<in> set its. q \<noteq> r \<longrightarrow> item_live (g q) = item_live (f q)"
  shows "open_count its g + (if item_live (f r) then 1 else 0)
    = open_count its f + (if item_live (g r) then 1 else 0)"
  using assms
proof (induction its)
  case Nil
  then show ?case by simp
next
  case (Cons p its)
  obtain j q where p: "p = (j, q)" by (cases p)
  show ?case
  proof (cases "q = r")
    case True
    have "r \<notin> snd ` set its" using Cons.prems(1) p True by simp
    then have "filter (\<lambda>(i, r). item_live (g r)) its = filter (\<lambda>(i, r). item_live (f r)) its"
      using Cons.prems(3) by (intro filter_cong) (auto simp: rev_image_eqI)
    with True p show ?thesis by (simp add: open_count_def)
  next
    case False
    with Cons p show ?thesis by (auto simp: open_count_def)
  qed
qed

lemma open_count_cong:
  "\<forall>(j, q) \<in> set its. item_live (g q) = item_live (f q) \<Longrightarrow> open_count its g = open_count its f"
  unfolding open_count_def by (intro arg_cong [of _ _ length] filter_cong) auto

lemma sim_distinct_refs:
  assumes "sim ident f x st" shows "distinct (map snd (ex_items x))"
proof -
  have "map fst (ex_items x) = map ident (map snd (ex_items x))"
    using simD(1) [OF assms] by (auto simp: list_eq_iff_nth_eq)
  moreover have "distinct (map fst (ex_items x))" using assms by (simp add: sim_def)
  ultimately show ?thesis by (metis distinct_map)
qed

text \<open>An abort that comes in time: its request is in the batch, open, and its stream has not
  been read to the end.\<close>

definition timely :: "(string \<times> ref) list \<Rightarrow> (ref \<Rightarrow> item) \<Rightarrow> wevent \<Rightarrow> bool" where
  "timely its f w \<longleftrightarrow>
     (case w of
        Ev e \<Rightarrow> True
      | Abort r m \<Rightarrow> r \<in> snd ` set its \<and> item_live (f r) \<and>
          (\<forall>s. it_handle (f r) = Streaming s \<longrightarrow> \<not> sh_completed s))"

lemma step_items_other:
  assumes "sim ident f x st" "(i, r) \<in> set (ex_items x)" "(j, q) \<in> set (ex_items x)" "q \<noteq> r" "ev_id e = i"
  shows "step_items ident (Ev e) f q = f q"
  using sim_unique [OF assms(1-3)] simD(1) [OF assms(1,3)] assms(4,5) by (auto simp: step_items_Ev)

lemma exec_step_total:
  assumes sim: "sim ident f x st" and run: "exec_step ck bs w (x, st) = (s1, err)"
    and tm: "timely (ex_items x) f w"
  shows "settled_total (snd s1) + open_count (ex_items x) (step_items ident w f)
    = settled_total st + open_count (ex_items x) f"
proof (cases w)
  case (Abort r m)
  obtain i where mem: "(i, r) \<in> set (ex_items x)" using tm Abort by (auto simp: timely_def)
  have live: "item_live (f r)" and st: "\<forall>s. it_handle (f r) = Streaming s \<longrightarrow> \<not> sh_completed s"
    using tm Abort by (auto simp: timely_def)
  have h: "handle (st_store st r) = it_handle (f r)" by (rule simD(2) [OF sim mem])
  have g: "step_items ident w f q = (if q = r then (f r)\<lparr>it_handle := snd (cancel_handle (it_handle (f r)))\<rparr> else f q)"
    for q by (simp add: step_items_def Abort)
  have "handle_cancelled (snd (cancel_handle (it_handle (f r))))"
    using live st by (cases "it_handle (f r)")
      (auto simp: cancel_completion_def cancel_streaming_def Let_def case_prod_beta)
  then have "\<not> item_live (step_items ident w f r)" by (simp add: g item_live_def)
  with open_count_update [OF sim_distinct_refs [OF sim] mem, of "step_items ident w f" f] live
  have "open_count (ex_items x) (step_items ident w f) + 1 = open_count (ex_items x) f" by (auto simp: g)
  moreover have "settled_total (snd s1) = settled_total st + 1"
    using run Abort live st
    by (cases "it_handle (f r)")
      (auto simp: abort_ref_total h cancel_streaming_def item_live_def)
  ultimately show ?thesis by simp
next
  case (Ev e)
  let ?i = "ev_id e" and ?g = "step_items ident w f"
  show ?thesis
  proof (cases "?i \<in> set (ex_pending x) \<and> map_of (ex_items x) ?i \<noteq> None")
    case False
    then have s1: "s1 = (x, st)" using run Ev by (auto simp: exec_event_def split: option.splits if_splits)
    have "?g r = f r" if "(j, r) \<in> set (ex_items x)" for j r
    proof (cases "?i = ident r")
      case True
      with False simD [OF sim that] have "\<not> it_open (f r)" by auto
      then show ?thesis by (cases e) (simp_all add: step_items_Ev Ev)
    qed (simp add: step_items_Ev Ev)
    then have "open_count (ex_items x) ?g = open_count (ex_items x) f" by (intro open_count_cong) auto
    with s1 show ?thesis by simp
  next
    case True
    then obtain r where r: "map_of (ex_items x) ?i = Some r" by auto
    then have mem: "(?i, r) \<in> set (ex_items x)" by (rule map_of_SomeD)
    note d = simD [OF sim mem]
    have others: "\<forall>(j, q) \<in> set (ex_items x). q \<noteq> r \<longrightarrow> item_live (?g q) = item_live (f q)"
      using step_items_other [OF sim mem] Ev by auto
    note upd = open_count_update [OF sim_distinct_refs [OF sim] mem others]
    have opn: "it_open (f r)" using True d(4) by simp
    show ?thesis
    proof (cases "sr_cancelled (st_store st r)")
      case c: True
      then have "snd s1 = st" using run Ev True r by (auto simp: exec_event_def)
      moreover have "handle_cancelled (it_handle (f r))" using c d(2) by (simp add: sr_cancelled_def)
      then have "\<not> item_live (f r)" "\<not> item_live (?g r)"
        using opn d(1) Ev by (cases e; simp add: item_live_def step_items_Ev)+
      ultimately show ?thesis using upd by simp
    next
      case c: False
      then have live: "item_live (f r)" "\<not> handle_cancelled (it_handle (f r))"
        using d(2) opn by (simp_all add: sr_cancelled_def item_live_def)
      show ?thesis
      proof (cases e)
        case (BatchToken i t)
        obtain x1 st1 where a: "accept_token ck i r t (x, st) = (x1, st1)"
          by (cases "accept_token ck i r t (x, st)")
        have "s1 = accept_token ck i r t (x, st)"
          using run Ev True r c BatchToken by (auto simp: exec_event_def)
        then have "snd s1 = st1" using a by simp
        moreover have "item_live (?g r)"
          using live opn d(1) BatchToken Ev by (simp add: step_items_Ev item_live_def give_token_cancelled)
        ultimately show ?thesis using upd live accept_token_total [OF a] by simp
      next
        case (BatchCompleted i)
        have sb: "settleable (handle (st_store st r))" using d(2,5) opn by (simp add: item_ok_def)
        have "snd s1 = fst (complete_item ck bs r (ex_tokens x i) st)"
          using run Ev True r c BatchCompleted complete_item_effect [OF sb c, of ck bs "ex_tokens x i"]
          by (auto simp: exec_event_def split: prod.splits option.splits)
        moreover have "\<not> item_live (?g r)"
          using live opn d(1) BatchCompleted Ev by (simp add: step_items_Ev item_live_def)
        ultimately show ?thesis using upd live complete_item_total [OF sb c] by simp
      qed
    qed
  qed
qed

text \<open>Every abort of a trace is timely for the items as they are when it comes.\<close>

fun all_timely :: "(ref \<Rightarrow> string) \<Rightarrow> (string \<times> ref) list \<Rightarrow> wevent list \<Rightarrow> (ref \<Rightarrow> item) \<Rightarrow> bool" where
  "all_timely ident its [] f = True"
| "all_timely ident its (w # ws) f =
     (timely its f w \<and> all_timely ident its ws (step_items ident w f))"

lemma exec_trace_total:
  assumes "sim ident f x st" "exec_trace ck bs ws (x, st) = (s1, err)" "all_timely ident (ex_items x) ws f"
  shows "settled_total (snd s1) + open_count (ex_items x) (\<lambda>r. item_projected (ident r) r ws (f r))
    = settled_total st + open_count (ex_items x) f"
  using assms
proof (induction ws arbitrary: f x st)
  case Nil
  then show ?case by (auto simp: item_projected_def)
next
  case (Cons w ws)
  obtain s2 e2 where s2: "exec_step ck bs w (x, st) = (s2, e2)" by fastforce
  note one = exec_step_sim [OF Cons.prems(1) s2]
  have "exec_trace ck bs ws (fst s2, snd s2) = (s1, err)" using Cons.prems(2) s2 one by simp
  with Cons.IH [of "step_items ident w f" "fst s2" "snd s2"] one Cons.prems(3)
    exec_step_total [OF Cons.prems(1) s2]
  show ?case by (simp add: item_projected_def step_items_def [abs_def])
qed

section \<open>The loops over the open requests\<close>

lemma each_pending_total:
  fixes eff :: "string \<Rightarrow> response_handle \<Rightarrow> response_handle"
  assumes act: "\<And>i r st. map_of its i = Some r \<Longrightarrow> settleable (handle (st_store st r)) \<Longrightarrow>
      \<not> sr_cancelled (st_store st r) \<Longrightarrow> \<forall>q. rid (st_store st) q = ident q \<Longrightarrow>
      snd (act i r st) = None \<and> settled_total (fst (act i r st)) = settled_total st + 1 \<and>
      (\<forall>q. rid (st_store (fst (act i r st))) q = rid (st_store st) q \<and>
        handle (st_store (fst (act i r st)) q) =
          (if q = r then eff i (handle (st_store st r)) else handle (st_store st q)))"
    and its: "\<And>i r. map_of its i = Some r \<Longrightarrow> i = ident r"
    and "distinct ks" and "\<forall>q. rid (st_store st) q = ident q"
    and "\<forall>i \<in> set ks. \<forall>r. map_of its i = Some r \<longrightarrow> settleable (handle (st_store st r))"
  shows "settled_total (fst (each_pending act its ks st)) = settled_total st +
    length (filter (\<lambda>i. case map_of its i of None \<Rightarrow> False
      | Some r \<Rightarrow> \<not> handle_cancelled (handle (st_store st r))) ks)"
  using assms(3-5)
proof (induction ks arbitrary: st)
  case Nil
  then show ?case by simp
next
  case (Cons i ks)
  show ?case
  proof (cases "map_of its i")
    case None
    with Cons show ?thesis by simp
  next
    case (Some r)
    show ?thesis
    proof (cases "sr_cancelled (st_store st r)")
      case True
      with Some Cons show ?thesis by (simp add: sr_cancelled_def)
    next
      case False
      have sb: "settleable (handle (st_store st r))" using Cons.prems(3) Some by simp
      note a = act [OF Some sb False Cons.prems(2)]
      define st1 where "st1 = fst (act i r st)"
      have st1: "act i r st = (st1, None)" using a by (simp add: st1_def prod_eq_iff)
      have other: "handle (st_store st1 q) = handle (st_store st q)" if "q \<noteq> r" for q
        using a that by (simp add: st1_def)
      have neq: "q \<noteq> r" if "j \<in> set ks" "map_of its j = Some q" for j q
        using that Cons.prems(1) its [OF Some] its [OF that(2)] by auto
      have "filter (\<lambda>i. case map_of its i of None \<Rightarrow> False
            | Some r \<Rightarrow> \<not> handle_cancelled (handle (st_store st1 r))) ks
          = filter (\<lambda>i. case map_of its i of None \<Rightarrow> False
            | Some r \<Rightarrow> \<not> handle_cancelled (handle (st_store st r))) ks"
        using other neq by (intro filter_cong) (auto split: option.split)
      moreover have "settled_total (fst (each_pending act its ks st1)) = settled_total st1 +
          length (filter (\<lambda>i. case map_of its i of None \<Rightarrow> False
            | Some r \<Rightarrow> \<not> handle_cancelled (handle (st_store st1 r))) ks)"
        using Cons.prems a other neq by (intro Cons.IH) (auto simp: st1_def)
      moreover have "settled_total st1 = settled_total st + 1" using a by (simp add: st1_def)
      ultimately show ?thesis using Some False st1 by (simp add: sr_cancelled_def)
    qed
  qed
qed

lemma pending_open_count:
  assumes sim: "sim ident f x st" and dist: "distinct (ex_pending x)"
  shows "length (filter (\<lambda>i. case map_of (ex_items x) i of None \<Rightarrow> False
      | Some r \<Rightarrow> \<not> handle_cancelled (handle (st_store st r))) (ex_pending x))
    = open_count (ex_items x) f" (is "length (filter ?P _) = _")
proof -
  let ?live = "filter (\<lambda>(i, r). item_live (f r)) (ex_items x)"
  have keys: "distinct (map fst ?live)"
    using sim by (simp add: sim_def distinct_map_filter)
  have "set (filter ?P (ex_pending x)) = set (map fst ?live)"
  proof (intro equalityI subsetI)
    fix i assume "i \<in> set (filter ?P (ex_pending x))"
    then obtain r where "map_of (ex_items x) i = Some r" "i \<in> set (ex_pending x)"
      "\<not> handle_cancelled (handle (st_store st r))" by (auto split: option.splits)
    then have "(i, r) \<in> set ?live"
      using simD [OF sim map_of_SomeD [of "ex_items x" i r]] map_of_SomeD [of "ex_items x" i r]
      by (simp add: item_live_def)
    then show "i \<in> set (map fst ?live)" by force
  next
    fix i assume "i \<in> set (map fst ?live)"
    then obtain r where r: "(i, r) \<in> set (ex_items x)" "item_live (f r)" by auto
    then show "i \<in> set (filter ?P (ex_pending x))"
      using simD [OF sim r(1)] by (simp add: item_live_def)
  qed
  moreover have "length (filter ?P (ex_pending x)) = card (set (filter ?P (ex_pending x)))"
    using dist by (intro distinct_card [symmetric] distinct_filter)
  moreover have "length (map fst ?live) = card (set (map fst ?live))"
    using keys by (rule distinct_card [symmetric])
  ultimately show ?thesis by (simp add: open_count_def)
qed

lemma pending_total:
  assumes sim: "sim ident f x st" and dist: "distinct (ex_pending x)"
    and act: "\<And>i r st. map_of (ex_items x) i = Some r \<Longrightarrow> settleable (handle (st_store st r)) \<Longrightarrow>
      \<not> sr_cancelled (st_store st r) \<Longrightarrow> \<forall>q. rid (st_store st) q = ident q \<Longrightarrow>
      snd (act i r st) = None \<and> settled_total (fst (act i r st)) = settled_total st + 1 \<and>
      (\<forall>q. rid (st_store (fst (act i r st))) q = rid (st_store st) q \<and>
        handle (st_store (fst (act i r st)) q) =
          (if q = r then eff i (handle (st_store st r)) else handle (st_store st q)))"
  shows "settled_total (fst (each_pending act (ex_items x) (ex_pending x) st))
    = settled_total st + open_count (ex_items x) f"
proof -
  have sb: "\<forall>i \<in> set (ex_pending x). \<forall>r. map_of (ex_items x) i = Some r \<longrightarrow>
      settleable (handle (st_store st r))"
    using simD(2,4,5) [OF sim map_of_SomeD] by (auto simp: item_ok_def)
  have its: "i = ident r" if "map_of (ex_items x) i = Some r" for i r
    by (rule simD(1) [OF sim map_of_SomeD [OF that]])
  have ids: "\<forall>q. rid (st_store st) q = ident q" using sim by (simp add: sim_def)
  have "settled_total (fst (each_pending act (ex_items x) (ex_pending x) st)) = settled_total st +
    length (filter (\<lambda>i. case map_of (ex_items x) i of None \<Rightarrow> False
      | Some r \<Rightarrow> \<not> handle_cancelled (handle (st_store st r))) (ex_pending x))"
    by (rule each_pending_total [OF act its dist ids sb])
  then show ?thesis by (simp add: pending_open_count [OF sim dist])
qed

lemma finish_pending_total:
  assumes sim: "sim ident f x st" and dist: "distinct (ex_pending x)"
  shows "settled_total (fst (finish_pending ck bs x st)) = settled_total st + open_count (ex_items x) f"
  unfolding finish_pending_def
proof (rule pending_total [OF sim dist, where eff = "\<lambda>i. settle_ok i (ex_tokens x i)"])
  fix i r and st :: runtime_state
  assume a: "map_of (ex_items x) i = Some r" "settleable (handle (st_store st r))"
    "\<not> sr_cancelled (st_store st r)" "\<forall>q. rid (st_store st) q = ident q"
  have "i = rid (st_store st) r" using simD(1) [OF sim map_of_SomeD [OF a(1)]] a(4) by simp
  with complete_item_effect [OF a(2,3)] complete_item_total [OF a(2,3)]
  show "snd (complete_item ck bs r (ex_tokens x i) st) = None \<and>
    settled_total (fst (complete_item ck bs r (ex_tokens x i) st)) = settled_total st + 1 \<and>
    (\<forall>q. rid (st_store (fst (complete_item ck bs r (ex_tokens x i) st))) q = rid (st_store st) q \<and>
      handle (st_store (fst (complete_item ck bs r (ex_tokens x i) st)) q) =
        (if q = r then settle_ok i (ex_tokens x i) (handle (st_store st r)) else handle (st_store st q)))"
    by simp
qed

lemma fail_pending_total:
  assumes sim: "sim ident f x st" and dist: "distinct (ex_pending x)"
  shows "settled_total (fst (fail_pending ck m x st)) = settled_total st + open_count (ex_items x) f"
  unfolding fail_pending_def
proof (rule pending_total [OF sim dist, where eff = "\<lambda>i. settle_error m"])
  fix i r and st :: runtime_state
  assume a: "map_of (ex_items x) i = Some r" "settleable (handle (st_store st r))"
    "\<not> sr_cancelled (st_store st r)" "\<forall>q. rid (st_store st) q = ident q"
  from fail_item_effect [OF a(2,3)] fail_item_total [OF a(2,3)]
  show "snd (fail_item ck r m st) = None \<and>
    settled_total (fst (fail_item ck r m st)) = settled_total st + 1 \<and>
    (\<forall>q. rid (st_store (fst (fail_item ck r m st))) q = rid (st_store st) q \<and>
      handle (st_store (fst (fail_item ck r m st)) q) =
        (if q = r then settle_error m (handle (st_store st r)) else handle (st_store st q)))"
    by simp
qed

definition aborts_timely :: "(nat \<Rightarrow> (ref \<times> string) list) \<Rightarrow> batch_event list \<Rightarrow> ref list \<Rightarrow> runtime_state \<Rightarrow> bool" where
  "aborts_timely aborts evs active st =
     all_timely (rid (st_store st)) (map (\<lambda>r. (rid (st_store st) r, r)) active)
       (interleave 0 aborts evs) (\<lambda>r. item_start (handle (st_store st r)))"

section \<open>Properties\<close>

text \<open>
  C8: Every request is counted once. If every abort during a batch hits a request that the worker has
  not settled yet, the batch adds exactly the number of its requests to completed plus failed,
  however the backend's stream looks and ends.
\<close>

theorem batch_counts_once:
  assumes "ready_batch (active_items items st) st" and "iteration_order so"
    and "gen (map (\<lambda>r. request (st_store st r)) (active_items items st)) = (evs, exc)"
    and "aborts_timely aborts evs (active_items items st) st"
  shows "settled_total (fst (execute_batch ck so gen aborts items st))
    = settled_total st + length (active_items items st)"
proof (cases "active_items items st = []")
  case True
  then show ?thesis by (simp add: execute_batch_def)
next
  case False
  let ?id = "rid (st_store st)" and ?its = "map (\<lambda>r. (rid (st_store st) r, r)) (active_items items st)"
  let ?f = "\<lambda>r. item_projected (?id r) r (interleave 0 aborts evs) (item_start (handle (st_store st r)))"
  obtain x1 st1 where run: "exec_trace ck (now ck st) (interleave 0 aborts evs)
       (start_exec so (active_items items st) st, tick st) = ((x1, st1), None)"
    and sim: "sim ?id ?f x1 st1" and items: "ex_items x1 = ?its" and dist: "distinct (ex_pending x1)"
    and ex: "execute_batch ck so gen aborts items st =
      (case exc of Some m \<Rightarrow> fail_pending ck m x1 st1
       | None \<Rightarrow> (fst (finish_pending ck (now ck st) x1 st1), None))"
    by (rule execute_batch_run [where gen = gen, OF assms(1-3) False])
  have tm: "all_timely ?id (ex_items (start_exec so (active_items items st) st)) (interleave 0 aborts evs)
      (\<lambda>r. item_start (handle (st_store st r)))"
    using assms(4) by (simp add: aborts_timely_def start_exec_items [OF assms(1)])
  have "open_count ?its (\<lambda>r. item_start (handle (st_store st r))) = length (active_items items st)"
    by (simp add: open_count_def item_live_def item_start_def active_live filter_map comp_def)
  with exec_trace_total [OF start_exec_sim [OF assms(1,2)] run tm]
  have "settled_total st1 + open_count ?its ?f = settled_total st + length (active_items items st)"
    by (simp add: start_exec_items [OF assms(1)])
  with finish_pending_total [OF sim dist] fail_pending_total [OF sim dist] show ?thesis
    unfolding ex items by (simp split: option.split)
qed

theorem batch_counts_once_witness:
  "let evs = [BatchToken ''chatcmpl-2'' ''a'', BatchCompleted ''chatcmpl-2''];
       aborts = (\<lambda>k. if k = 1 then [(3, ''gone'')] else []) in
     settled_total (fst (execute_batch of_nat id (\<lambda>rs. (evs, Some ''boom'')) aborts [2, 3] wit_state)) = 2"
proof -
  let ?evs = "[BatchToken ''chatcmpl-2'' ''a'', BatchCompleted ''chatcmpl-2'']"
  let ?aborts = "\<lambda>k::nat. if k = 1 then [(3::nat, ''gone'')] else []"
  have h: "handle (st_store wit_state 2) = Streaming create_streaming"
    "handle (st_store wit_state 3) = Completion create_completion" by (simp_all add: wit_state_def)
  have "rid (st_store wit_state) r = new_request_id (str_nat r)" for r
    by (simp add: wit_state_def wit_sampled_def from_chat_request_def)
  moreover have "str_nat 2 = ''2''" "str_nat 3 = ''3''" by code_simp+
  ultimately have ids: "rid (st_store wit_state) 2 = ''chatcmpl-2''" "rid (st_store wit_state) 3 = ''chatcmpl-3''"
    by (simp_all add: new_request_id_def)
  have tm: "aborts_timely ?aborts ?evs (active_items [2, 3] wit_state) wit_state"
    by (simp add: aborts_timely_def wit_state_ready(2) ids timely_def step_items_def item_start_def
        item_live_def h create_completion_def)
  have "settled_total wit_state = 0" by (simp add: settled_total_def wit_state_def init_collector_def)
  with batch_counts_once [where gen = "\<lambda>rs. (?evs, Some ''boom'')" and ck = of_nat,
      OF wit_state_ready(1,3) refl tm]
  show ?thesis by (simp add: Let_def wit_state_ready(2))
qed

text \<open>The count of an abort that comes too late: the stream of request 2 completes, its client
  leaves before reading to the end, and the one request is counted as completed and as failed.\<close>

lemma late_abort_counts_twice:
  "settled_total (abort_ref ck m r st) = settled_total st + 1"
  if "handle (st_store st r) = Streaming s" "\<not> sh_cancelled s" "\<not> sh_completed s"
  using that by (simp add: abort_ref_total cancel_streaming_def)

end
