(* ===== verification/Fifo.thy ===== *)
theory Fifo
  imports Scheduler
begin

text \<open>
  \<open>scheduler/fifo.py\<close>. The \<open>asyncio.Queue\<close> is unbounded, so \<open>put\<close> never suspends, and its
  state is the list of queued references. \<open>fifo_collect\<close> is the collection loop of
  \<open>next_batch\<close>: \<open>k\<close> counts the clock readings the call has made. A \<open>wait_for\<close> whose timer has
  not fired and that finds the queue still empty goes on waiting.
\<close>

section \<open>Operations\<close>

type_synonym fifo = "ref list"

definition fifo_init :: fifo where
  "fifo_init = []"

definition fifo_submit :: "submission \<Rightarrow> store \<Rightarrow> fifo \<Rightarrow> store \<times> fifo" where
  "fifo_submit x h q = (upd_request (mark_enqueued (sub_now x)) (sub_ref x) h, q @ [sub_ref x])"

definition fifo_next_request ::
  "batch_env \<Rightarrow> store \<Rightarrow> fifo \<Rightarrow> (store \<times> ref \<times> fifo) option" where
  "fifo_next_request e h q =
     (let (h1, q1) = submit_all fifo_submit (first_wait e) h q in
      case q1 of [] \<Rightarrow> None
      | r # q2 \<Rightarrow> Some (upd_request (mark_started (mark_clk e 0)) r h1, r, q2))"

function fifo_collect ::
  "int \<Rightarrow> rat \<Rightarrow> seconds \<Rightarrow> (nat \<Rightarrow> seconds) \<Rightarrow> nat \<Rightarrow> (submission list \<times> bool) list \<Rightarrow>
   store \<Rightarrow> fifo \<Rightarrow> ref list \<Rightarrow> (store \<times> ref list \<times> fifo) option"
where
  "fifo_collect mx timeout_s deadline c k ws h q items =
     (if int (length items) < mx then
        (if timeout_s = 0 then
           (case q of [] \<Rightarrow> Some (h, items, q)
            | r # q1 \<Rightarrow> fifo_collect mx timeout_s deadline c k ws h q1 (items @ [r]))
         else if deadline - c k \<le> 0 then Some (h, items, q)
         else
           (case ws of [] \<Rightarrow> None
            | w # ws1 \<Rightarrow>
               (case submit_all fifo_submit (fst w) h q of (h1, q1) \<Rightarrow>
                  if snd w then Some (h1, items, q1)
                  else (case q1 of
                      [] \<Rightarrow> fifo_collect mx timeout_s deadline c k ws1 h1 [] items
                    | r # q2 \<Rightarrow>
                        fifo_collect mx timeout_s deadline c (Suc k) ws1 h1 q2 (items @ [r])))))
      else Some (h, items, q))"
  by pat_completeness auto
termination
  by (relation "measure (\<lambda>(mx, ts, dl, c, k, ws, h, q, items).
        nat (mx - int (length items)) + length ws)") auto

declare fifo_collect.simps [simp del]

definition fifo_next_batch ::
  "int \<Rightarrow> int \<Rightarrow> batch_env \<Rightarrow> store \<Rightarrow> fifo \<Rightarrow> (store \<times> ref list \<times> fifo) option" where
  "fifo_next_batch max_batch_size batch_timeout_ms e h q =
     (case submit_all fifo_submit (first_wait e) h q of (h1, q1) \<Rightarrow>
      case q1 of [] \<Rightarrow> None
      | first # q2 \<Rightarrow>
         (let timeout_s = of_int batch_timeout_ms / 1000;
              deadline = clk e 0 + timeout_s in
          case fifo_collect max_batch_size timeout_s deadline (clk e) 1 (waits e) h1 q2 [first] of
            None \<Rightarrow> None
          | Some (h2, items, q3) \<Rightarrow> Some (mark_all_started 0 (mark_clk e) items h2, items, q3)))"

text \<open>One \<open>get\<close> or \<open>get_nowait\<close>; the queue has no use for the clock.\<close>

definition fifo_pop :: "seconds \<Rightarrow> fifo \<Rightarrow> (ref \<times> fifo) option" where
  "fifo_pop t q = (case q of [] \<Rightarrow> None | r # q1 \<Rightarrow> Some (r, q1))"

definition fifo_size :: "fifo \<Rightarrow> nat" where
  "fifo_size q = length q"

lemma fifo_pop_simps [simp]:
  "fifo_pop t [] = None" "fifo_pop t (r # q) = Some (r, q)"
  by (simp_all add: fifo_pop_def)

section \<open>Submissions\<close>

lemma fifo_submit_simps [simp]:
  "snd (fifo_submit x h q) = q @ [sub_ref x]"
  "fst (fifo_submit x h q) = upd_request (mark_enqueued (sub_now x)) (sub_ref x) h"
  by (simp_all add: fifo_submit_def)

lemma fifo_submit_all_queue [simp]:
  "snd (submit_all fifo_submit xs h q) = q @ map sub_ref xs"
  by (induction xs arbitrary: h q) (simp_all add: sched_simps del: submit_all.simps(2))

lemma fifo_submit_all_store: "same_identity h (fst (submit_all fifo_submit xs h q))"
proof (induction xs arbitrary: h q)
  case Nil
  then show ?case by simp
next
  case (Cons x xs)
  have "same_identity h (fst (fifo_submit x h q))" by (auto intro: same_identity_mark)
  also have "same_identity \<dots> (fst (submit_all fifo_submit xs (fst (fifo_submit x h q)) (snd (fifo_submit x h q))))"
    by (rule Cons.IH)
  finally show ?case by (simp add: sched_simps del: submit_all.simps(2))
qed

lemma fifo_submit_all_pair:
  "submit_all fifo_submit xs h q = (h1, q1) \<Longrightarrow> q1 = q @ map sub_ref xs \<and> same_identity h h1"
  using fifo_submit_all_queue [of xs h q] fifo_submit_all_store [of h xs q] by simp

section \<open>The collection loop\<close>

text \<open>The equations of the loop, one per path.\<close>

lemma fifo_collect_eqs:
  "\<not> int (length items) < mx \<Longrightarrow> fifo_collect mx ts dl c k ws h q items = Some (h, items, q)"
  "fifo_collect mx 0 dl c k ws h [] items = Some (h, items, [])"
  "int (length items) < mx \<Longrightarrow>
    fifo_collect mx 0 dl c k ws h (r # q) items = fifo_collect mx 0 dl c k ws h q (items @ [r])"
  "ts \<noteq> 0 \<Longrightarrow> dl - c k \<le> 0 \<Longrightarrow> fifo_collect mx ts dl c k ws h q items = Some (h, items, q)"
  "int (length items) < mx \<Longrightarrow> ts \<noteq> 0 \<Longrightarrow> \<not> dl - c k \<le> 0 \<Longrightarrow>
    fifo_collect mx ts dl c k [] h q items = None"
  "int (length items) < mx \<Longrightarrow> ts \<noteq> 0 \<Longrightarrow> \<not> dl - c k \<le> 0 \<Longrightarrow>
    fifo_collect mx ts dl c k (w # ws) h q items =
      (let h1 = fst (submit_all fifo_submit (fst w) h q) in
       if snd w then Some (h1, items, q @ map sub_ref (fst w))
       else (case q @ map sub_ref (fst w) of
          [] \<Rightarrow> fifo_collect mx ts dl c k ws h1 [] items
        | r # q2 \<Rightarrow> fifo_collect mx ts dl c (Suc k) ws h1 q2 (items @ [r])))"
  by (simp_all add: fifo_collect.simps [of mx _ dl c k _ h _ items] case_prod_beta Let_def)

text \<open>
  One iteration of a run that finishes: the loop stops (batch full, queue empty with no window,
  or deadline passed), takes a waiting request, gives up on a timer, waits on, or is handed a
  request.
\<close>

lemma fifo_collect_cases:
  assumes "fifo_collect mx ts dl c k ws h q items = Some (h', b, q')"
  obtains (stop) "\<not> int (length items) < mx \<or> ts = 0 \<and> q = [] \<or> ts \<noteq> 0" "h' = h" "b = items" "q' = q"
  | (now) r q1 where "int (length items) < mx" "ts = 0" "q = r # q1"
      "fifo_collect mx ts dl c k ws h q1 (items @ [r]) = Some (h', b, q')"
  | (fired) w ws1 where "int (length items) < mx" "ts \<noteq> 0" "ws = w # ws1"
      "h' = fst (submit_all fifo_submit (fst w) h q)" "b = items" "q' = q @ map sub_ref (fst w)"
  | (again) w ws1 where "int (length items) < mx" "ts \<noteq> 0" "ws = w # ws1"
      "q @ map sub_ref (fst w) = []"
      "fifo_collect mx ts dl c k ws1 (fst (submit_all fifo_submit (fst w) h q)) [] items
         = Some (h', b, q')"
  | (got) w ws1 r q2 where "int (length items) < mx" "ts \<noteq> 0" "ws = w # ws1"
      "q @ map sub_ref (fst w) = r # q2"
      "fifo_collect mx ts dl c (Suc k) ws1 (fst (submit_all fifo_submit (fst w) h q)) q2 (items @ [r])
         = Some (h', b, q')"
proof -
  consider (closed) "\<not> int (length items) < mx \<or> ts \<noteq> 0 \<and> dl - c k \<le> 0"
    | (nowindow) "int (length items) < mx" "ts = 0"
    | (window) "int (length items) < mx" "ts \<noteq> 0" "\<not> dl - c k \<le> 0" by blast
  then show thesis
  proof cases
    case closed
    with assms have "(h', b, q') = (h, items, q)"
      by (cases "int (length items) < mx") (simp_all add: fifo_collect_eqs)
    with closed show thesis by (intro stop) auto
  next
    case nowindow
    show thesis
    proof (cases q)
      case Nil
      with assms nowindow show thesis by (intro stop) (simp_all add: fifo_collect_eqs)
    next
      case (Cons r q1)
      with assms nowindow show thesis by (intro now) (simp_all add: fifo_collect_eqs)
    qed
  next
    case window
    show thesis
    proof (cases ws)
      case Nil
      with assms window show thesis by (simp add: fifo_collect_eqs)
    next
      case (Cons w ws1)
      have eq: "fifo_collect mx ts dl c k (w # ws1) h q items = Some (h', b, q')"
        using assms Cons by simp
      show thesis
      proof (cases "snd w")
        case True
        with eq window Cons show thesis by (intro fired) (auto simp: fifo_collect_eqs(6) Let_def)
      next
        case waiting: False
        show thesis
          using eq window Cons waiting again [OF window(1,2) Cons] got [OF window(1,2) Cons]
          by (cases "q @ map sub_ref (fst w)") (simp_all add: fifo_collect_eqs(6) Let_def)
      qed
    qed
  qed
qed

lemma fifo_collect_induct [consumes 1, case_names stop now fired again got]:
  assumes "fifo_collect mx ts dl c k ws h q items = Some (h', b, q')"
    and stop: "\<And>k ws h q items. \<not> int (length items) < mx \<or> ts = 0 \<and> q = [] \<or> ts \<noteq> 0 \<Longrightarrow>
      P k ws h q items h items q"
    and now: "\<And>k ws h r q items h' b q'. int (length items) < mx \<Longrightarrow> ts = 0 \<Longrightarrow>
      P k ws h q (items @ [r]) h' b q' \<Longrightarrow> P k ws h (r # q) items h' b q'"
    and fired: "\<And>k w ws h q items. int (length items) < mx \<Longrightarrow> ts \<noteq> 0 \<Longrightarrow>
      P k (w # ws) h q items (fst (submit_all fifo_submit (fst w) h q)) items (q @ map sub_ref (fst w))"
    and again: "\<And>k w ws h q items h' b q'. int (length items) < mx \<Longrightarrow> ts \<noteq> 0 \<Longrightarrow>
      q @ map sub_ref (fst w) = [] \<Longrightarrow>
      P k ws (fst (submit_all fifo_submit (fst w) h q)) [] items h' b q' \<Longrightarrow>
      P k (w # ws) h q items h' b q'"
    and got: "\<And>k w ws h q items r q2 h' b q'. int (length items) < mx \<Longrightarrow> ts \<noteq> 0 \<Longrightarrow>
      q @ map sub_ref (fst w) = r # q2 \<Longrightarrow>
      P (Suc k) ws (fst (submit_all fifo_submit (fst w) h q)) q2 (items @ [r]) h' b q' \<Longrightarrow>
      P k (w # ws) h q items h' b q'"
  shows "P k ws h q items h' b q'"
  using assms(1)
proof (induction "nat (mx - int (length items)) + length ws" arbitrary: k ws h q items
    rule: less_induct)
  case less
  from less.prems show ?case
  proof (cases rule: fifo_collect_cases)
    case stop
    then show ?thesis using assms(2) by simp
  next
    case (now r q1)
    then show ?thesis using assms(3) less.hyps [OF _ now(4)] by simp
  next
    case (fired w ws1)
    then show ?thesis using assms(4) by simp
  next
    case (again w ws1)
    then show ?thesis using assms(5) less.hyps [OF _ again(5)] by simp
  next
    case (got w ws1 r q2)
    then show ?thesis using assms(6) less.hyps [OF _ got(5)] by simp
  qed
qed

text \<open>What the loop returns continues the items it started from, in queue order.\<close>

lemma fifo_collect_order:
  assumes "fifo_collect mx ts dl c k ws h q items = Some (h', b, q')"
  shows "\<exists>n. b @ q' = items @ q @ take n (map sub_ref (concat (map fst ws)))"
  using assms
proof (induction rule: fifo_collect_induct)
  case (stop k ws h q items)
  show ?case by (intro exI [of _ 0]) simp
next
  case (now k ws h r q items h' b q')
  then show ?case by simp
next
  case (fired k w ws h q items)
  show ?case by (intro exI [of _ "length (fst w)"]) simp
next
  case (again k w ws h q items h' b q')
  then show ?case by simp
next
  case (got k w ws h q items r q2 h' b q')
  then obtain n where "b @ q' = items @ (r # q2) @ take n (map sub_ref (concat (map fst ws)))"
    by auto
  with got(3) have "b @ q' = items @ q @ take (length (fst w) + n) (map sub_ref (concat (map fst (w # ws))))"
    by simp
  then show ?case by blast
qed

lemma fifo_collect_size:
  assumes "fifo_collect mx ts dl c k ws h q items = Some (h', b, q')"
  shows "length items \<le> length b \<and> int (length b) \<le> max mx (int (length items))"
  using assms by (induction rule: fifo_collect_induct) auto

text \<open>Without a window the loop takes what is there, up to the bound.\<close>

lemma fifo_collect_now:
  "fifo_collect mx 0 dl c k ws h q items =
     (let n = nat (mx - int (length items)) in Some (h, items @ take n q, drop n q))"
proof (induction q arbitrary: items)
  case Nil
  show ?case by (simp add: fifo_collect.simps)
next
  case (Cons r q)
  show ?case
  proof (cases "int (length items) < mx")
    case True
    then have "nat (mx - int (length items)) = Suc (nat (mx - int (length (items @ [r]))))" by simp
    with True show ?thesis
      by (simp add: fifo_collect.simps [of mx 0 dl c k ws h "r # q"] Cons.IH Let_def)
  next
    case False
    then show ?thesis by (simp add: fifo_collect.simps)
  qed
qed

text \<open>A run of the loop, one submission or pop at a time.\<close>

lemma fifo_collect_run:
  assumes "fifo_collect mx ts dl c k ws h q items = Some (h', b, q')"
  shows "\<exists>ops rs n. b = items @ rs \<and> run_sched fifo_pop fifo_submit ops h q = Some (h', rs, q') \<and>
    set (op_times ops) \<subseteq> range c \<and> op_subs ops = take n (concat (map fst ws))"
  using assms
proof (induction rule: fifo_collect_induct)
  case (stop k ws h q items)
  show ?case by (intro exI [of _ "[]"] exI [of _ 0]) simp
next
  case (now k ws h r q items h' b q')
  then obtain ops rs n where "b = (items @ [r]) @ rs" "run_sched fifo_pop fifo_submit ops h q = Some (h', rs, q')"
    "set (op_times ops) \<subseteq> range c" "op_subs ops = take n (concat (map fst ws))" by blast
  then show ?case
    by (intro exI [of _ "OpPop (c k) # ops"] exI [of _ "r # rs"] exI [of _ n]) simp
next
  case (fired k w ws h q items)
  show ?case
    using run_sched_submits [of fifo_pop fifo_submit "fst w" "[]" h q] op_simps [of "fst w" "[]"]
    by (intro exI [of _ "map OpSubmit (fst w)"] exI [of _ "[]"] exI [of _ "length (fst w)"]) simp
next
  case (again k w ws h q items h' b q')
  then have "fst w = []" "q = []" by simp_all
  with again show ?case by simp
next
  case (got k w ws h q items r q2 h' b q')
  then obtain ops rs n where "b = (items @ [r]) @ rs" "set (op_times ops) \<subseteq> range c"
    "run_sched fifo_pop fifo_submit ops (fst (submit_all fifo_submit (fst w) h q)) q2 = Some (h', rs, q')"
    "op_subs ops = take n (concat (map fst ws))" by blast
  with got(3) show ?case
    by (intro exI [of _ "map OpSubmit (fst w) @ OpPop (c k) # ops"] exI [of _ "r # rs"]
        exI [of _ "length (fst w) + n"]) (simp add: run_sched_submits)
qed

lemma fifo_collect_returns:
  assumes "ts = 0 \<or> (\<exists>w \<in> set ws. snd w)"
  shows "fifo_collect mx ts dl c k ws h q items \<noteq> None"
proof (cases "ts = 0")
  case True
  then show ?thesis by (simp add: fifo_collect_now Let_def)
next
  case False
  with assms have "\<exists>w \<in> set ws. snd w" by blast
  then show ?thesis
  proof (induction ws arbitrary: k h q items)
    case Nil
    then show ?case by simp
  next
    case (Cons w ws)
    show ?case
    proof (cases "int (length items) < mx \<and> \<not> dl - c k \<le> 0")
      case True
      have "\<not> snd w \<Longrightarrow> \<exists>w \<in> set ws. snd w" using Cons.prems by auto
      with Cons.IH True False show ?thesis
        by (cases "snd w") (simp_all add: fifo_collect_eqs(6) Let_def split: list.split)
    next
      case stop: False
      with False show ?thesis by (cases "int (length items) < mx") (simp_all add: fifo_collect_eqs)
    qed
  qed
qed

section \<open>next_batch\<close>

lemma fifo_next_batchE:
  assumes "fifo_next_batch mx tmo e h q = Some (h', b, q')"
  obtains r q2 h2 where "q @ map sub_ref (first_wait e) = r # q2"
    and "fifo_collect mx (of_int tmo / 1000) (clk e 0 + of_int tmo / 1000) (clk e) 1 (waits e)
      (fst (submit_all fifo_submit (first_wait e) h q)) q2 [r] = Some (h2, b, q')"
    and "h' = mark_all_started 0 (mark_clk e) b h2"
  using assms
  by (auto simp: fifo_next_batch_def case_prod_beta Let_def split: list.splits option.splits)

lemma fifo_next_batch_order:
  assumes "fifo_next_batch mx tmo e h q = Some (h', b, q')"
  shows "\<exists>n. b @ q' = q @ take n (env_subs e)"
  using assms
proof (rule fifo_next_batchE)
  fix r q2 h2
  assume r: "q @ map sub_ref (first_wait e) = r # q2"
    and "fifo_collect mx (of_int tmo / 1000) (clk e 0 + of_int tmo / 1000) (clk e) 1 (waits e)
      (fst (submit_all fifo_submit (first_wait e) h q)) q2 [r] = Some (h2, b, q')"
  from fifo_collect_order [OF this(2)] obtain n where
    "b @ q' = (r # q2) @ take n (map sub_ref (concat (map fst (waits e))))" by auto
  then have "b @ q' = q @ take (length (first_wait e) + n) (env_subs e)"
    unfolding r [symmetric] by (simp add: env_subs_def)
  then show ?thesis by blast
qed

lemma fifo_next_batch_size:
  assumes "fifo_next_batch mx tmo e h q = Some (h', b, q')"
  shows "b \<noteq> [] \<and> int (length b) \<le> max 1 mx"
  using assms by (rule fifo_next_batchE) (auto dest: fifo_collect_size)

lemma fifo_next_batch_full:
  assumes "fifo_next_batch mx 0 e h q = Some (h', b, q')"
  shows "int (length b) = min (max 1 mx) (int (length q + length (first_wait e)))"
  using assms
proof (rule fifo_next_batchE)
  fix r q2 h2
  assume r: "q @ map sub_ref (first_wait e) = r # q2"
    and "fifo_collect mx (of_int 0 / 1000) (clk e 0 + of_int 0 / 1000) (clk e) 1 (waits e)
      (fst (submit_all fifo_submit (first_wait e) h q)) q2 [r] = Some (h2, b, q')"
  then have "b = [r] @ take (nat (mx - 1)) q2" by (simp add: fifo_collect_now Let_def)
  moreover from r have "length q + length (first_wait e) = Suc (length q2)"
    by (metis length_Cons length_append length_map)
  ultimately show ?thesis by auto
qed

lemma fifo_next_batch_returns:
  assumes "q \<noteq> [] \<or> first_wait e \<noteq> []" and "tmo = 0 \<or> (\<exists>w \<in> set (waits e). snd w)"
  shows "fifo_next_batch mx tmo e h q \<noteq> None"
proof -
  from assms(1) obtain r q2 where "q @ map sub_ref (first_wait e) = r # q2"
    by (cases "q @ map sub_ref (first_wait e)") auto
  then show ?thesis
    using fifo_collect_returns [of "of_int tmo / 1000" "waits e"] assms(2)
    by (auto simp: fifo_next_batch_def case_prod_beta Let_def split: option.split)
qed

lemma fifo_next_batch_run:
  assumes "fifo_next_batch mx tmo e h q = Some (h', b, q')"
  shows "\<exists>ops h1 n. run_sched fifo_pop fifo_submit ops h q = Some (h1, b, q') \<and>
    h' = mark_all_started 0 (mark_clk e) b h1 \<and> set (op_times ops) \<subseteq> range (clk e) \<and>
    op_subs ops = take n (first_wait e @ concat (map fst (waits e)))"
  using assms
proof (rule fifo_next_batchE)
  fix r q2 h2
  assume r: "q @ map sub_ref (first_wait e) = r # q2"
    and c: "fifo_collect mx (of_int tmo / 1000) (clk e 0 + of_int tmo / 1000) (clk e) 1 (waits e)
      (fst (submit_all fifo_submit (first_wait e) h q)) q2 [r] = Some (h2, b, q')"
    and h': "h' = mark_all_started 0 (mark_clk e) b h2"
  obtain ops rs n where "b = [r] @ rs" "set (op_times ops) \<subseteq> range (clk e)"
    "run_sched fifo_pop fifo_submit ops (fst (submit_all fifo_submit (first_wait e) h q)) q2 = Some (h2, rs, q')"
    "op_subs ops = take n (concat (map fst (waits e)))"
    using fifo_collect_run [OF c] by blast
  with r h' show ?thesis
    by (intro exI [of _ "map OpSubmit (first_wait e) @ OpPop (clk e 0) # ops"] exI [of _ h2]
        exI [of _ "length (first_wait e) + n"]) (simp add: run_sched_submits)
qed

interpretation fifo_sched: stepwise_scheduler "\<lambda>q. q" fifo_size fifo_submit "\<lambda>_. True" fifo_pop fifo_next_batch
proof (unfold_locales, goal_cases)
  case (8 mx tmo e h s h' b s')
  then show ?case by (rule fifo_next_batch_run)
next
  case (11 s e tmo mx h)
  then show ?case by (rule fifo_next_batch_returns)
qed (auto simp: fifo_size_def same_identity_mark fifo_pop_def split: list.splits
  dest: fifo_next_batch_size fifo_next_batch_full)

section \<open>Properties\<close>

text \<open>With one worker slot per batch, \<open>next_batch\<close> and \<open>next_request\<close> agree.\<close>

lemma fifo_next_batch_one:
  "fifo_next_batch 1 tmo e h q =
     map_option (\<lambda>(h1, r, q1). (h1, [r], q1)) (fifo_next_request e h q)"
proof -
  have "fifo_collect 1 ts dl c k ws h1 q1 [r] = Some (h1, [r], q1)" for ts dl c k ws h1 q1 r
    by (simp add: fifo_collect_eqs)
  then show ?thesis
    by (simp add: fifo_next_batch_def fifo_next_request_def case_prod_beta Let_def split: list.split)
qed

text \<open>
  C14: FIFO order across the worker loop. However submissions and timers interleave with the
  calls, the batches a worker loop takes, laid end to end and followed by what is still queued,
  are the initial queue followed by the submissions of each round in the order they arrived: no
  request is lost, duplicated or overtaken.
\<close>

theorem fifo_serve_order:
  assumes "serve_batches fifo_next_batch mx tmo es h q = Some (h', bs, q')"
  shows "\<exists>ns. length ns = length es \<and>
    concat bs @ q' = q @ concat (map2 (\<lambda>n e. take n (env_subs e)) ns es)"
  using assms
proof (induction es arbitrary: h q bs)
  case Nil
  then show ?case by simp
next
  case (Cons e es)
  from Cons.prems obtain h1 b q1 bs' where b: "fifo_next_batch mx tmo e h q = Some (h1, b, q1)"
    and bs': "serve_batches fifo_next_batch mx tmo es h1 q1 = Some (h', bs', q')" and "bs = b # bs'"
    by (rule serve_batches_ConsE)
  obtain n where n: "b @ q1 = q @ take n (env_subs e)" using fifo_next_batch_order [OF b] by blast
  from Cons.IH [OF bs'] obtain ns where ns: "length ns = length es"
    "concat bs' @ q' = q1 @ concat (map2 (\<lambda>n e. take n (env_subs e)) ns es)" by blast
  have "concat bs @ q' = (b @ q1) @ concat (map2 (\<lambda>n e. take n (env_subs e)) ns es)"
    using \<open>bs = b # bs'\<close> ns(2) by simp
  also have "\<dots> = q @ concat (map2 (\<lambda>n e. take n (env_subs e)) (n # ns) (e # es))"
    by (simp add: n)
  finally show ?case using ns(1) by (intro exI [of _ "n # ns"]) simp
qed

lemma wit_fifo_run:
  "map_option (\<lambda>(h, bs, q). (bs, q))
     (serve_batches fifo_next_batch 2 10 [wit_env, wit_env_quiet] wit_store []) = Some ([[5, 6], [7]], [])"
  by (simp add: fifo_next_batch_def wit_env_def wit_env_quiet_def wit_sub_def fifo_collect.simps fifo_submit_def)

theorem fifo_serve_order_witness:
  "\<exists>h bs q ns. serve_batches fifo_next_batch 2 10 [wit_env, wit_env_quiet] wit_store [] = Some (h, bs, q) \<and>
     bs = [[5, 6], [7]] \<and> q = [] \<and>
     concat bs @ q = [] @ concat (map2 (\<lambda>n e. take n (env_subs e)) ns [wit_env, wit_env_quiet])"
proof -
  from wit_fifo_run obtain h bs q where
    run: "serve_batches fifo_next_batch 2 10 [wit_env, wit_env_quiet] wit_store [] = Some (h, bs, q)"
    and "bs = [[5, 6], [7]]" "q = []" by auto
  then show ?thesis using fifo_serve_order [OF run] by blast
qed

text \<open>
  Draining. With a zero collection window and no further submissions, a FIFO queue of at
  most \<open>k\<close> full batches is emptied by at most \<open>k\<close> calls of \<open>next_batch\<close>, each of which returns, and
  the batches hold exactly the queued requests.
\<close>

lemma fifo_drains:
  assumes "int (length q) \<le> int k * max 1 mx"
  shows "\<exists>j h' bs. j \<le> k \<and>
    serve_batches fifo_next_batch mx 0
      (replicate j \<lparr>first_wait = [], clk = c, waits = [], mark_clk = m\<rparr>) h q = Some (h', bs, []) \<and>
    mset (concat bs) = mset q"
  using fifo_sched.serve_drains [OF TrueI assms, of c m h] by blast

lemma fifo_drains_witness:
  "int (length [3, 1, 4 :: ref]) \<le> int 2 * max 1 2 \<and>
   (\<exists>j h' bs. j \<le> 2 \<and>
     serve_batches fifo_next_batch 2 0
      (replicate j \<lparr>first_wait = [], clk = \<lambda>_. 0, waits = [], mark_clk = \<lambda>_. 0\<rparr>) wit_store [3, 1, 4]
        = Some (h', bs, []) \<and> mset (concat bs) = mset [3, 1, 4])"
proof -
  have "int (length [3, 1, 4 :: ref]) \<le> int 2 * max 1 2" by simp
  with fifo_drains [OF this, of "\<lambda>_. 0" "\<lambda>_. 0" wit_store] show ?thesis by blast
qed

end
