(* ===== verification/Priority.thy ===== *)
theory Priority
  imports Scheduler "HOL-Library.Product_Lexorder"
begin

text \<open>
  \<open>scheduler/priority.py\<close>: the priority scheduler with optional aging. The state is the list of
  queued entries, each with the priority, sequence number and time it was given at submission,
  and the sequence counter. The condition variable's lock is free whenever a task is suspended
  in \<open>wait()\<close>, so a submission and a pop are each one step; \<open>time_fn\<close> readings come from the
  environment of the call.
\<close>

section \<open>Operations\<close>

record queued_request =
  q_priority :: int
  sequence :: int
  queued_at :: seconds
  q_item :: ref

record priority_scheduler =
  aging_boost_interval_s :: rat
  p_items :: "queued_request list"
  counter :: int

definition prio_init :: "rat \<Rightarrow> priority_scheduler" where
  "prio_init aging = \<lparr>aging_boost_interval_s = aging, p_items = [], counter = 0\<rparr>"

definition prio_submit ::
  "submission \<Rightarrow> store \<Rightarrow> priority_scheduler \<Rightarrow> store \<times> priority_scheduler" where
  "prio_submit x h s =
     (let h1 = upd_request (mark_enqueued (sub_now x)) (sub_ref x) h;
          n = counter s + 1 in
      (h1, s\<lparr>counter := n,
             p_items := p_items s @
               [\<lparr>q_priority = priority (request (h1 (sub_ref x))), sequence = n,
                 queued_at = sub_time x, q_item = sub_ref x\<rparr>]\<rparr>))"

definition effective_priority :: "rat \<Rightarrow> queued_request \<Rightarrow> seconds \<Rightarrow> int" where
  "effective_priority aging q now =
     (if aging \<le> 0 then q_priority q
      else (let waited_s = max 0 (now - queued_at q); boost = \<lfloor>waited_s / aging\<rfloor> in
        max 0 (q_priority q - boost)))"

text \<open>\<open>min(range(len(xs)), key=...)\<close>: the index of the first element with the least key;
  \<open>b\<close> is the best index so far, with key \<open>kb\<close>, and \<open>i\<close> the next one to look at.\<close>

fun best_from :: "('a \<Rightarrow> 'k::linorder) \<Rightarrow> nat \<Rightarrow> 'k \<Rightarrow> nat \<Rightarrow> 'a list \<Rightarrow> nat" where
  "best_from key b kb i [] = b"
| "best_from key b kb i (x # xs) =
     (if key x < kb then best_from key i (key x) (Suc i) xs else best_from key b kb (Suc i) xs)"

text \<open>\<open>list.pop(i)\<close> returns the element and removes it; \<open>min\<close> of an empty range raises
  \<open>ValueError\<close>, which is \<open>None\<close> here.\<close>

definition pop_next_locked ::
  "seconds \<Rightarrow> priority_scheduler \<Rightarrow> (queued_request \<times> priority_scheduler) option" where
  "pop_next_locked now s =
     (case p_items s of
        [] \<Rightarrow> None
      | q # qs \<Rightarrow>
         (let key = (\<lambda>x. (effective_priority (aging_boost_interval_s s) x now, sequence x));
              i = best_from key 0 (key q) 1 qs in
          Some (p_items s ! i, s\<lparr>p_items := take i (p_items s) @ drop (Suc i) (p_items s)\<rparr>)))"

definition prio_pop :: "seconds \<Rightarrow> priority_scheduler \<Rightarrow> (ref \<times> priority_scheduler) option" where
  "prio_pop now s = map_option (\<lambda>(x, s1). (q_item x, s1)) (pop_next_locked now s)"

definition prio_next_request ::
  "batch_env \<Rightarrow> store \<Rightarrow> priority_scheduler \<Rightarrow> (store \<times> ref \<times> priority_scheduler) option" where
  "prio_next_request e h s =
     (case submit_all prio_submit (first_wait e) h s of (h1, s1) \<Rightarrow>
      case pop_next_locked (clk e 0) s1 of
        None \<Rightarrow> None
      | Some (x, s2) \<Rightarrow>
          Some (upd_request (mark_started (mark_clk e 0)) (q_item x) h1, q_item x, s2))"

text \<open>The collection loop; \<open>k\<close> counts the \<open>time_fn\<close> readings of the call.\<close>

function prio_collect ::
  "int \<Rightarrow> rat \<Rightarrow> seconds \<Rightarrow> (nat \<Rightarrow> seconds) \<Rightarrow> nat \<Rightarrow> (submission list \<times> bool) list \<Rightarrow>
   store \<Rightarrow> priority_scheduler \<Rightarrow> ref list \<Rightarrow> (store \<times> ref list \<times> priority_scheduler) option"
where
  "prio_collect mx timeout_s deadline c k ws h s items =
     (if int (length items) < mx then
        (case pop_next_locked (c k) s of
           Some (x, s1) \<Rightarrow>
             prio_collect mx timeout_s deadline c (Suc k) ws h s1 (items @ [q_item x])
         | None \<Rightarrow>
            (if timeout_s = 0 then Some (h, items, s)
             else if deadline - c k \<le> 0 then Some (h, items, s)
             else
               (case ws of
                  [] \<Rightarrow> None
                | w # ws1 \<Rightarrow>
                   (case submit_all prio_submit (fst w) h s of (h1, s1) \<Rightarrow>
                      if snd w then Some (h1, items, s1)
                      else prio_collect mx timeout_s deadline c (Suc k) ws1 h1 s1 items))))
      else Some (h, items, s))"
  by pat_completeness auto
termination
  by (relation "measure (\<lambda>(mx, ts, dl, c, k, ws, h, s, items).
        nat (mx - int (length items)) + length ws)") auto

declare prio_collect.simps [simp del]

definition prio_next_batch ::
  "int \<Rightarrow> int \<Rightarrow> batch_env \<Rightarrow> store \<Rightarrow> priority_scheduler \<Rightarrow>
   (store \<times> ref list \<times> priority_scheduler) option" where
  "prio_next_batch max_batch_size batch_timeout_ms e h s =
     (case submit_all prio_submit (first_wait e) h s of (h1, s1) \<Rightarrow>
      case pop_next_locked (clk e 0) s1 of
        None \<Rightarrow> None
      | Some (first, s2) \<Rightarrow>
         (let timeout_s = of_int batch_timeout_ms / 1000;
              deadline = clk e 1 + timeout_s in
          case prio_collect max_batch_size timeout_s deadline (clk e) 2 (waits e) h1 s2
                 [q_item first] of
            None \<Rightarrow> None
          | Some (h2, items, s3) \<Rightarrow> Some (mark_all_started 0 (mark_clk e) items h2, items, s3)))"

definition prio_size :: "priority_scheduler \<Rightarrow> nat" where
  "prio_size s = length (p_items s)"

lemma prio_pop_Some: "pop_next_locked now s = Some (x, s') \<Longrightarrow> prio_pop now s = Some (q_item x, s')"
  by (simp add: prio_pop_def)

lemma prio_popE:
  assumes "prio_pop now s = Some (r, s')"
  obtains x where "pop_next_locked now s = Some (x, s')" and "r = q_item x"
  using assms by (auto simp: prio_pop_def)

section \<open>The least key\<close>

lemma best_from_spec:
  assumes "b < i" "i = length pre" "kb = key (pre ! b)"
    and "\<forall>j < i. kb \<le> key (pre ! j)" "\<forall>j < b. kb < key (pre ! j)"
  shows "let m = best_from key b kb i xs; all = pre @ xs in
    m < length all \<and> (\<forall>j < length all. key (all ! m) \<le> key (all ! j)) \<and>
    (\<forall>j < m. key (all ! m) < key (all ! j))"
  using assms
proof (induction key b kb i xs arbitrary: pre rule: best_from.induct)
  case (1 key b kb i)
  then show ?case by (simp add: Let_def)
next
  case (2 key b kb i x xs)
  have old: "(pre @ [x]) ! j = pre ! j" if "j < i" for j using that 2(4) by (simp add: nth_append)
  have new: "(pre @ [x]) ! i = x" using 2(4) by (simp add: nth_append)
  show ?case
  proof (cases "key x < kb")
    case True
    have lt: "\<forall>j < i. key x < key ((pre @ [x]) ! j)"
      using 2(6) True old by (metis less_le_trans)
    then have "\<forall>j < Suc i. key x \<le> key ((pre @ [x]) ! j)"
      using new by (metis less_antisym less_imp_le order_refl)
    from 2(1) [OF True _ _ _ this lt] True 2(4) new show ?thesis by (simp add: Let_def)
  next
    case False
    have kb: "kb = key ((pre @ [x]) ! b)" using 2(3,5) old by simp
    have "\<forall>j < Suc i. kb \<le> key ((pre @ [x]) ! j)"
      using 2(6) False old new by (metis less_antisym not_less)
    moreover have "\<forall>j < b. kb < key ((pre @ [x]) ! j)" using 2(3,7) old by simp
    ultimately show ?thesis
      using 2(2) [OF False _ _ kb] False 2(3,4) by (simp add: Let_def)
  qed
qed

text \<open>The key of an entry at a given time, and what a pop returns.\<close>

definition entry_key :: "rat \<Rightarrow> seconds \<Rightarrow> queued_request \<Rightarrow> int \<times> int" where
  "entry_key aging now x = (effective_priority aging x now, sequence x)"

lemma pop_next_locked_None [simp]: "pop_next_locked now s = None \<longleftrightarrow> p_items s = []"
  by (simp add: pop_next_locked_def Let_def split: list.split)

lemma pop_next_lockedE:
  assumes "pop_next_locked now s = Some (x, s')"
  obtains ys zs where "p_items s = ys @ x # zs" and "s' = s\<lparr>p_items := ys @ zs\<rparr>"
    and "\<forall>y \<in> set (ys @ x # zs).
      entry_key (aging_boost_interval_s s) now x \<le> entry_key (aging_boost_interval_s s) now y"
    and "\<forall>y \<in> set ys.
      entry_key (aging_boost_interval_s s) now x < entry_key (aging_boost_interval_s s) now y"
proof (cases "p_items s")
  case Nil
  with assms have False by (simp add: pop_next_locked_def)
  then show ?thesis ..
next
  case (Cons q qs)
  let ?key = "entry_key (aging_boost_interval_s s) now" and ?xs = "p_items s"
  define i where "i = best_from ?key 0 (?key q) 1 qs"
  have spec: "i < length ?xs" "\<forall>j < length ?xs. ?key (?xs ! i) \<le> ?key (?xs ! j)"
    "\<forall>j < i. ?key (?xs ! i) < ?key (?xs ! j)"
    using best_from_spec [of 0 1 "[q]" "?key q" ?key qs] Cons by (simp_all add: Let_def i_def)
  have *: "x = ?xs ! i" "s' = s\<lparr>p_items := take i ?xs @ drop (Suc i) ?xs\<rparr>"
    using assms Cons unfolding i_def
    by (simp_all add: pop_next_locked_def entry_key_def [abs_def] Let_def)
  have split: "?xs = take i ?xs @ x # drop (Suc i) ?xs"
    using spec(1) *(1) by (simp add: id_take_nth_drop)
  have le: "\<forall>y \<in> set ?xs. ?key x \<le> ?key y"
    using spec(2) *(1) by (auto simp: in_set_conv_nth)
  have lt: "\<forall>y \<in> set (take i ?xs). ?key x < ?key y"
    using spec(3) *(1) by (auto simp: in_set_conv_nth)
  show ?thesis using that [OF split *(2) _ lt] le split by simp
qed

section \<open>Invariant\<close>

text \<open>Entries are queued in the order of their sequence numbers, none above the counter.\<close>

definition prio_inv :: "priority_scheduler \<Rightarrow> bool" where
  "prio_inv s \<longleftrightarrow> sorted_wrt (<) (map sequence (p_items s)) \<and>
     (\<forall>x \<in> set (p_items s). sequence x \<le> counter s)"

abbreviation prio_contents :: "priority_scheduler \<Rightarrow> ref list" where
  "prio_contents s \<equiv> map q_item (p_items s)"

lemma prio_init_inv: "prio_inv (prio_init a)"
  by (simp add: prio_inv_def prio_init_def)

lemma prio_submit_inv: "prio_inv s \<Longrightarrow> prio_inv (snd (prio_submit x h s))"
  by (fastforce simp: prio_inv_def prio_submit_def Let_def sorted_wrt_append)

lemma prio_submit_simps [simp]:
  "prio_contents (snd (prio_submit x h s)) = prio_contents s @ [sub_ref x]"
  "fst (prio_submit x h s) = upd_request (mark_enqueued (sub_now x)) (sub_ref x) h"
  "aging_boost_interval_s (snd (prio_submit x h s)) = aging_boost_interval_s s"
  by (simp_all add: prio_submit_def Let_def)

lemma pop_inv:
  assumes "prio_inv s" and "pop_next_locked now s = Some (x, s')" shows "prio_inv s'"
  using assms(2)
proof (rule pop_next_lockedE)
  fix ys zs assume "p_items s = ys @ x # zs" "s' = s\<lparr>p_items := ys @ zs\<rparr>"
  with assms(1) show ?thesis by (auto simp: prio_inv_def sorted_wrt_append)
qed

lemma pop_mset:
  assumes "pop_next_locked now s = Some (x, s')"
  shows "mset (p_items s) = add_mset x (mset (p_items s'))"
  using assms by (rule pop_next_lockedE) simp

lemma pop_config:
  assumes "pop_next_locked now s = Some (x, s')"
  shows "aging_boost_interval_s s' = aging_boost_interval_s s" "counter s' = counter s"
  using assms by (auto elim: pop_next_lockedE)

lemma pop_least:
  assumes "pop_next_locked now s = Some (x, s')" and "y \<in> set (p_items s)"
  shows "entry_key (aging_boost_interval_s s) now x \<le> entry_key (aging_boost_interval_s s) now y"
  using assms(1) by (rule pop_next_lockedE) (use assms(2) in \<open>simp only:\<close>)

lemma prio_submit_all_contents [simp]:
  "prio_contents (snd (submit_all prio_submit xs h s)) = prio_contents s @ map sub_ref xs"
  by (induction xs arbitrary: h s) (simp_all add: sched_simps del: submit_all.simps(2))

lemma prio_submit_all_mset [simp]:
  "image_mset q_item (mset (p_items (snd (submit_all prio_submit xs h s)))) =
     image_mset q_item (mset (p_items s)) + image_mset sub_ref (mset xs)"
  by (metis mset_append mset_map prio_submit_all_contents)

lemma prio_submit_all_length [simp]:
  "length (p_items (snd (submit_all prio_submit xs h s))) = length (p_items s) + length xs"
  by (metis length_append length_map prio_submit_all_contents)

lemma prio_submit_all_inv: "prio_inv s \<Longrightarrow> prio_inv (snd (submit_all prio_submit xs h s))"
  by (induction xs arbitrary: h s) (simp_all add: sched_simps prio_submit_inv del: submit_all.simps(2))

lemma prio_submit_all_store: "same_identity h (fst (submit_all prio_submit xs h s))"
proof (induction xs arbitrary: h s)
  case Nil
  then show ?case by simp
next
  case (Cons x xs)
  have "same_identity h (fst (prio_submit x h s))" by (auto intro: same_identity_mark)
  also have "same_identity \<dots> (fst (submit_all prio_submit xs (fst (prio_submit x h s)) (snd (prio_submit x h s))))"
    by (rule Cons.IH)
  finally show ?case by (simp add: sched_simps del: submit_all.simps(2))
qed

section \<open>The collection loop\<close>

lemma prio_collect_eqs:
  "\<not> int (length items) < mx \<Longrightarrow> prio_collect mx ts dl c k ws h s items = Some (h, items, s)"
  "int (length items) < mx \<Longrightarrow> pop_next_locked (c k) s = Some (x, s1) \<Longrightarrow>
    prio_collect mx ts dl c k ws h s items =
      prio_collect mx ts dl c (Suc k) ws h s1 (items @ [q_item x])"
  "p_items s = [] \<Longrightarrow> ts = 0 \<or> dl - c k \<le> 0 \<Longrightarrow>
    prio_collect mx ts dl c k ws h s items = Some (h, items, s)"
  "int (length items) < mx \<Longrightarrow> p_items s = [] \<Longrightarrow> ts \<noteq> 0 \<Longrightarrow> \<not> dl - c k \<le> 0 \<Longrightarrow>
    prio_collect mx ts dl c k [] h s items = None"
  "int (length items) < mx \<Longrightarrow> p_items s = [] \<Longrightarrow> ts \<noteq> 0 \<Longrightarrow> \<not> dl - c k \<le> 0 \<Longrightarrow>
    prio_collect mx ts dl c k (w # ws) h s items =
      (let (h1, s1) = submit_all prio_submit (fst w) h s in
       if snd w then Some (h1, items, s1)
       else prio_collect mx ts dl c (Suc k) ws h1 s1 items)"
  using pop_next_locked_None [of "c k" s]
  by (auto simp: prio_collect.simps [of mx ts dl c k _ h s items] case_prod_beta Let_def
      simp del: pop_next_locked_None split: option.split)

text \<open>
  One iteration of a run that finishes: it stops, pops the best entry, gives up on a timer, or
  is woken and looks again.
\<close>

lemma prio_collect_cases:
  assumes "prio_collect mx ts dl c k ws h s items = Some (h', b, s')"
  obtains (stop) "\<not> int (length items) < mx \<or> p_items s = []" "h' = h" "b = items" "s' = s"
  | (pop) x s1 where "int (length items) < mx" "pop_next_locked (c k) s = Some (x, s1)"
      "prio_collect mx ts dl c (Suc k) ws h s1 (items @ [q_item x]) = Some (h', b, s')"
  | (fired) w ws1 where "int (length items) < mx" "p_items s = []" "ts \<noteq> 0" "ws = w # ws1"
      "submit_all prio_submit (fst w) h s = (h', s')" "b = items"
  | (woken) w ws1 where "int (length items) < mx" "p_items s = []" "ts \<noteq> 0" "ws = w # ws1"
      "prio_collect mx ts dl c (Suc k) ws1 (fst (submit_all prio_submit (fst w) h s))
         (snd (submit_all prio_submit (fst w) h s)) items = Some (h', b, s')"
proof -
  consider (full) "\<not> int (length items) < mx"
    | (some) x s1 where "int (length items) < mx" "pop_next_locked (c k) s = Some (x, s1)"
    | (over) "int (length items) < mx" "p_items s = []" "ts = 0 \<or> dl - c k \<le> 0"
    | (window) "int (length items) < mx" "p_items s = []" "ts \<noteq> 0" "\<not> dl - c k \<le> 0"
    using pop_next_locked_None [of "c k" s] by (cases "pop_next_locked (c k) s") auto
  then show thesis
  proof cases
    case full
    with assms show thesis by (intro stop) (simp_all add: prio_collect_eqs)
  next
    case some
    with assms show thesis by (intro pop) (simp_all add: prio_collect_eqs)
  next
    case over
    with assms show thesis by (intro stop) (simp_all add: prio_collect_eqs)
  next
    case window
    show thesis
    proof (cases ws)
      case Nil
      with assms window show thesis by (simp add: prio_collect_eqs)
    next
      case (Cons w ws1)
      with assms window fired [OF window(1-3) Cons] woken [OF window(1-3) Cons] show thesis
        by (cases "snd w") (simp_all add: prio_collect_eqs(5) case_prod_beta prod_eq_iff)
    qed
  qed
qed

lemma prio_collect_induct [consumes 1, case_names stop pop fired woken]:
  assumes "prio_collect mx ts dl c k ws h s items = Some (h', b, s')"
    and "\<And>k ws h s items. \<not> int (length items) < mx \<or> p_items s = [] \<Longrightarrow>
      P k ws h s items h items s"
    and "\<And>k ws h s items x s1 h' b s'. int (length items) < mx \<Longrightarrow>
      pop_next_locked (c k) s = Some (x, s1) \<Longrightarrow>
      P (Suc k) ws h s1 (items @ [q_item x]) h' b s' \<Longrightarrow> P k ws h s items h' b s'"
    and "\<And>k w ws h s items. int (length items) < mx \<Longrightarrow> p_items s = [] \<Longrightarrow> ts \<noteq> 0 \<Longrightarrow>
      P k (w # ws) h s items (fst (submit_all prio_submit (fst w) h s)) items
        (snd (submit_all prio_submit (fst w) h s))"
    and "\<And>k w ws h s items h' b s'. int (length items) < mx \<Longrightarrow> p_items s = [] \<Longrightarrow> ts \<noteq> 0 \<Longrightarrow>
      P (Suc k) ws (fst (submit_all prio_submit (fst w) h s))
        (snd (submit_all prio_submit (fst w) h s)) items h' b s' \<Longrightarrow> P k (w # ws) h s items h' b s'"
  shows "P k ws h s items h' b s'"
  using assms(1)
proof (induction "nat (mx - int (length items)) + length ws" arbitrary: k ws h s items
    rule: less_induct)
  case less
  from less.prems show ?case
  proof (cases rule: prio_collect_cases)
    case stop
    then show ?thesis using assms(2) by simp
  next
    case (pop x s1)
    show ?thesis by (rule assms(3) [OF pop(1,2)], rule less.hyps [OF _ pop(3)]) (use pop(1) in simp)
  next
    case (fired w ws1)
    then show ?thesis using assms(4) [OF fired(1-3), of k w ws1 h] by simp
  next
    case (woken w ws1)
    show ?thesis unfolding woken(4)
      by (rule assms(5) [OF woken(1-3)], rule less.hyps [OF _ woken(5)]) (simp add: woken(4))
  qed
qed

lemma prio_collect_size:
  assumes "prio_collect mx ts dl c k ws h s items = Some (h', b, s')"
  shows "length items \<le> length b \<and> int (length b) \<le> max mx (int (length items))"
  using assms by (induction rule: prio_collect_induct) auto

text \<open>A run of the loop, one submission or pop at a time.\<close>

lemma prio_collect_run:
  assumes "prio_collect mx ts dl c k ws h s items = Some (h', b, s')"
  shows "\<exists>ops rs n. b = items @ rs \<and> run_sched prio_pop prio_submit ops h s = Some (h', rs, s') \<and>
    set (op_times ops) \<subseteq> range c \<and> op_subs ops = take n (concat (map fst ws))"
  using assms
proof (induction rule: prio_collect_induct)
  case (stop k ws h s items)
  show ?case by (intro exI [of _ "[]"] exI [of _ 0]) simp
next
  case (pop k ws h s items x s1 h' b s')
  then obtain ops rs n where "b = (items @ [q_item x]) @ rs" "run_sched prio_pop prio_submit ops h s1 = Some (h', rs, s')"
    "set (op_times ops) \<subseteq> range c" "op_subs ops = take n (concat (map fst ws))" by blast
  with pop(2) show ?case
    by (intro exI [of _ "OpPop (c k) # ops"] exI [of _ "q_item x # rs"] exI [of _ n]) (simp add: prio_pop_Some)
next
  case (fired k w ws h s items)
  show ?case
    using run_sched_submits [of prio_pop prio_submit "fst w" "[]" h s] op_simps [of "fst w" "[]"]
    by (intro exI [of _ "map OpSubmit (fst w)"] exI [of _ "[]"] exI [of _ "length (fst w)"]) simp
next
  case (woken k w ws h s items h' b s')
  then obtain ops rs n where "b = items @ rs" "set (op_times ops) \<subseteq> range c"
    "run_sched prio_pop prio_submit ops (fst (submit_all prio_submit (fst w) h s))
       (snd (submit_all prio_submit (fst w) h s)) = Some (h', rs, s')"
    "op_subs ops = take n (concat (map fst ws))" by blast
  then show ?case
    by (intro exI [of _ "map OpSubmit (fst w) @ ops"] exI [of _ rs] exI [of _ "length (fst w) + n"])
      (simp add: run_sched_submits)
qed

lemma prio_collect_now:
  assumes "prio_collect mx 0 dl c k ws h s items = Some (h', b, s')"
  shows "int (length b) = max (int (length items)) (min mx (int (length items + length (p_items s))))"
  using assms
proof (induction rule: prio_collect_induct)
  case (pop k ws h s items x s1 h' b s')
  have "length (p_items s) = Suc (length (p_items s1))"
    using arg_cong [OF pop_mset [OF pop(2)], of size] by simp
  with pop show ?case by auto
qed auto

lemma prio_collect_returns:
  assumes "ts = 0 \<or> (\<exists>w \<in> set ws. snd w)"
  shows "prio_collect mx ts dl c k ws h s items \<noteq> None"
  using assms
proof (induction "nat (mx - int (length items)) + length ws" arbitrary: k ws h s items
    rule: less_induct)
  case less
  consider (full) "\<not> int (length items) < mx"
    | (some) x s1 where "int (length items) < mx" "pop_next_locked (c k) s = Some (x, s1)"
    | (over) "p_items s = []" "ts = 0 \<or> dl - c k \<le> 0"
    | (window) "int (length items) < mx" "p_items s = []" "ts \<noteq> 0" "\<not> dl - c k \<le> 0"
    using pop_next_locked_None [of "c k" s] by (cases "pop_next_locked (c k) s") auto
  then show ?case
  proof cases
    case (some x s1)
    with less show ?thesis by (simp add: prio_collect_eqs(2))
  next
    case window
    with less.prems obtain w ws1 where ws: "ws = w # ws1" by (cases ws) auto
    with window less.prems have "\<not> snd w \<Longrightarrow> ts = 0 \<or> (\<exists>w \<in> set ws1. snd w)" by auto
    with window ws less.hyps [of items ws1] show ?thesis
      by (cases "snd w") (simp_all add: prio_collect_eqs(5) case_prod_beta)
  qed (simp_all add: prio_collect_eqs)
qed

section \<open>next_batch\<close>

lemma prio_next_batchE:
  assumes "prio_next_batch mx tmo e h s = Some (h', b, s')"
  obtains x s2 h2 where
    "pop_next_locked (clk e 0) (snd (submit_all prio_submit (first_wait e) h s)) = Some (x, s2)"
    and "prio_collect mx (of_int tmo / 1000) (clk e 1 + of_int tmo / 1000) (clk e) 2 (waits e)
      (fst (submit_all prio_submit (first_wait e) h s)) s2 [q_item x] = Some (h2, b, s')"
    and "h' = mark_all_started 0 (mark_clk e) b h2"
  using assms
  by (auto simp: prio_next_batch_def case_prod_beta Let_def split: option.splits)

lemma prio_next_batch_size:
  assumes "prio_next_batch mx tmo e h s = Some (h', b, s')"
  shows "b \<noteq> [] \<and> int (length b) \<le> max 1 mx"
  using assms by (rule prio_next_batchE) (auto dest: prio_collect_size)

lemma prio_next_batch_full:
  assumes "prio_next_batch mx 0 e h s = Some (h', b, s')"
  shows "int (length b) = min (max 1 mx) (int (length (prio_contents s) + length (first_wait e)))"
  using assms
proof (rule prio_next_batchE)
  fix x s2 h2
  let ?s = "snd (submit_all prio_submit (first_wait e) h s)"
  assume p: "pop_next_locked (clk e 0) ?s = Some (x, s2)"
    and c: "prio_collect mx (of_int 0 / 1000) (clk e 1 + of_int 0 / 1000) (clk e) 2 (waits e)
      (fst (submit_all prio_submit (first_wait e) h s)) s2 [q_item x] = Some (h2, b, s')"
  have "length (prio_contents s) + length (first_wait e) = Suc (length (p_items s2))"
    using arg_cong [OF pop_mset [OF p], of size] by simp
  with c show ?thesis by (auto dest!: prio_collect_now)
qed

lemma prio_next_batch_returns:
  assumes "prio_contents s \<noteq> [] \<or> first_wait e \<noteq> []" and "tmo = 0 \<or> (\<exists>w \<in> set (waits e). snd w)"
  shows "prio_next_batch mx tmo e h s \<noteq> None"
proof -
  let ?s = "snd (submit_all prio_submit (first_wait e) h s)"
  have "p_items ?s \<noteq> []"
    using assms(1) prio_submit_all_length [of "first_wait e" h s] by (metis add_is_0 length_0_conv map_is_Nil_conv)
  then obtain x s2 where "pop_next_locked (clk e 0) ?s = Some (x, s2)"
    using pop_next_locked_None [of "clk e 0" ?s] by (cases "pop_next_locked (clk e 0) ?s") auto
  then show ?thesis
    using prio_collect_returns [of "of_int tmo / 1000" "waits e"] assms(2)
    by (auto simp: prio_next_batch_def case_prod_beta Let_def split: option.split)
qed

lemma prio_next_batch_run:
  assumes "prio_next_batch mx tmo e h s = Some (h', b, s')"
  shows "\<exists>ops h1 n. run_sched prio_pop prio_submit ops h s = Some (h1, b, s') \<and>
    h' = mark_all_started 0 (mark_clk e) b h1 \<and> set (op_times ops) \<subseteq> range (clk e) \<and>
    op_subs ops = take n (first_wait e @ concat (map fst (waits e)))"
  using assms
proof (rule prio_next_batchE)
  fix x s2 h2
  assume p: "pop_next_locked (clk e 0) (snd (submit_all prio_submit (first_wait e) h s)) = Some (x, s2)"
    and c: "prio_collect mx (of_int tmo / 1000) (clk e 1 + of_int tmo / 1000) (clk e) 2 (waits e)
      (fst (submit_all prio_submit (first_wait e) h s)) s2 [q_item x] = Some (h2, b, s')"
    and h': "h' = mark_all_started 0 (mark_clk e) b h2"
  obtain ops rs n where "b = [q_item x] @ rs" "set (op_times ops) \<subseteq> range (clk e)"
    "run_sched prio_pop prio_submit ops (fst (submit_all prio_submit (first_wait e) h s)) s2 = Some (h2, rs, s')"
    "op_subs ops = take n (concat (map fst (waits e)))"
    using prio_collect_run [OF c] by blast
  with p h' show ?thesis
    by (intro exI [of _ "map OpSubmit (first_wait e) @ OpPop (clk e 0) # ops"] exI [of _ h2]
        exI [of _ "length (first_wait e) + n"]) (simp add: run_sched_submits prio_pop_Some)
qed

interpretation prio_sched:
  stepwise_scheduler prio_contents prio_size prio_submit prio_inv prio_pop prio_next_batch
proof (unfold_locales, goal_cases)
  case (2 x h s)
  show ?case unfolding prio_submit_simps(1) by simp
next
  case (5 t s)
  show ?case by (simp add: prio_pop_def)
next
  case (6 t s r s')
  then show ?case by (auto elim!: prio_popE dest!: pop_mset)
next
  case (7 t s r s')
  then show ?case by (auto elim!: prio_popE intro: pop_inv)
next
  case (8 mx tmo e h s h' b s')
  then show ?case by (rule prio_next_batch_run)
next
  case (10 mx e h s h' b s')
  then show ?case by (rule prio_next_batch_full)
next
  case (11 s e tmo mx h)
  then show ?case by (rule prio_next_batch_returns)
qed (auto simp: prio_size_def same_identity_mark prio_submit_inv dest: prio_next_batch_size)

section \<open>Order without aging\<close>

lemma strict_key:
  "aging \<le> 0 \<Longrightarrow> entry_key aging now x = (q_priority x, sequence x)"
  by (simp add: entry_key_def effective_priority_def)

lemma sort_key_pop_front:
  assumes "\<forall>y \<in> set ys. f x < f y" and "\<forall>z \<in> set zs. f x \<le> f z"
  shows "sort_key f (ys @ x # zs) = x # sort_key f (ys @ zs)"
proof (rule properties_for_sort_key)
  show "mset (x # sort_key f (ys @ zs)) = mset (ys @ x # zs)" by simp
  show "sorted (map f (x # sort_key f (ys @ zs)))"
    using assms by (auto intro: less_imp_le)
  fix k
  have "filter (\<lambda>y. f k = f y) (sort_key f (ys @ zs)) = filter (\<lambda>y. f k = f y) (ys @ zs)"
    using sort_key_stable [of f "f k" "ys @ zs"] by (simp add: eq_commute)
  moreover have "f k = f x \<Longrightarrow> filter (\<lambda>y. f k = f y) ys = []"
    using assms(1) by (auto simp: filter_empty_conv)
  ultimately show "filter (\<lambda>y. f k = f y) (x # sort_key f (ys @ zs))
      = filter (\<lambda>y. f k = f y) (ys @ x # zs)" by (cases "f k = f x") simp_all
qed

lemma pop_strict:
  assumes "prio_inv s" "aging_boost_interval_s s \<le> 0" "pop_next_locked now s = Some (x, s')"
  shows "sort_key q_priority (p_items s) = x # sort_key q_priority (p_items s')"
  using assms(3)
proof (rule pop_next_lockedE)
  fix ys zs
  assume s: "p_items s = ys @ x # zs" "s' = s\<lparr>p_items := ys @ zs\<rparr>"
    and le: "\<forall>y \<in> set (ys @ x # zs). entry_key (aging_boost_interval_s s) now x
      \<le> entry_key (aging_boost_interval_s s) now y"
    and lt: "\<forall>y \<in> set ys. entry_key (aging_boost_interval_s s) now x
      < entry_key (aging_boost_interval_s s) now y"
  have older: "\<forall>y \<in> set ys. sequence y < sequence x"
    using assms(1) s(1) by (auto simp: prio_inv_def sorted_wrt_append)
  have "\<forall>y \<in> set ys. q_priority x < q_priority y"
    using lt older assms(2) by (fastforce simp: strict_key)
  moreover have "\<forall>z \<in> set zs. q_priority x \<le> q_priority z"
  proof
    fix z assume "z \<in> set zs"
    then have "entry_key (aging_boost_interval_s s) now x \<le> entry_key (aging_boost_interval_s s) now z"
      using le by simp
    then show "q_priority x \<le> q_priority z" using assms(2) by (auto simp: strict_key)
  qed
  ultimately show ?thesis unfolding s by (simp add: sort_key_pop_front)
qed

lemma prio_collect_strict:
  assumes "prio_collect mx 0 dl c k ws h s items = Some (h', b, s')"
    and "prio_inv s" "aging_boost_interval_s s \<le> 0"
  shows "b @ map q_item (sort_key q_priority (p_items s'))
    = items @ map q_item (sort_key q_priority (p_items s))"
  using assms
proof (induction rule: prio_collect_induct)
  case (pop k ws h s items x s1 h' b s')
  then show ?case using pop_strict [OF pop(4,5,2)] pop_inv [OF pop(4,2)] pop_config [OF pop(2)] by simp
qed simp_all

section \<open>Order with aging\<close>

lemma effective_priority_nonneg: "0 < aging \<Longrightarrow> 0 \<le> effective_priority aging x now"
  by (simp add: effective_priority_def Let_def)

text \<open>An entry that has waited one interval per priority level has reached the top level.\<close>

lemma effective_priority_aged:
  assumes "0 < aging" and "of_int (q_priority x) * aging \<le> now - queued_at x"
  shows "effective_priority aging x now = 0"
proof -
  have "of_int (q_priority x) \<le> max 0 (now - queued_at x) / aging"
    using assms by (simp add: field_simps)
  then have "q_priority x \<le> \<lfloor>max 0 (now - queued_at x) / aging\<rfloor>" by (simp add: le_floor_iff)
  then show ?thesis using assms(1) by (simp add: effective_priority_def Let_def)
qed

lemma effective_priority_mono:
  assumes "q_priority x \<le> q_priority y" and "queued_at x \<le> queued_at y"
  shows "effective_priority aging x now \<le> effective_priority aging y now"
proof (cases "aging \<le> 0")
  case True
  with assms show ?thesis by (simp add: effective_priority_def)
next
  case False
  have "max 0 (now - queued_at y) / aging \<le> max 0 (now - queued_at x) / aging"
    using assms(2) False by (intro divide_right_mono) auto
  from floor_mono [OF this] assms(1) False show ?thesis
    by (simp add: effective_priority_def Let_def)
qed

lemma pop_beats_young:
  assumes "pop_next_locked now s = Some (x, s')" and "y \<in> set (p_items s)" "0 < aging_boost_interval_s s"
    and aged: "effective_priority (aging_boost_interval_s s) y now = 0"
  shows "sequence x \<le> sequence y"
proof -
  have "entry_key (aging_boost_interval_s s) now x \<le> entry_key (aging_boost_interval_s s) now y"
    using assms(1,2) by (rule pop_least)
  then show ?thesis
    using aged effective_priority_nonneg [OF assms(3), of x now]
    by (auto simp: entry_key_def less_eq_prod_def)
qed

definition ahead_of :: "queued_request \<Rightarrow> priority_scheduler \<Rightarrow> nat" where
  "ahead_of q s = length (filter (\<lambda>x. sequence x < sequence q) (p_items s))"

lemma ahead_of_pop:
  assumes "pop_next_locked now s = Some (x, s')"
  shows "ahead_of q s = (if sequence x < sequence q then 1 else 0) + ahead_of q s'"
  using assms by (rule pop_next_lockedE) (simp add: ahead_of_def)

lemma sequence_inj:
  assumes "prio_inv s" "x \<in> set (p_items s)" "y \<in> set (p_items s)" "sequence x = sequence y"
  shows "x = y"
  using assms by (auto simp: prio_inv_def strict_sorted_iff distinct_map dest: inj_onD)

lemma prio_run_aging:
  assumes "run_sched prio_pop prio_submit ops h s = Some (h', rs, s')"
  shows "aging_boost_interval_s s' = aging_boost_interval_s s"
  using assms by (induction rule: run_sched_induct) (auto elim!: prio_popE simp: pop_config)

text \<open>A run either serves an aged request or takes only older ones.\<close>

lemma prio_run_serves:
  assumes "run_sched prio_pop prio_submit ops h s = Some (h', rs, s')"
    and "prio_inv s" "0 < aging_boost_interval_s s" "q \<in> set (p_items s)"
    and "\<forall>t \<in> set (op_times ops). of_int (q_priority q) * aging_boost_interval_s s \<le> t - queued_at q"
  shows "q_item q \<in> set rs \<or> q \<in> set (p_items s') \<and> ahead_of q s' + length rs \<le> ahead_of q s"
  using assms
proof (induction rule: run_sched_induct)
  case (finished h s)
  then show ?case by simp
next
  case (submitted x ops h s h' rs s')
  let ?s1 = "snd (prio_submit x h s)"
  have "sequence q \<le> counter s" using submitted(2,4) by (simp add: prio_inv_def)
  then have "ahead_of q ?s1 = ahead_of q s" "q \<in> set (p_items ?s1)"
    using submitted(4) by (simp_all add: ahead_of_def prio_submit_def Let_def)
  with submitted show ?case by (simp add: prio_submit_inv)
next
  case (popped t ops h s r s1 h' rs s')
  obtain x where p: "pop_next_locked t s = Some (x, s1)" and r: "r = q_item x"
    using popped(1) by (rule prio_popE)
  show ?case
  proof (cases "x = q")
    case True
    with r show ?thesis by simp
  next
    case False
    have aged: "effective_priority (aging_boost_interval_s s) q t = 0"
      using popped(4,6) by (intro effective_priority_aged) auto
    have "sequence x \<noteq> sequence q" using sequence_inj [OF popped(3) _ popped(5)] False pop_mset [OF p]
      by (metis set_mset_mset union_iff insert_iff set_mset_add_mset_insert)
    with pop_beats_young [OF p popped(5,4) aged] have "sequence x < sequence q" by simp
    then have "ahead_of q s = Suc (ahead_of q s1)" using ahead_of_pop [OF p, of q] by simp
    moreover have "q \<in> set (p_items s1)"
      using popped(5) False pop_mset [OF p] by (metis insert_iff set_mset_add_mset_insert set_mset_mset)
    ultimately show ?thesis
      using popped(2) popped(3-) pop_inv [OF popped(3) p] pop_config(1) [OF p] by auto
  qed
qed

lemma prio_rounds_serve:
  assumes "serve_batches prio_next_batch mx tmo es h s = Some (h', bs, s')"
    and "prio_inv s" "0 < aging_boost_interval_s s" "q \<in> set (p_items s)"
    and "\<forall>e \<in> set es. \<forall>k. of_int (q_priority q) * aging_boost_interval_s s \<le> clk e k - queued_at q"
  shows "q_item q \<in> set (concat bs) \<or> ahead_of q s' + length es \<le> ahead_of q s"
  using assms
proof (induction es arbitrary: h s bs)
  case Nil
  then show ?case by simp
next
  case (Cons e es)
  from Cons.prems(1) obtain h1 b s1 bs' where b: "prio_next_batch mx tmo e h s = Some (h1, b, s1)"
    and bs': "serve_batches prio_next_batch mx tmo es h1 s1 = Some (h', bs', s')" and "bs = b # bs'"
    by (rule serve_batches_ConsE)
  obtain ops h2 where run: "run_sched prio_pop prio_submit ops h s = Some (h2, b, s1)"
    and "set (op_times ops) \<subseteq> range (clk e)" using prio_next_batch_run [OF b] by blast
  then have "\<forall>t \<in> set (op_times ops). of_int (q_priority q) * aging_boost_interval_s s \<le> t - queued_at q"
    using Cons.prems(5) by auto
  note r = prio_run_serves [OF run Cons.prems(2-4) this]
  have len: "0 < length b" using prio_next_batch_size [OF b] by simp
  have inv: "prio_inv s1" using prio_sched.run_invar [OF run Cons.prems(2)] .
  have aging: "aging_boost_interval_s s1 = aging_boost_interval_s s" by (rule prio_run_aging [OF run])
  show ?case
  proof (cases "q_item q \<in> set b")
    case True
    with \<open>bs = b # bs'\<close> show ?thesis by simp
  next
    case False
    with r have q: "q \<in> set (p_items s1)" and a: "ahead_of q s1 + length b \<le> ahead_of q s" by blast+
    have "q_item q \<in> set (concat bs') \<or> ahead_of q s' + length es \<le> ahead_of q s1"
      by (rule Cons.IH [OF bs' inv]) (use Cons.prems(3,5) q in \<open>simp_all add: aging\<close>)
    moreover from a len have "Suc (ahead_of q s1) \<le> ahead_of q s" by linarith
    ultimately show ?thesis using \<open>bs = b # bs'\<close> by auto
  qed
qed

lemma split_at_min:
  assumes "l = b @ r" and "length b = min n (length l)"
  shows "b = take n l \<and> r = drop n l"
proof (cases "n \<le> length l")
  case True
  with assms have "n = length b" by simp
  with assms(1) show ?thesis by simp
next
  case False
  with assms have "r = []" by simp
  with assms False show ?thesis by simp
qed

section \<open>Properties\<close>


definition wit_prio :: priority_scheduler where
  "wit_prio = \<lparr>aging_boost_interval_s = 0, p_items =
     [\<lparr>q_priority = 5, sequence = 1, queued_at = 0, q_item = 10\<rparr>,
      \<lparr>q_priority = 0, sequence = 2, queued_at = 0, q_item = 20\<rparr>,
      \<lparr>q_priority = 5, sequence = 3, queued_at = 1, q_item = 30\<rparr>,
      \<lparr>q_priority = 0, sequence = 4, queued_at = 1, q_item = 40\<rparr>],
     counter = 4\<rparr>"

lemma wit_prio_inv: "prio_inv wit_prio" "prio_inv (wit_prio\<lparr>aging_boost_interval_s := 2\<rparr>)"
  by (simp_all add: prio_inv_def wit_prio_def)


text \<open>
  C12: No starvation under aging. Let a queued request have waited one aging interval per
  priority level at every clock reading of some rounds of \<open>next_batch\<close>, with any window and
  however many urgent requests are submitted meanwhile. Once there were more rounds than older
  requests in the queue, it is in one of the batches.
\<close>

theorem prio_aging_no_starvation:
  assumes "prio_inv s" and "0 < aging_boost_interval_s s" and "q \<in> set (p_items s)"
    and "\<forall>e \<in> set es. \<forall>k. of_int (q_priority q) * aging_boost_interval_s s \<le> clk e k - queued_at q"
    and "ahead_of q s < length es"
    and "serve_batches prio_next_batch mx tmo es h s = Some (h', bs, s')"
  shows "q_item q \<in> set (concat bs)"
  using prio_rounds_serve [OF assms(6,1-4)] assms(5) by linarith

theorem prio_aging_no_starvation_witness:
  "let s = wit_prio\<lparr>aging_boost_interval_s := 2\<rparr>; q = p_items s ! 2;
       es = replicate 3 \<lparr>first_wait = [wit_sub 0], clk = (\<lambda>_. 11), waits = [], mark_clk = of_nat\<rparr> in
     q_priority q = 5 \<and>
     (\<exists>h' bs s'. serve_batches prio_next_batch 1 0 es wit_store s = Some (h', bs, s') \<and> 30 \<in> set (concat bs))"
proof -
  let ?s = "wit_prio\<lparr>aging_boost_interval_s := 2\<rparr>"
  let ?q = "p_items ?s ! 2"
  let ?es = "replicate 3 \<lparr>first_wait = [wit_sub 0], clk = (\<lambda>_. 11), waits = [], mark_clk = of_nat\<rparr>"
  obtain h' bs s' where run: "serve_batches prio_next_batch 1 0 ?es wit_store ?s = Some (h', bs, s')"
    using prio_sched.serve_returns [of ?es 1 wit_store ?s] by auto
  have h: "0 < aging_boost_interval_s ?s" "?q \<in> set (p_items ?s)"
    "\<forall>e \<in> set ?es. \<forall>k. of_int (q_priority ?q) * aging_boost_interval_s ?s \<le> clk e k - queued_at ?q"
    "ahead_of ?q ?s < length ?es" "q_priority ?q = 5" "q_item ?q = 30"
    by (simp_all add: wit_prio_def ahead_of_def)
  have "30 \<in> set (concat bs)"
    using prio_aging_no_starvation [OF wit_prio_inv(2) h(1-4) run] h(6) by simp
  with run h(5) show ?thesis by (simp only: Let_def) blast
qed

text \<open>
  C16: No overtaking by younger requests of equal or lower urgency. With or without aging, a pop
  never takes a request while an earlier submission of the same or a more urgent priority is
  queued.
\<close>

theorem prio_pop_no_overtaking:
  assumes "x \<in> set (p_items s)" and "y \<in> set (p_items s)" and "sequence x < sequence y"
    and "queued_at x \<le> queued_at y" and "q_priority x \<le> q_priority y"
    and "pop_next_locked now s = Some (z, s')"
  shows "z \<noteq> y"
proof
  let ?a = "aging_boost_interval_s s"
  assume "z = y"
  with pop_least [OF assms(6,1)]
  have "(effective_priority ?a y now, sequence y) \<le> (effective_priority ?a x now, sequence x)"
    by (simp only: entry_key_def)
  moreover have "effective_priority ?a x now \<le> effective_priority ?a y now"
    using assms(5,4) by (rule effective_priority_mono)
  ultimately have "sequence y \<le> sequence x" by (auto simp: less_eq_prod_def)
  with assms(3) show False by simp
qed

theorem prio_pop_no_overtaking_witness:
  "let s = wit_prio\<lparr>aging_boost_interval_s := 2\<rparr> in
     p_items s ! 0 \<noteq> p_items s ! 2 \<and>
     (\<exists>z s'. pop_next_locked 7 s = Some (z, s') \<and> z \<noteq> p_items s ! 2)"
proof -
  let ?s = "wit_prio\<lparr>aging_boost_interval_s := 2\<rparr>"
  let ?x = "p_items ?s ! 0" and ?y = "p_items ?s ! 2"
  obtain z s' where z: "pop_next_locked 7 ?s = Some (z, s')"
    using pop_next_locked_None [of 7 ?s] by (cases "pop_next_locked 7 ?s") (auto simp: wit_prio_def)
  have h: "?x \<in> set (p_items ?s)" "?y \<in> set (p_items ?s)" "sequence ?x < sequence ?y"
    "queued_at ?x \<le> queued_at ?y" "q_priority ?x \<le> q_priority ?y" "?x \<noteq> ?y"
    by (simp_all add: wit_prio_def)
  show ?thesis
    unfolding Let_def using z h(6) prio_pop_no_overtaking [OF h(1-5) z] by blast
qed



end
