(* ===== verification/Manager.thy ===== *)
theory Manager
  imports Delivery Fifo Priority
begin

text \<open>
  The life of a \<open>WorkerManager\<close>: its configuration and tasks, one iteration of the worker loop
  (take a batch, record and log it, execute it), and the service a scheduler, a worker and a backend
  give together: every queued request is answered with its own tokens. A worker task ends only by
  cancellation or by an exception that leaves a batch.
\<close>

section \<open>What a batch leaves alone\<close>

definition touches_only :: "ref set \<Rightarrow> store \<Rightarrow> store \<Rightarrow> bool" where
  "touches_only A h h' \<longleftrightarrow>
     (\<forall>q. rid h' q = rid h q \<and> messages (request (h' q)) = messages (request (h q)) \<and>
          sampling (request (h' q)) = sampling (request (h q)) \<and>
          (q \<notin> A \<longrightarrow> handle (h' q) = handle (h q)))"

lemma touches_refl [simp, intro]: "touches_only A h h"
  by (simp add: touches_only_def)

lemma touches_trans [trans]: "touches_only A h1 h2 \<Longrightarrow> touches_only A h2 h3 \<Longrightarrow> touches_only A h1 h3"
  by (simp add: touches_only_def)

lemma touches_mono: "touches_only A h h' \<Longrightarrow> A \<subseteq> B \<Longrightarrow> touches_only B h h'"
  by (auto simp: touches_only_def)

lemma touches_updates:
  "touches_only A h (upd_request (mark_completed t) r h)"
  "touches_only A h (upd_request (mark_first_token t) r h)"
  "r \<in> A \<Longrightarrow> touches_only A h (upd_handle u r h)"
  by (auto simp: touches_only_def handle_simps request_simps)

lemma touches_upd_handle_after:
  "r \<in> A \<Longrightarrow> touches_only A h h1 \<Longrightarrow> touches_only A h (upd_handle u r h1)"
  by (auto simp: touches_only_def handle_simps)

lemma touches_fail_request: "touches_only A (st_store st) (st_store (fail_request ck r st))"
  by (simp add: touches_only_def fail_request_def record_failure_def Let_def handle_simps request_simps)

lemma touches_complete_item:
  "r \<in> A \<Longrightarrow> touches_only A (st_store st) (st_store (fst (complete_item ck bs r toks st)))"
  by (auto simp: complete_item_def Let_def touches_updates touches_upd_handle_after
      split: response_handle.split sum.split)

lemma touches_fail_item:
  "r \<in> A \<Longrightarrow> touches_only A (st_store st) (st_store (fst (fail_item ck r m st)))"
  by (auto simp: fail_item_def Let_def touches_fail_request touches_upd_handle_after
      split: response_handle.split sum.split)

lemma touches_accept_token:
  "r \<in> A \<Longrightarrow> touches_only A (st_store st) (st_store (snd (accept_token ck i r t (x, st))))"
  by (auto simp: accept_token_def Let_def stamp_first_token_def touches_updates touches_upd_handle_after
      split: response_handle.split)

lemma touches_event:
  assumes "snd ` set (ex_items x) \<subseteq> A" and "exec_event ck bs e (x, st) = (s1, err)"
  shows "touches_only A (st_store st) (st_store (snd s1)) \<and> ex_items (fst s1) = ex_items x"
proof (cases "ev_id e \<in> set (ex_pending x) \<and> map_of (ex_items x) (ev_id e) \<noteq> None")
  case False
  then have "s1 = (x, st)" using assms(2) by (auto simp: exec_event_def split: option.splits if_splits)
  then show ?thesis by simp
next
  case True
  then obtain r where r: "map_of (ex_items x) (ev_id e) = Some r" by auto
  then have rA: "r \<in> A" using map_of_SomeD [OF r] assms(1) by force
  show ?thesis
  proof (cases "sr_cancelled (st_store st r)")
    case True
    with assms(2) r \<open>ev_id e \<in> set (ex_pending x) \<and> _\<close> show ?thesis
      by (auto simp: exec_event_def discard_pending_def)
  next
    case False
    show ?thesis
    proof (cases e)
      case (BatchToken i t)
      then have s1: "s1 = accept_token ck i r t (x, st)"
        using assms(2) r True False by (auto simp: exec_event_def)
      obtain x1 st1 where "accept_token ck i r t (x, st) = (x1, st1)" by (metis prod.collapse)
      with accept_token_effect [OF this] touches_accept_token [OF rA, of st ck i t x] s1
      show ?thesis by simp
    next
      case (BatchCompleted i)
      with assms(2) r True False touches_complete_item [OF rA, of st ck bs "ex_tokens x i"]
      show ?thesis by (auto simp: exec_event_def discard_pending_def split: prod.splits option.splits)
    qed
  qed
qed

fun is_event :: "wevent \<Rightarrow> bool" where
  "is_event (Ev e) = True"
| "is_event (Abort r m) = False"

lemma touches_trace:
  assumes "snd ` set (ex_items x) \<subseteq> A" "\<forall>w \<in> set ws. is_event w" "exec_trace ck bs ws (x, st) = (s1, err)"
  shows "touches_only A (st_store st) (st_store (snd s1)) \<and> ex_items (fst s1) = ex_items x"
  using assms
proof (induction ws arbitrary: x st)
  case Nil
  then show ?case by auto
next
  case (Cons w ws)
  then obtain e where w: "w = Ev e" by (cases w) auto
  obtain x2 st2 e2 where s2: "exec_event ck bs e (x, st) = ((x2, st2), e2)" by (metis prod.collapse)
  note one = touches_event [OF Cons.prems(1) s2]
  show ?case
  proof (cases e2)
    case None
    then have "exec_trace ck bs ws (x2, st2) = (s1, err)" using Cons.prems(3) w s2 by simp
    with Cons.IH [of x2 st2] Cons.prems(1,2) one show ?thesis by (auto intro: touches_trans)
  next
    case (Some m)
    then have "s1 = (x2, st2)" using Cons.prems(3) w s2 by simp
    with one show ?thesis by simp
  qed
qed

lemma touches_each_pending:
  assumes "snd ` set its \<subseteq> A"
    and "\<And>i r st. r \<in> A \<Longrightarrow> touches_only A (st_store st) (st_store (fst (act i r st)))"
  shows "touches_only A (st_store st) (st_store (fst (each_pending act its ks st)))"
proof (induction ks arbitrary: st)
  case Nil
  show ?case by simp
next
  case (Cons i ks)
  show ?case
  proof (cases "map_of its i")
    case None
    with Cons show ?thesis by simp
  next
    case (Some r)
    then have "r \<in> A" using assms(1) map_of_SomeD [OF Some] by force
    from assms(2) [OF this, of st i] Cons.IH [of "fst (act i r st)"] Cons.IH [of st] Some
    show ?thesis by (auto split: prod.split option.split intro: touches_trans)
  qed
qed

lemma interleave_quiet: "\<forall>w \<in> set (interleave k (\<lambda>_. []) evs). is_event w"
  by (induction evs arbitrary: k) auto

lemma set_dict_put: "set (dict_put k v d) \<subseteq> insert (k, v) (set d)"
  by (induction k v d rule: dict_put.induct) auto

lemma set_dict_of: "set (dict_of kvs) \<subseteq> set kvs"
proof (induction kvs rule: rev_induct)
  case Nil
  show ?case by (simp add: dict_of_def)
next
  case (snoc x xs)
  then show ?case using set_dict_put [of "fst x" "snd x" "dict_of xs"]
    by (auto simp: dict_of_def case_prod_beta)
qed

lemma execute_batch_touches:
  "touches_only (set items) (st_store st) (st_store (fst (execute_batch ck so gen (\<lambda>_. []) items st)))"
proof (cases "active_items items st = []")
  case True
  then show ?thesis by (simp add: execute_batch_def)
next
  case False
  let ?A = "set items" and ?x = "start_exec so (active_items items st) st"
  obtain evs exc where gen: "gen (map (\<lambda>r. request (st_store st r)) (active_items items st)) = (evs, exc)"
    by (metis prod.collapse)
  obtain x1 st1 err where run:
    "exec_trace ck (now ck st) (interleave 0 (\<lambda>_. []) evs) (?x, tick st) = ((x1, st1), err)"
    by (metis prod.collapse)
  have "snd ` set (ex_items ?x) \<subseteq> ?A"
    using set_dict_of [of "map (\<lambda>r. (rid (st_store st) r, r)) (active_items items st)"]
    by (auto simp: start_exec_def Let_def active_items_def)
  from touches_trace [OF this interleave_quiet run]
  have t1: "touches_only ?A (st_store st) (st_store st1)" and its: "snd ` set (ex_items x1) \<subseteq> ?A"
    using \<open>snd ` set (ex_items ?x) \<subseteq> ?A\<close> by simp_all
  have fin: "touches_only ?A (st_store s) (st_store (fst (finish_pending ck bs x1 s)))" for bs s
    unfolding finish_pending_def by (rule touches_each_pending [OF its]) (rule touches_complete_item)
  have fl: "touches_only ?A (st_store s) (st_store (fst (fail_pending ck m x1 s)))" for m s
    unfolding fail_pending_def by (rule touches_each_pending [OF its]) (rule touches_fail_item)
  have "touches_only ?A (st_store st1)
      (st_store (fst (execute_batch ck so gen (\<lambda>_. []) items st)))"
    using False gen run fl [of st1] fin [of st1 "now ck st"]
      fl [of "fst (finish_pending ck (now ck st) x1 st1)"]
    by (auto simp: execute_batch_def Let_def split: option.split prod.split intro: touches_trans)
  with t1 show ?thesis by (rule touches_trans)
qed

section \<open>The worker tasks\<close>

text \<open>A task of the loop runs until it is cancelled or an exception leaves it.\<close>

datatype worker_task = TaskRunning | TaskCancelled | TaskFailed string

record worker_manager =
  wm_max_batch_size :: int
  wm_batch_timeout_ms :: int
  wm_worker_count :: int
  wm_tasks :: "worker_task list"

definition init_manager :: "int \<Rightarrow> int \<Rightarrow> int \<Rightarrow> worker_manager" where
  "init_manager max_batch_size batch_timeout_ms worker_count =
     \<lparr>wm_max_batch_size = max_batch_size, wm_batch_timeout_ms = batch_timeout_ms,
      wm_worker_count = max 1 worker_count, wm_tasks = []\<rparr>"

definition manager_start :: "worker_manager \<Rightarrow> worker_manager" where
  "manager_start m =
     (if wm_tasks m \<noteq> [] then m
      else m\<lparr>wm_tasks := replicate (nat (wm_worker_count m)) TaskRunning\<rparr>)"

fun cancel_task :: "worker_task \<Rightarrow> worker_task" where
  "cancel_task TaskRunning = TaskCancelled"
| "cancel_task t = t"

text \<open>\<open>gather\<close> raises the exception of the first task that has one; the cancellations are
  suppressed. An exception leaves \<open>stop\<close> before the tasks are forgotten.\<close>

fun first_failure :: "worker_task list \<Rightarrow> string option" where
  "first_failure [] = None"
| "first_failure (TaskFailed m # ts) = Some m"
| "first_failure (_ # ts) = first_failure ts"

definition manager_stop :: "worker_manager \<Rightarrow> worker_manager \<times> string option" where
  "manager_stop m =
     (if wm_tasks m = [] then (m, None)
      else
        (let ts = map cancel_task (wm_tasks m) in
         case first_failure ts of
           Some e \<Rightarrow> (m\<lparr>wm_tasks := ts\<rparr>, Some e)
         | None \<Rightarrow> (m\<lparr>wm_tasks := []\<rparr>, None)))"

section \<open>The worker loop\<close>

type_synonym 's next_batch_fun =
  "int \<Rightarrow> int \<Rightarrow> batch_env \<Rightarrow> store \<Rightarrow> 's \<Rightarrow> (store \<times> ref list \<times> 's) option"

type_synonym abort_plan = "nat \<Rightarrow> (ref \<times> string) list"

definition note_batch :: "ref list \<Rightarrow> runtime_state \<Rightarrow> runtime_state" where
  "note_batch items st =
     log_emit (BatchFormed (length items) (map (rid (st_store st)) items))
       (st\<lparr>st_metrics := record_batch (length items) (st_metrics st)\<rparr>)"

text \<open>One round of the \<open>while True\<close>; \<open>None\<close> is a round still waiting for its batch.\<close>

definition worker_iteration ::
  "'s next_batch_fun \<Rightarrow> (runtime_request list \<Rightarrow> batch_event stream) \<Rightarrow> clock \<Rightarrow>
   (string list \<Rightarrow> string list) \<Rightarrow> worker_manager \<Rightarrow> batch_env \<times> abort_plan \<Rightarrow>
   runtime_state \<times> 's \<Rightarrow> (ref list \<times> string option \<times> runtime_state \<times> 's) option"
where
  "worker_iteration nb gen ck so m env p =
     (case nb (wm_max_batch_size m) (wm_batch_timeout_ms m) (fst env) (st_store (fst p)) (snd p) of
        None \<Rightarrow> None
      | Some (h1, items, s1) \<Rightarrow>
          (let st1 = note_batch items ((fst p)\<lparr>st_store := h1\<rparr>);
               (st2, exc) = execute_batch ck so gen (snd env) items st1 in
           Some (items, exc, st2, s1)))"

text \<open>The rounds of one task over a list of what the event loop does during each. An exception
  that leaves a batch ends the task.\<close>

fun worker_loop ::
  "'s next_batch_fun \<Rightarrow> (runtime_request list \<Rightarrow> batch_event stream) \<Rightarrow> clock \<Rightarrow>
   (string list \<Rightarrow> string list) \<Rightarrow> worker_manager \<Rightarrow> (batch_env \<times> abort_plan) list \<Rightarrow>
   runtime_state \<times> 's \<Rightarrow> (ref list list \<times> worker_task \<times> runtime_state \<times> 's) option"
where
  "worker_loop nb gen ck so m [] p = Some ([], TaskRunning, p)"
| "worker_loop nb gen ck so m (env # envs) p =
     (case worker_iteration nb gen ck so m env p of
        None \<Rightarrow> None
      | Some (items, Some e, p1) \<Rightarrow> Some ([items], TaskFailed e, p1)
      | Some (items, None, p1) \<Rightarrow>
          (case worker_loop nb gen ck so m envs p1 of
             None \<Rightarrow> None
           | Some (bs, t, p2) \<Rightarrow> Some (items # bs, t, p2)))"

section \<open>Starting and stopping\<close>

lemma start_tasks:
  "wm_tasks (manager_start (init_manager mx tmo wc)) = replicate (nat (max 1 wc)) TaskRunning"
  by (simp add: manager_start_def init_manager_def)

lemma start_twice: "manager_start (manager_start m) = manager_start m"
  by (simp add: manager_start_def)

lemma first_failure_running: "first_failure (map cancel_task (replicate n TaskRunning)) = None"
  by (induction n) simp_all

lemma stop_after_start:
  "wm_tasks m = [] \<Longrightarrow> manager_stop (manager_start m) = (m, None)"
  by (cases "nat (wm_worker_count m)")
    (simp_all add: manager_stop_def manager_start_def first_failure_running [simplified])

section \<open>The service: a scheduler, a worker and a backend\<close>

text \<open>A queue whose requests have their own ids, open channels and a positive token bound.\<close>

definition servable :: "ref list \<Rightarrow> store \<Rightarrow> bool" where
  "servable rs h \<longleftrightarrow> distinct (map (rid h) rs) \<and>
     (\<forall>r \<in> set rs. settleable (handle (h r)) \<and> \<not> handle_cancelled (handle (h r)) \<and>
        1 \<le> max_tokens (sampling (request (h r))))"

lemma servable_distinct: "servable rs h \<Longrightarrow> distinct rs"
  by (simp add: servable_def distinct_map)

lemma servable_mset: "mset rs = mset rs' \<Longrightarrow> servable rs h \<Longrightarrow> servable rs' h"
proof -
  assume eq: "mset rs = mset rs'" and s: "servable rs h"
  have "mset (map (rid h) rs) = mset (map (rid h) rs')" using eq by simp
  then have "distinct (map (rid h) rs')" using s by (metis servable_def mset_eq_imp_distinct_iff)
  then show ?thesis using s mset_eq_setD [OF eq] by (simp add: servable_def)
qed

lemma servable_append:
  "servable (rs @ rs') h \<Longrightarrow> servable rs h \<and> servable rs' h \<and> set rs \<inter> set rs' = {}"
  by (auto simp: servable_def)

lemma servable_frame:
  assumes "servable rs h" "set rs \<inter> A = {}" "touches_only A h h'"
  shows "servable rs h'"
proof -
  have "map (rid h') rs = map (rid h) rs" using assms(3) by (simp add: touches_only_def)
  moreover have "handle (h' r) = handle (h r)" if "r \<in> set rs" for r
    using that assms(2,3) by (auto simp: touches_only_def)
  ultimately show ?thesis using assms(1,3) by (simp add: servable_def touches_only_def)
qed

lemma same_identity_touches: "same_identity h h' \<Longrightarrow> touches_only {} h h'"
  by (simp add: same_identity_def touches_only_def)

lemma servable_batch:
  assumes "servable items (st_store st)"
  shows "valid_batch items st" "active_items items st = items"
proof -
  show a: "active_items items st = items"
    using assms by (simp add: active_items_def servable_def sr_cancelled_def filter_id_conv)
  then show "valid_batch items st"
    using assms by (simp add: valid_batch_def ready_batch_def batch_requests_def servable_def)
qed

lemma note_batch_store [simp]: "st_store (note_batch items st) = st_store st"
  by (simp add: note_batch_def log_emit_def)

lemma no_abort_quiet [simp]: "no_abort r (\<lambda>_. [])"
  by (simp add: no_abort_def)

text \<open>The environment of a round in which nobody submits and no timer matters.\<close>

definition quiet_env :: "(nat \<Rightarrow> seconds) \<Rightarrow> (nat \<Rightarrow> seconds) \<Rightarrow> batch_env" where
  "quiet_env c mk = \<lparr>first_wait = [], clk = c, waits = [], mark_clk = mk\<rparr>"

locale service = scheduler contents qsize submit invar next_batch + batch_backend generate generate_batch
  for contents :: "'s \<Rightarrow> ref list" and qsize submit invar next_batch generate generate_batch +
  assumes law_generate: "request_id q = request_id q' \<Longrightarrow> messages q = messages q' \<Longrightarrow>
      sampling q = sampling q' \<Longrightarrow> generate q = generate q'"
begin

abbreviation answered :: "store \<Rightarrow> ref \<Rightarrow> response_handle" where
  "answered h r \<equiv> delivered (rid h r) (fst (generate (request (h r)))) (handle (h r))"

lemma answered_frame:
  assumes "touches_only A h h'" "r \<notin> A"
  shows "answered h' r = answered h r"
  using assms law_generate [of "request (h' r)" "request (h r)"] by (simp add: touches_only_def)

text \<open>One round with nobody aborting answers its whole batch and touches nothing else.\<close>

lemma round_answers:
  assumes so: "iteration_order so" and inv: "invar s" and ok: "servable (contents s) (st_store st)"
    and total: "\<forall>rs. snd (generate_batch rs) = None"
    and nb: "next_batch mx tmo e (st_store st) s = Some (h1, items, s1)" and quiet: "env_subs e = []"
    and m: "wm_max_batch_size m = mx" "wm_batch_timeout_ms m = tmo"
  shows "\<exists>st'. worker_iteration next_batch generate_batch ck so m (e, \<lambda>_. []) (st, s) = Some (items, None, st', s1) \<and>
    touches_only (set items) (st_store st) (st_store st') \<and>
    (\<forall>r \<in> set items. handle (st_store st' r) = answered (st_store st) r) \<and>
    servable (contents s1) (st_store st') \<and> set items \<inter> set (contents s1) = {} \<and>
    mset items + mset (contents s1) = mset (contents s)"
proof -
  let ?st1 = "note_batch items (st\<lparr>st_store := h1\<rparr>)"
  obtain st' exc where ex: "execute_batch ck so generate_batch (\<lambda>_. []) items ?st1 = (st', exc)"
    by (metis prod.collapse)
  have ms: "mset items + mset (contents s1) = mset (contents s)"
    using law_batch_conserves [OF inv nb] quiet by simp
  then have "servable (items @ contents s1) (st_store st)"
    by (intro servable_mset [OF _ ok]) simp
  then have parts: "servable items (st_store st)" "servable (contents s1) (st_store st)"
    "set items \<inter> set (contents s1) = {}" using servable_append by blast+
  have t1: "touches_only {} (st_store st) h1"
    using law_batch_store [OF nb] by (simp add: same_identity_touches)
  have sv1: "servable items h1" "servable (contents s1) h1"
    using parts servable_frame [OF _ _ t1] by auto
  have t2: "touches_only (set items) h1 (st_store st')"
    using execute_batch_touches [of items ?st1 ck so generate_batch] ex by simp
  have t: "touches_only (set items) (st_store st) (st_store st')"
    by (rule touches_trans [OF touches_mono [OF t1] t2]) simp
  have vb: "valid_batch items ?st1" and act: "active_items items ?st1 = items"
    using servable_batch [of items ?st1] sv1(1) by simp_all
  have ans: "handle (st_store st' r) = answered (st_store st) r" if r: "r \<in> set items" for r
  proof -
    from r act have "r \<in> set (active_items items ?st1)" by simp
    from outcome_complete [OF vb so this no_abort_quiet total [rule_format], of ck] ex
    have "handle (st_store st' r) = answered h1 r" by simp
    also have "\<dots> = answered (st_store st) r" by (rule answered_frame [OF t1]) simp
    finally show ?thesis .
  qed
  obtain r where "r \<in> set items" using law_batch_size [OF nb] by (cases items) auto
  then have "exc = None"
    using outcome [OF vb so _ no_abort_quiet, of r ck] act ex by (simp add: Let_def)
  then have "worker_iteration next_batch generate_batch ck so m (e, \<lambda>_. []) (st, s) = Some (items, None, st', s1)"
    using nb ex m by (simp add: worker_iteration_def)
  moreover have "servable (contents s1) (st_store st')"
    using servable_frame [OF sv1(2) _ t2] parts(3) by blast
  ultimately show ?thesis using t ans parts(3) ms by blast
qed

text \<open>Rounds of the loop answer the whole queue, each request once.\<close>

lemma loop_answers:
  assumes so: "iteration_order so" and total: "\<forall>rs. snd (generate_batch rs) = None"
    and tmo: "wm_batch_timeout_ms m = 0"
    and "invar s" and "servable (contents s) (st_store st)"
    and "int (length (contents s)) \<le> int k * max 1 (wm_max_batch_size m)"
  shows "\<exists>j bs st' s'. j \<le> k \<and>
    worker_loop next_batch generate_batch ck so m (replicate j (quiet_env c mk, \<lambda>_. [])) (st, s)
      = Some (bs, TaskRunning, st', s') \<and>
    contents s' = [] \<and> mset (concat bs) = mset (contents s) \<and>
    touches_only (set (contents s)) (st_store st) (st_store st') \<and>
    (\<forall>r \<in> set (contents s). handle (st_store st' r) = answered (st_store st) r)"
  using assms(4-6)
proof (induction k arbitrary: st s)
  case 0
  then have "contents s = []" by simp
  then show ?case by (intro exI [of _ 0]) simp
next
  case (Suc k)
  let ?e = "quiet_env c mk"
  show ?case
  proof (cases "contents s = []")
    case True
    then show ?thesis by (intro exI [of _ 0]) simp
  next
    case False
    have quiet: "env_subs ?e = []" by (simp add: quiet_env_def env_subs_def)
    from False obtain h1 items s1 where
      nb: "next_batch (wm_max_batch_size m) 0 ?e (st_store st) s = Some (h1, items, s1)"
      using law_batch_returns [of s ?e 0 "wm_max_batch_size m" "st_store st"] by auto
    from round_answers [OF so Suc.prems(1,2) total nb quiet refl tmo, of ck] obtain st1 where
      it: "worker_iteration next_batch generate_batch ck so m (?e, \<lambda>_. []) (st, s) = Some (items, None, st1, s1)"
      and t1: "touches_only (set items) (st_store st) (st_store st1)"
      and a1: "\<forall>r \<in> set items. handle (st_store st1 r) = answered (st_store st) r"
      and sv: "servable (contents s1) (st_store st1)" and dis: "set items \<inter> set (contents s1) = {}"
      and ms: "mset items + mset (contents s1) = mset (contents s)" by blast
    have len: "length items + length (contents s1) = length (contents s)"
      using arg_cong [OF ms, of size] by simp
    moreover have "int (length items) = min (max 1 (wm_max_batch_size m)) (int (length (contents s)))"
      using law_batch_full [OF nb] by (simp add: quiet_env_def)
    ultimately have "int (length (contents s1)) \<le> int k * max 1 (wm_max_batch_size m)"
      using Suc.prems(3) by (auto simp: min_def algebra_simps split: if_splits)
    from Suc.IH [OF law_batch_invar [OF Suc.prems(1) nb] sv this] obtain j bs st' s' where
      j: "j \<le> k" and run: "worker_loop next_batch generate_batch ck so m (replicate j (?e, \<lambda>_. [])) (st1, s1)
        = Some (bs, TaskRunning, st', s')"
      and e: "contents s' = []" "mset (concat bs) = mset (contents s1)"
      and t2: "touches_only (set (contents s1)) (st_store st1) (st_store st')"
      and a2: "\<forall>r \<in> set (contents s1). handle (st_store st' r) = answered (st_store st1) r" by blast
    have set: "set (contents s) = set items \<union> set (contents s1)"
      using ms by (metis set_mset_mset set_mset_union)
    have t: "touches_only (set (contents s)) (st_store st) (st_store st')"
      by (rule touches_trans [OF touches_mono [OF t1] touches_mono [OF t2]]) (use set in auto)
    have "handle (st_store st' r) = answered (st_store st) r" if "r \<in> set (contents s)" for r
    proof (cases "r \<in> set items")
      case True
      then have "r \<notin> set (contents s1)" using dis by blast
      then have "handle (st_store st' r) = handle (st_store st1 r)" using t2 by (simp add: touches_only_def)
      with a1 True show ?thesis by simp
    next
      case False
      with that set have "r \<in> set (contents s1)" by blast
      with a2 have "handle (st_store st' r) = answered (st_store st1) r" by blast
      also have "\<dots> = answered (st_store st) r" by (rule answered_frame [OF t1 False])
      finally show ?thesis .
    qed
    with j it run e ms t show ?thesis
      by (intro exI [of _ "Suc j"] exI [of _ "items # bs"] exI [of _ st'] exI [of _ s']) simp
  qed
qed

text \<open>Submitting keeps the channels and identities.\<close>

lemma submit_all_identity: "same_identity h (fst (submit_all submit xs h s))"
proof (induction xs arbitrary: h s)
  case (Cons x xs)
  have "same_identity h (fst (submit x h s))" by (rule law_submit_store)
  also have "same_identity \<dots> (fst (submit_all submit xs (fst (submit x h s)) (snd (submit x h s))))"
    by (rule Cons.IH)
  finally show ?case by (simp add: case_prod_beta)
qed simp

lemma submitted_answered:
  assumes so: "iteration_order so" and total: "\<forall>rs. snd (generate_batch rs) = None"
    and tmo: "wm_batch_timeout_ms m = 0"
    and empty: "invar s0" "contents s0 = []" and sv: "servable (map sub_ref subs) (st_store st)"
    and len: "int (length subs) \<le> int k * max 1 (wm_max_batch_size m)"
    and sub: "submit_all submit subs (st_store st) s0 = (h, s)"
  shows "\<exists>j bs st' s'. j \<le> k \<and>
    worker_loop next_batch generate_batch ck so m (replicate j (quiet_env c mk, \<lambda>_. []))
      (st\<lparr>st_store := h\<rparr>, s) = Some (bs, TaskRunning, st', s') \<and>
    contents s' = [] \<and> mset (concat bs) = mset (map sub_ref subs) \<and>
    (\<forall>r \<in> set (map sub_ref subs). handle (st_store st' r) = answered (st_store st) r)"
proof -
  let ?st = "st\<lparr>st_store := h\<rparr>"
  have ms: "mset (contents s) = mset (map sub_ref subs)"
    using submit_all_contents [of subs "st_store st" s0] sub empty(2) by simp
  have inv: "invar s" using submit_all_invar [OF empty(1), of subs "st_store st"] sub by simp
  have t: "touches_only {} (st_store st) h"
    using submit_all_identity [of "st_store st" subs s0] sub by (simp add: same_identity_touches)
  have "servable (map sub_ref subs) h" by (rule servable_frame [OF sv _ t]) simp
  then have sv': "servable (contents s) (st_store ?st)"
    by (intro servable_mset [OF ms [symmetric]]) simp
  have "int (length (contents s)) \<le> int k * max 1 (wm_max_batch_size m)"
    using arg_cong [OF ms, of size] len by simp
  from loop_answers [OF so total tmo inv sv' this, of ck c mk] ms
  obtain j bs st' s' where "j \<le> k"
    "worker_loop next_batch generate_batch ck so m (replicate j (quiet_env c mk, \<lambda>_. [])) (?st, s)
       = Some (bs, TaskRunning, st', s')"
    "contents s' = []" "mset (concat bs) = mset (map sub_ref subs)"
    and a: "\<forall>r \<in> set (contents s). handle (st_store st' r) = answered h r" by auto
  moreover have "set (contents s) = set (map sub_ref subs)" by (rule mset_eq_setD [OF ms])
  moreover have "answered h r = answered (st_store st) r" for r by (rule answered_frame [OF t]) simp
  ultimately show ?thesis by auto
qed

end

lemma mock_stream_cong: "sampling q = sampling q' \<Longrightarrow> mock_stream b q = mock_stream b q'"
  by (simp add: mock_stream_def mock_generate_tokens mock_tokens_def)

interpretation fifo_mock: service "\<lambda>q. q" fifo_size fifo_submit "\<lambda>_. True" fifo_next_batch
    "mock_stream b" "mock_batch_stream b" for b
  by unfold_locales (rule mock_stream_cong)

interpretation prio_mock: service prio_contents prio_size prio_submit prio_inv prio_next_batch
    "mock_stream b" "mock_batch_stream b" for b
  by unfold_locales (rule mock_stream_cong)

section \<open>Properties\<close>

lemma manager_config [simp]:
  "wm_max_batch_size (manager_start (init_manager mx tmo wc)) = mx"
  "wm_batch_timeout_ms (manager_start (init_manager mx tmo wc)) = tmo"
  by (simp_all add: manager_start_def init_manager_def)

lemma mock_total: "\<forall>rs. snd (mock_batch_stream b rs) = None"
  by (simp add: mock_batch_stream_def)


lemma wit_servable: "servable (map sub_ref [wit_sub 2, wit_sub 3]) (st_store wit_state)"
proof -
  have "rid (st_store wit_state) 2 \<noteq> rid (st_store wit_state) 3"
    using wit_state_ready(1,2) by (simp add: ready_batch_def)
  then show ?thesis
    by (simp add: servable_def wit_sub_def)
      (simp add: wit_state_def create_streaming_def create_completion_def wit_sampled_def from_chat_request_def)
qed

lemma wit_delivered:
  "delivered (rid (st_store wit_state) 2)
     (map mock_token [0..<nat (max_tokens (sampling (request (st_store wit_state 2))))]) (handle (st_store wit_state 2))
   = Streaming (create_streaming\<lparr>queue := [TokenEvent ''tok0 '', TokenEvent ''tok1 '', CompletedEvent ''stop'']\<rparr>)"
proof -
  have h2: "handle (st_store wit_state 2) = Streaming create_streaming" by (simp add: wit_state_def)
  have n2: "nat (max_tokens (sampling (request (st_store wit_state 2)))) = Suc (Suc 0)"
    by (simp add: wit_state_def wit_sampled_def from_chat_request_def)
  have t: "mock_token 0 = ''tok0 ''" "mock_token (Suc 0) = ''tok1 ''" by code_simp+
  show ?thesis unfolding h2 n2 by (simp add: t delivered_cases create_streaming_def)
qed


text \<open>The same for the FIFO scheduler.\<close>

lemma fifo_service_answers:
  assumes "servable (map sub_ref subs) (st_store st)" and "iteration_order so"
    and "int (length subs) \<le> int k * max 1 mx"
    and "submit_all fifo_submit subs (st_store st) fifo_init = (h, s)"
  shows "\<exists>j bs st' s'. j \<le> k \<and>
    worker_loop fifo_next_batch (mock_batch_stream b) ck so (manager_start (init_manager mx 0 wc))
      (replicate j (quiet_env c mk, \<lambda>_. [])) (st\<lparr>st_store := h\<rparr>, s) = Some (bs, TaskRunning, st', s') \<and>
    fifo_size s' = 0 \<and> mset (concat bs) = mset (map sub_ref subs) \<and>
    (\<forall>r \<in> set (map sub_ref subs). handle (st_store st' r) =
       delivered (rid (st_store st) r)
         (map mock_token [0..<nat (max_tokens (sampling (request (st_store st r))))])
         (handle (st_store st r)))"
proof -
  have empty: "True" "fifo_init = []" by (simp_all add: fifo_init_def)
  show ?thesis
    using fifo_mock.submitted_answered [OF assms(2) mock_total _ empty assms(1) _ assms(4),
        where m = "manager_start (init_manager mx 0 wc)" and k = k and b = b and ck = ck and c = c and mk = mk]
      assms(3)
    by (simp add: mock_stream_def mock_generate_tokens mock_tokens_def fifo_size_def)
qed

end
