(* ===== verification/HttpBackend.thy ===== *)
theory HttpBackend
  imports Backend Json
begin

text \<open>
  \<open>backends/llama_cpp_backend.py\<close> and \<open>backends/vllm_backend.py\<close>: the backends that run
  an inference server as a child process and talk to it over HTTP. Modelled are the command line,
  the start with its health polls, the stop with its signals, the request payload and the reading of
  the answer's event stream. The child process and the HTTP library are the environment: whether
  the command can be run, the outcome of each poll, how long the child takes to exit, and the reply
  to a request with the outcome of \<open>raise_for_status\<close> and the lines of \<open>aiter_lines\<close>.
\<close>

section \<open>State\<close>

record server_process =
  sp_args :: "string list"
  sp_returncode :: "int option"

record http_server =
  hs_model_path :: string
  hs_port :: int
  hs_process :: "server_process option"
  hs_client :: bool

record llama_cpp_backend = http_server +
  lc_server_path :: string
  lc_n_ctx :: int
  lc_n_gpu_layers :: int
  lc_verbose :: bool

record vllm_backend = http_server +
  vb_command :: string
  vb_gpu_memory_utilization :: rat
  vb_max_model_len :: "int option"

definition init_llama_cpp :: "string \<Rightarrow> string \<Rightarrow> int \<Rightarrow> int \<Rightarrow> int \<Rightarrow> bool \<Rightarrow> llama_cpp_backend" where
  "init_llama_cpp model_path llama_server_path n_ctx n_gpu_layers port verbose =
     \<lparr>hs_model_path = model_path, hs_port = port, hs_process = None, hs_client = False,
      lc_server_path = llama_server_path, lc_n_ctx = n_ctx, lc_n_gpu_layers = n_gpu_layers,
      lc_verbose = verbose\<rparr>"

definition init_vllm :: "string \<Rightarrow> string \<Rightarrow> int \<Rightarrow> rat \<Rightarrow> int option \<Rightarrow> vllm_backend" where
  "init_vllm model_path vllm_command port gpu_memory_utilization max_model_len =
     \<lparr>hs_model_path = model_path, hs_port = port, hs_process = None, hs_client = False,
      vb_command = vllm_command, vb_gpu_memory_utilization = gpu_memory_utilization,
      vb_max_model_len = max_model_len\<rparr>"

definition llama_capabilities :: capabilities where
  "llama_capabilities = {STREAMING, GPU_METRICS}"

definition vllm_capabilities :: capabilities where
  "vllm_capabilities = {STREAMING, NATIVE_BATCHING, GPU_METRICS}"

definition base_url :: "'a http_server_scheme \<Rightarrow> string" where
  "base_url b = ''http://127.0.0.1:'' @ str_int (hs_port b)"

section \<open>Start\<close>

definition llama_args :: "llama_cpp_backend \<Rightarrow> string list" where
  "llama_args b =
     [lc_server_path b, ''-m'', hs_model_path b, ''--port'', str_int (hs_port b), ''--host'', ''127.0.0.1'',
      ''-c'', str_int (lc_n_ctx b), ''-ngl'', str_int (lc_n_gpu_layers b), ''--no-webui''] @
     (if lc_verbose b then [] else [''--log-disable''])"

definition vllm_args :: "(rat \<Rightarrow> string) \<Rightarrow> vllm_backend \<Rightarrow> string list" where
  "vllm_args fmt b =
     [vb_command b, ''serve'', hs_model_path b, ''--host'', ''127.0.0.1'', ''--port'', str_int (hs_port b),
      ''--gpu-memory-utilization'', fmt (vb_gpu_memory_utilization b)] @
     (case vb_max_model_len b of None \<Rightarrow> [] | Some n \<Rightarrow> [''--max-model-len'', str_int n])"

text \<open>One poll of \<open>/health\<close>: an answer, a refused connection, any other exception.\<close>

datatype poll = PollStatus int | PollConnectError | PollError string

datatype health = Healthy | GaveUp | Broke string

fun retryable :: "poll \<Rightarrow> bool" where
  "retryable (PollStatus s) = (s \<noteq> 200)"
| "retryable PollConnectError = True"
| "retryable (PollError m) = False"

text \<open>At most \<open>n\<close> polls from the \<open>k\<close>-th on, a second of sleep after each that does not
  settle it; the outcome and the seconds waited.\<close>

fun poll_health :: "nat \<Rightarrow> nat \<Rightarrow> (nat \<Rightarrow> poll) \<Rightarrow> health \<times> nat" where
  "poll_health 0 k polls = (GaveUp, 0)"
| "poll_health (Suc n) k polls =
     (if retryable (polls k)
      then (let (h, waited) = poll_health n (Suc k) polls in (h, waited + 1))
      else (case polls k of PollError m \<Rightarrow> Broke m | _ \<Rightarrow> Healthy, 0))"

text \<open>\<open>spawn\<close> is the exception of \<open>create_subprocess_exec\<close>, if it raises. The result is
  the backend, the exception that leaves \<open>start\<close>, and the seconds waited.\<close>

definition server_start ::
  "string list \<Rightarrow> nat \<Rightarrow> string \<Rightarrow> string option \<Rightarrow> (nat \<Rightarrow> poll) \<Rightarrow> 'a http_server_scheme \<Rightarrow>
   'a http_server_scheme \<times> string option \<times> nat"
where
  "server_start args attempts failed_text spawn polls b =
     (if hs_client b then (b, None, 0)
      else
        (case spawn of
           Some m \<Rightarrow> (b, Some m, 0)
         | None \<Rightarrow>
             (let b1 = b\<lparr>hs_process := Some \<lparr>sp_args = args, sp_returncode = None\<rparr>, hs_client := True\<rparr>;
                  (h, waited) = poll_health attempts 0 polls in
              (b1, case h of Healthy \<Rightarrow> None | GaveUp \<Rightarrow> Some failed_text | Broke m \<Rightarrow> Some m, waited))))"

definition llama_start ::
  "string option \<Rightarrow> (nat \<Rightarrow> poll) \<Rightarrow> llama_cpp_backend \<Rightarrow> llama_cpp_backend \<times> string option \<times> nat"
where
  "llama_start spawn polls b =
     server_start (llama_args b) 120
       (''llama-server failed to start on '' @ base_url b @ '' (model='' @ hs_model_path b @ '')'')
       spawn polls b"

definition vllm_start ::
  "(rat \<Rightarrow> string) \<Rightarrow> string option \<Rightarrow> (nat \<Rightarrow> poll) \<Rightarrow> vllm_backend \<Rightarrow> vllm_backend \<times> string option \<times> nat"
where
  "vllm_start fmt spawn polls b =
     server_start (vllm_args fmt b) 600
       (''vllm serve failed to start on '' @ base_url b @ '' (model='' @ hs_model_path b @ '')'')
       spawn polls b"

section \<open>Stop\<close>

datatype signal = SIGTERM | SIGKILL

text \<open>\<open>exit_after\<close> is how long the child takes to exit once terminated, \<open>None\<close> if it
  ignores the signal; the result lists the signals sent.\<close>

definition server_stop ::
  "seconds \<Rightarrow> seconds option \<Rightarrow> 'a http_server_scheme \<Rightarrow> 'a http_server_scheme \<times> signal list"
where
  "server_stop grace exit_after b =
     (let b1 = (if hs_client b then b\<lparr>hs_client := False\<rparr> else b) in
      case hs_process b1 of
        None \<Rightarrow> (b1, [])
      | Some p \<Rightarrow>
          if sp_returncode p = None
          then (b1\<lparr>hs_process := None\<rparr>,
                case exit_after of
                  Some t \<Rightarrow> if t < grace then [SIGTERM] else [SIGTERM, SIGKILL]
                | None \<Rightarrow> [SIGTERM, SIGKILL])
          else (b1, []))"

definition llama_stop :: "seconds option \<Rightarrow> llama_cpp_backend \<Rightarrow> llama_cpp_backend \<times> signal list" where
  "llama_stop exit_after b = server_stop 5 exit_after b"

definition vllm_stop :: "seconds option \<Rightarrow> vllm_backend \<Rightarrow> vllm_backend \<times> signal list" where
  "vllm_stop exit_after b = server_stop 10 exit_after b"

section \<open>The request\<close>

definition message_json :: "chat_message \<Rightarrow> json" where
  "message_json m = JObj [(''role'', JStr (role_str (role m))), (''content'', JStr (content m))]"

definition chat_payload :: "(rat \<Rightarrow> string) \<Rightarrow> string \<Rightarrow> runtime_request \<Rightarrow> json" where
  "chat_payload fmt model_path q =
     JObj [(''model'', JStr model_path),
           (''messages'', JArr (map message_json (messages q))),
           (''max_tokens'', JInt (max_tokens (sampling q))),
           (''temperature'', JFloat (fmt (temperature (sampling q)))),
           (''top_p'', JFloat (fmt (top_p (sampling q)))),
           (''stream'', JBool True)]"

section \<open>Reading the answer\<close>

datatype http_error =
    NotStarted string
  | TransportError string
  | StatusError string
  | BadJson json_error
  | NoAttribute
  | NotIterable
  | NonTextToken

text \<open>Python's truth value of a decoded value. A float literal counts as zero when its mantissa
  has no digit but zero.\<close>

fun json_truthy :: "json \<Rightarrow> bool" where
  "json_truthy JNull = False"
| "json_truthy (JBool b) = b"
| "json_truthy (JInt i) = (i \<noteq> 0)"
| "json_truthy (JFloat t) =
     (\<exists>c \<in> set (takeWhile (\<lambda>c. c \<noteq> CHR ''e'' \<and> c \<noteq> CHR ''E'') t). c \<notin> set ''-0.'')"
| "json_truthy (JStr s) = (s \<noteq> [])"
| "json_truthy (JArr xs) = (xs \<noteq> [])"
| "json_truthy (JObj kvs) = (kvs \<noteq> [])"

text \<open>\<open>d.get(k, dflt)\<close> and \<open>for x in d\<close> on a decoded value of any type.\<close>

fun json_get :: "json \<Rightarrow> string \<Rightarrow> json \<Rightarrow> http_error + json" where
  "json_get (JObj kvs) k dflt = Inr (dict_get kvs k dflt)"
| "json_get _ k dflt = Inl NoAttribute"

fun json_iter :: "json \<Rightarrow> http_error + json list" where
  "json_iter (JArr xs) = Inr xs"
| "json_iter (JObj kvs) = Inr (map (\<lambda>kv. JStr (fst kv)) kvs)"
| "json_iter (JStr s) = Inr (map (\<lambda>c. JStr [c]) s)"
| "json_iter _ = Inl NotIterable"

definition choice_token :: "json \<Rightarrow> http_error + json" where
  "choice_token choice =
     (case json_get choice ''delta'' (JObj []) of
        Inl e \<Rightarrow> Inl e
      | Inr delta \<Rightarrow> json_get delta ''content'' (JStr ''''))"

fun choice_tokens :: "json list \<Rightarrow> json list \<times> http_error option" where
  "choice_tokens [] = ([], None)"
| "choice_tokens (c # cs) =
     (case choice_token c of
        Inl e \<Rightarrow> ([], Some e)
      | Inr t \<Rightarrow>
          (let (ts, exc) = choice_tokens cs in (if json_truthy t then t # ts else ts, exc)))"

definition read_line :: "string \<Rightarrow> json list \<times> http_error option" where
  "read_line raw_line =
     (let line = py_strip raw_line in
      if line = [] \<or> py_startswith line '':'' \<or> line = ''data: [DONE]'' then ([], None)
      else if py_startswith line ''data: '' then
        (case loads (drop 6 line) of
           Inl e \<Rightarrow> ([], Some (BadJson e))
         | Inr data \<Rightarrow>
             (case json_get data ''choices'' (JArr []) of
                Inl e \<Rightarrow> ([], Some e)
              | Inr choices \<Rightarrow>
                  (case json_iter choices of
                     Inl e \<Rightarrow> ([], Some e)
                   | Inr cs \<Rightarrow> choice_tokens cs)))
      else ([], None))"

fun read_lines :: "string list \<Rightarrow> http_error option \<Rightarrow> json list \<times> http_error option" where
  "read_lines [] broken = ([], broken)"
| "read_lines (l # ls) broken =
     (let (ts, exc) = read_line l in
      case exc of
        Some e \<Rightarrow> (ts, Some e)
      | None \<Rightarrow> (let (us, exc2) = read_lines ls broken in (ts @ us, exc2)))"

text \<open>The tokens of the model are texts; a true value that is not one ends the stream here,
  where the code would pass it on.\<close>

fun text_stream :: "json list \<Rightarrow> http_error option \<Rightarrow> string list \<times> http_error option" where
  "text_stream [] exc = ([], exc)"
| "text_stream (JStr s # ts) exc = (let (us, e) = text_stream ts exc in (s # us, e))"
| "text_stream (t # ts) exc = ([], Some NonTextToken)"

text \<open>The reply: no connection, or the exception of \<open>raise_for_status\<close> if it raises, the lines,
  and the exception that breaks the connection off if one does.\<close>

datatype http_reply = NoReply string | Reply "string option" "string list" "string option"

fun read_reply :: "http_reply \<Rightarrow> string list \<times> http_error option" where
  "read_reply (NoReply m) = ([], Some (TransportError m))"
| "read_reply (Reply status lines broken) =
     (case status of
        Some m \<Rightarrow> ([], Some (StatusError m))
      | None \<Rightarrow>
          (let (ts, exc) = read_lines lines (map_option TransportError broken) in text_stream ts exc))"

definition server_generate ::
  "(http_error \<Rightarrow> string) \<Rightarrow> (rat \<Rightarrow> string) \<Rightarrow> (json \<Rightarrow> http_reply) \<Rightarrow> string \<Rightarrow>
   'a http_server_scheme \<Rightarrow> runtime_request \<Rightarrow> string stream"
where
  "server_generate err fmt post name b q =
     (if \<not> hs_client b then ([], Some (err (NotStarted (name @ '' not started; call start() first''))))
      else
        (let (ts, exc) = read_reply (post (chat_payload fmt (hs_model_path b) q)) in
         (ts, map_option err exc)))"

definition llama_generate ::
  "(http_error \<Rightarrow> string) \<Rightarrow> (rat \<Rightarrow> string) \<Rightarrow> (json \<Rightarrow> http_reply) \<Rightarrow>
   llama_cpp_backend \<Rightarrow> runtime_request \<Rightarrow> string stream"
where
  "llama_generate err fmt post b q = server_generate err fmt post ''llama-server'' b q"

definition vllm_generate ::
  "(http_error \<Rightarrow> string) \<Rightarrow> (rat \<Rightarrow> string) \<Rightarrow> (json \<Rightarrow> http_reply) \<Rightarrow>
   vllm_backend \<Rightarrow> runtime_request \<Rightarrow> string stream"
where
  "vllm_generate err fmt post b q = server_generate err fmt post ''vllm serve'' b q"

section \<open>Lemmas on start and stop\<close>

lemma poll_health_bound: "snd (poll_health n k polls) \<le> n"
  by (induction n k polls rule: poll_health.induct) (auto simp: case_prod_beta)

lemma poll_health_all:
  "snd (poll_health n k polls) = n \<longleftrightarrow> (\<forall>i<n. retryable (polls (k + i)))"
proof (induction n k polls rule: poll_health.induct)
  case (2 n k polls)
  then show ?case
    by (cases "retryable (polls k)")
      (auto simp: case_prod_beta less_Suc_eq_0_disj all_conj_distrib)
qed simp

lemma poll_health_gave_up:
  "fst (poll_health n k polls) = GaveUp \<longleftrightarrow> (\<forall>i<n. retryable (polls (k + i)))"
proof (induction n k polls rule: poll_health.induct)
  case (2 n k polls)
  then show ?case
    by (cases "retryable (polls k)")
      (auto simp: case_prod_beta less_Suc_eq_0_disj all_conj_distrib split: poll.split)
qed simp

lemma poll_health_healthy:
  "fst (poll_health n k polls) = Healthy \<longleftrightarrow>
     (\<exists>j<n. polls (k + j) = PollStatus 200 \<and> (\<forall>i<j. retryable (polls (k + i))) \<and> snd (poll_health n k polls) = j)"
proof (induction n k polls rule: poll_health.induct)
  case (2 n k polls)
  show ?case
  proof (cases "retryable (polls k)")
    case True
    then have ne: "polls k \<noteq> PollStatus 200" by auto
    have "(\<exists>j<Suc n. polls (k + j) = PollStatus 200 \<and> (\<forall>i<j. retryable (polls (k + i))) \<and>
          Suc (snd (poll_health n (Suc k) polls)) = j)
      \<longleftrightarrow> (\<exists>j<n. polls (Suc k + j) = PollStatus 200 \<and> (\<forall>i<j. retryable (polls (Suc k + i))) \<and>
          snd (poll_health n (Suc k) polls) = j)" (is "?l \<longleftrightarrow> ?r")
    proof
      assume ?l
      then obtain j where j: "j < Suc n" "polls (k + j) = PollStatus 200"
        "\<forall>i<j. retryable (polls (k + i))" "Suc (snd (poll_health n (Suc k) polls)) = j" by blast
      moreover have "retryable (polls (Suc k + i))" if "i < snd (poll_health n (Suc k) polls)" for i
        using j(3,4) that by (auto dest: spec [of _ "Suc i"])
      ultimately show ?r by auto
    next
      assume ?r
      then obtain j where j: "j < n" "polls (Suc k + j) = PollStatus 200"
        "\<forall>i<j. retryable (polls (Suc k + i))" "snd (poll_health n (Suc k) polls) = j" by blast
      have "retryable (polls (k + i))" if "i < Suc j" for i
        using that j(3) True by (cases i) auto
      with j show ?l by (intro exI [of _ "Suc j"]) auto
    qed
    with 2 True show ?thesis by (simp add: case_prod_beta)
  next
    case False
    then have "polls k = PollStatus 200 \<or> (\<exists>m. polls k = PollError m)"
      by (cases "polls k") auto
    then show ?thesis using False by auto
  qed
qed simp

lemma server_start_frame:
  "\<not> hs_client b \<Longrightarrow> hs_process (fst (server_start args n why None polls b))
     = Some \<lparr>sp_args = args, sp_returncode = None\<rparr>"
  "\<not> hs_client b \<Longrightarrow> hs_client (fst (server_start args n why None polls b))"
  by (simp_all add: server_start_def case_prod_beta Let_def)

lemma server_start_result:
  "\<not> hs_client b \<Longrightarrow> server_start args n why None polls b =
     (fst (server_start args n why None polls b),
      (case fst (poll_health n 0 polls) of Healthy \<Rightarrow> None | GaveUp \<Rightarrow> Some why | Broke m \<Rightarrow> Some m),
      snd (poll_health n 0 polls))"
  by (simp add: server_start_def case_prod_beta Let_def)

section \<open>The child process over a life\<close>

definition live_child :: "'a http_server_scheme \<Rightarrow> bool" where
  "live_child b \<longleftrightarrow> (\<exists>p. hs_process b = Some p \<and> sp_returncode p = None)"

text \<open>What happens to a backend: a start, a stop, or its child exits by itself.\<close>

datatype child_op = OpStart "string option" "nat \<Rightarrow> poll" | OpStop "seconds option" | OpExit int

fun server_op ::
  "string list \<Rightarrow> nat \<Rightarrow> string \<Rightarrow> seconds \<Rightarrow> child_op \<Rightarrow> 'a http_server_scheme \<Rightarrow> 'a http_server_scheme"
where
  "server_op args n why grace (OpStart spawn polls) b = fst (server_start args n why spawn polls b)"
| "server_op args n why grace (OpStop exit_after) b = fst (server_stop grace exit_after b)"
| "server_op args n why grace (OpExit code) b =
     (case hs_process b of
        Some p \<Rightarrow> if sp_returncode p = None then b\<lparr>hs_process := Some (p\<lparr>sp_returncode := Some code\<rparr>)\<rparr> else b
      | None \<Rightarrow> b)"

definition child_inv :: "'a http_server_scheme \<Rightarrow> bool" where
  "child_inv b \<longleftrightarrow> (live_child b \<longrightarrow> hs_client b)"

lemma server_op_inv: "child_inv b \<Longrightarrow> child_inv (server_op args n why grace opr b)"
proof (cases opr)
  case (OpStart spawn polls)
  then show "child_inv b \<Longrightarrow> child_inv (server_op args n why grace opr b)"
    by (cases spawn; cases "hs_client b") (auto simp: child_inv_def server_start_def case_prod_beta Let_def)
qed (auto simp: child_inv_def server_stop_def live_child_def Let_def split: option.splits if_splits)

lemma server_ops_inv: "child_inv b \<Longrightarrow> child_inv (fold (server_op args n why grace) ops b)"
  by (induction ops arbitrary: b) (simp_all add: server_op_inv)

lemma stop_no_child: "\<not> live_child (fst (server_stop grace exit_after b))"
  by (auto simp: server_stop_def live_child_def Let_def split: option.splits if_splits)

lemma stop_no_client: "\<not> hs_client (fst (server_stop grace exit_after b))"
  by (auto simp: server_stop_def Let_def split: option.split)

lemma live_after_restart:
  "live_child (fold (server_op args n why grace) (ops @ [OpStop e, OpStart None polls]) b)"
  by (simp add: live_child_def server_start_frame(1) [OF stop_no_client])

text \<open>A failed start leaves the client set, so the next start reports success at once. A stop after
  the child exited by itself keeps the process object.\<close>

lemma start_after_failed_start:
  assumes "\<not> hs_client b" and "server_start args n why None polls b = (b1, Some m, s)"
  shows "server_start args n why spawn polls' b1 = (b1, None, 0)"
proof -
  have "hs_client (fst (server_start args n why None polls b))"
    using assms(1) by (rule server_start_frame)
  then have "hs_client b1" using assms(2) by simp
  then show ?thesis by (simp add: server_start_def)
qed

lemma stop_keeps_exited:
  "hs_process b = Some p \<Longrightarrow> sp_returncode p = Some c \<Longrightarrow>
   hs_process (fst (server_stop grace exit_after b)) = Some p"
  by (simp add: server_stop_def Let_def)

section \<open>Properties\<close>

text \<open>How a start may end: within \<open>n\<close> polls, without an exception exactly when some poll is
  answered with 200 after nothing but retryable ones, and with its own error when all are retryable.\<close>

definition start_settled :: "nat \<Rightarrow> string \<Rightarrow> (nat \<Rightarrow> poll) \<Rightarrow> string option \<Rightarrow> nat \<Rightarrow> bool" where
  "start_settled n failed_text polls exc waited \<longleftrightarrow>
     waited \<le> n \<and>
     (exc = None \<longleftrightarrow> (\<exists>j<n. polls j = PollStatus 200 \<and> (\<forall>i<j. retryable (polls i)) \<and> waited = j)) \<and>
     (waited = n \<longleftrightarrow> (\<forall>i<n. retryable (polls i))) \<and>
     (waited = n \<longrightarrow> exc = Some failed_text)"

lemma server_start_settled:
  assumes "\<not> hs_client b"
  shows "case server_start args n why None polls b of (b', exc, waited) \<Rightarrow>
    start_settled n why polls exc waited \<and> hs_client b' \<and>
    hs_process b' = Some \<lparr>sp_args = args, sp_returncode = None\<rparr>"
proof -
  have "fst (poll_health n 0 polls) = GaveUp \<longleftrightarrow> snd (poll_health n 0 polls) = n"
    by (simp add: poll_health_gave_up poll_health_all)
  then show ?thesis
    using assms poll_health_bound [of n 0 polls] poll_health_healthy [of n 0 polls] poll_health_all [of n 0 polls]
    by (auto simp: server_start_def case_prod_beta Let_def start_settled_def split: health.split)
qed


definition wit_polls :: "nat \<Rightarrow> poll" where
  "wit_polls k = (if k < 2 then PollConnectError else if k = 2 then PollStatus 503 else PollStatus 200)"


text \<open>
  C20: One child at a time, none left behind. Over any sequence of starts (with any outcome), stops
  and exits of the child: while the child runs, a further start starts nothing and reports success;
  a stop leaves no running child, having terminated a running one first and killed it only when it
  outlives the grace period.
\<close>

theorem one_child_process:
  assumes "hs_process b0 = None" and "b = fold (server_op args n why grace) ops b0"
  shows "(live_child b \<longrightarrow> server_start args n why spawn polls b = (b, None, 0)) \<and>
    \<not> live_child (fst (server_stop grace exit_after b)) \<and> \<not> hs_client (fst (server_stop grace exit_after b)) \<and>
    (live_child b \<longleftrightarrow> SIGTERM \<in> set (snd (server_stop grace exit_after b))) \<and>
    (SIGKILL \<in> set (snd (server_stop grace exit_after b)) \<longleftrightarrow>
       live_child b \<and> (\<forall>t. exit_after = Some t \<longrightarrow> grace \<le> t))"
proof -
  have "child_inv b0" using assms(1) by (simp add: child_inv_def live_child_def)
  then have "child_inv b" unfolding assms(2) by (rule server_ops_inv)
  then have "live_child b \<longrightarrow> server_start args n why spawn polls b = (b, None, 0)"
    by (simp add: child_inv_def server_start_def)
  moreover have "live_child b \<longleftrightarrow> SIGTERM \<in> set (snd (server_stop grace exit_after b))"
    "SIGKILL \<in> set (snd (server_stop grace exit_after b)) \<longleftrightarrow>
       live_child b \<and> (\<forall>t. exit_after = Some t \<longrightarrow> grace \<le> t)"
    by (auto simp: server_stop_def live_child_def Let_def split: option.splits if_splits)
  ultimately show ?thesis by (simp add: stop_no_child stop_no_client)
qed

theorem one_child_process_witness:
  "let b = fold (server_op [''llama-server''] 120 ''failed'' 5)
       [OpStart None (\<lambda>k. PollStatus 200), OpExit 1, OpStop None, OpStart None (\<lambda>k. PollConnectError)]
       (init_llama_cpp ''m'' ''llama-server'' 2048 0 8081 False) in
   live_child b \<and> server_start [''llama-server''] 120 ''failed'' None (\<lambda>k. PollStatus 200) b = (b, None, 0) \<and>
   SIGKILL \<in> set (snd (server_stop 5 (Some 7) b))"
proof -
  let ?b0 = "init_llama_cpp ''m'' ''llama-server'' 2048 0 8081 False"
  let ?ops = "[OpStart None (\<lambda>k. PollStatus 200), OpExit 1, OpStop None, OpStart None (\<lambda>k. PollConnectError)]"
  have none: "hs_process ?b0 = None" by (simp add: init_llama_cpp_def)
  let ?b = "fold (server_op [''llama-server''] 120 ''failed'' 5) ?ops ?b0"
  have "?ops = [OpStart None (\<lambda>k. PollStatus 200), OpExit 1] @ [OpStop None, OpStart None (\<lambda>k. PollConnectError)]"
    by simp
  then have live: "live_child ?b" by (simp only: live_after_restart)
  with one_child_process [OF none refl, where ops = ?ops and args = "[''llama-server'']" and n = 120
      and why = "''failed''" and grace = 5 and spawn = None and polls = "\<lambda>k. PollStatus 200"
      and exit_after = "Some 7"]
  show ?thesis unfolding Let_def by (simp del: fold.simps fold_simps)
qed

end
