(* ===== verification/Streaming.thy ===== *)
theory Streaming
  imports Settlement HttpBackend
begin

text \<open>
  \<open>api/streaming.py\<close>: the server-sent event frames and the generator that turns the queued
  events of a streaming handle into them, with its \<open>finally\<close> block. The client is the
  environment: it takes some number of frames and leaves, and when the events run out before that
  it leaves while the generator waits. The generator has been started, as the body of an
  asynchronous generator that never was does not run at all.
\<close>

section \<open>Frames\<close>

definition sse_event :: "json \<Rightarrow> string" where
  "sse_event payload = ''data: '' @ dumps payload @ [newline, newline]"

definition token_payload :: "string \<Rightarrow> string \<Rightarrow> string \<Rightarrow> json" where
  "token_payload i model token =
     JObj [(''id'', JStr i), (''object'', JStr ''chat.completion.chunk''), (''model'', JStr model),
       (''choices'', JArr [JObj [(''index'', JInt 0), (''delta'', JObj [(''content'', JStr token)]),
          (''finish_reason'', JNull)]])]"

definition error_payload :: "string \<Rightarrow> json" where
  "error_payload message = JObj [(''error'', JObj [(''message'', JStr message)])]"

fun event_chunk :: "string \<Rightarrow> string \<Rightarrow> stream_event \<Rightarrow> string" where
  "event_chunk i model (TokenEvent t) = sse_event (token_payload i model t)"
| "event_chunk i model (CompletedEvent r) = ''data: [DONE]'' @ [newline, newline]"
| "event_chunk i model (ErrorEvent m) = sse_event (error_payload m)"

section \<open>The generator\<close>

text \<open>The loop over the queued events; the client takes at most \<open>n\<close> frames. The result: the
  frames taken, the events left in the queue, the handle.\<close>

fun stream_loop ::
  "string \<Rightarrow> string \<Rightarrow> nat \<Rightarrow> stream_event list \<Rightarrow> streaming_handle \<Rightarrow>
   string list \<times> stream_event list \<times> streaming_handle"
where
  "stream_loop i model 0 es h = ([], es, h)"
| "stream_loop i model (Suc n) [] h = ([], [], h)"
| "stream_loop i model (Suc n) (TokenEvent t # es) h =
     (let (chunks, rest, h1) = stream_loop i model n es h in
      (event_chunk i model (TokenEvent t) # chunks, rest, h1))"
| "stream_loop i model (Suc n) (CompletedEvent r # es) h =
     ([event_chunk i model (CompletedEvent r)], es, mark_stream_completed h)"
| "stream_loop i model (Suc n) (ErrorEvent m # es) h =
     ([event_chunk i model (ErrorEvent m)], es, mark_stream_completed h)"

text \<open>The whole generator with its \<open>finally\<close>: the frames, whether \<open>on_cancel\<close> is awaited,
  and the handle.\<close>

definition chat_completion_stream ::
  "string \<Rightarrow> string \<Rightarrow> nat \<Rightarrow> streaming_handle \<Rightarrow> string list \<times> bool \<times> streaming_handle"
where
  "chat_completion_stream i model n h =
     (let (chunks, rest, h1) = stream_loop i model n (queue h) h;
          (cancelled, h2) = cancel_streaming (h1\<lparr>queue := rest\<rparr>) in
      (chunks, cancelled, h2))"

section \<open>What the generator delivers\<close>

text \<open>The events up to and including the first terminal one.\<close>

fun until_terminal :: "stream_event list \<Rightarrow> stream_event list" where
  "until_terminal [] = []"
| "until_terminal (e # es) = (if is_terminal e then [e] else e # until_terminal es)"

lemma stream_loop_result:
  "stream_loop i model n es h =
     (let seen = take n (until_terminal es) in
      (map (event_chunk i model) seen, drop (length seen) es,
       if \<exists>e \<in> set seen. is_terminal e then mark_stream_completed h else h))"
  by (induction i model n es h rule: stream_loop.induct) (auto simp: Let_def)

lemma until_terminal_tokens:
  "until_terminal (map TokenEvent ts @ e # es) =
     (if is_terminal e then map TokenEvent ts @ [e] else map TokenEvent ts @ e # until_terminal es)"
  by (induction ts) auto

lemma until_terminal_all_tokens [simp]: "until_terminal (map TokenEvent ts) = map TokenEvent ts"
  by (induction ts) auto

section \<open>Reading the frames back\<close>

lemma read_blank [simp]: "read_line [] = ([], None)"
  by (simp add: read_line_def py_strip_def py_lstrip_def)

lemma read_done [simp]: "read_line ''data: [DONE]'' = ([], None)"
  by (simp add: read_line_def py_strip_def py_lstrip_def py_isspace_def)

lemma read_data:
  assumes "json_ok (JObj kvs)"
  shows "read_line (''data: '' @ dumps (JObj kvs)) =
    (case json_iter (dict_get kvs ''choices'' (JArr [])) of
       Inl e \<Rightarrow> ([], Some e)
     | Inr cs \<Rightarrow> choice_tokens cs)"
proof -
  let ?l = "''data: '' @ dumps (JObj kvs)"
  obtain body where d: "dumps (JObj kvs) = ''{'' @ body @ ''}''" by simp
  have "py_strip ?l = ?l"
    unfolding d by (rule py_strip_id) (simp_all add: py_isspace_def)
  moreover have "?l \<noteq> ''data: [DONE]''" unfolding d by simp
  moreover have "\<not> py_startswith ?l '':''" "py_startswith ?l ''data: ''" by (simp_all add: py_startswith_def)
  moreover have "drop 6 ?l = dumps (JObj kvs)" by (simp del: dumps.simps)
  ultimately show ?thesis
    using loads_dumps [OF assms] by (simp add: read_line_def Let_def del: dumps.simps)
qed

lemma payload_ok: "json_ok (token_payload i model t)" "json_ok (error_payload m)"
  by (simp_all add: token_payload_def error_payload_def) (simp add: str_nat.simps)

lemma read_token: "read_line (''data: '' @ dumps (token_payload i model t)) =
    (if t = '''' then [] else [JStr t], None)"
  using payload_ok(1) [of i model t] unfolding token_payload_def
  by (subst read_data) (simp_all add: dict_get_def choice_token_def Let_def)

lemma read_error: "read_line (''data: '' @ dumps (error_payload m)) = ([], None)"
  using payload_ok(2) [of m] unfolding error_payload_def
  by (subst read_data) (simp_all add: dict_get_def)

fun event_line :: "string \<Rightarrow> string \<Rightarrow> stream_event \<Rightarrow> string" where
  "event_line i model (TokenEvent t) = ''data: '' @ dumps (token_payload i model t)"
| "event_line i model (CompletedEvent r) = ''data: [DONE]''"
| "event_line i model (ErrorEvent m) = ''data: '' @ dumps (error_payload m)"

lemma event_chunk_lines: "event_chunk i model e = concat (map (\<lambda>l. l @ [newline]) [event_line i model e, []])"
  by (cases e) (simp_all add: sse_event_def)

lemma event_line_printable: "\<forall>c \<in> set (event_line i model e). printable c"
proof -
  have d: "\<forall>c \<in> set ''data: ''. printable c" "\<forall>c \<in> set ''data: [DONE]''. printable c"
    by (simp_all add: printable_def)
  then show ?thesis
    using printable_dumps [OF payload_ok(1)] printable_dumps [OF payload_ok(2)]
    by (cases e) (simp_all only: event_line.simps set_append Un_iff ball_Un, blast+)
qed

text \<open>\<open>aiter_lines\<close> of the HTTP library splits a body at its line ends.\<close>

definition splits_lines :: "(string \<Rightarrow> string list) \<Rightarrow> bool" where
  "splits_lines aiter_lines \<longleftrightarrow>
     (\<forall>ls. (\<forall>l \<in> set ls. \<forall>c \<in> set l. printable c) \<longrightarrow>
        aiter_lines (concat (map (\<lambda>l. l @ [newline]) ls)) = ls)"

lemma chunks_lines:
  assumes "splits_lines aiter_lines"
  shows "aiter_lines (concat (map (event_chunk i model) es))
    = concat (map (\<lambda>e. [event_line i model e, []]) es)"
proof -
  let ?ls = "concat (map (\<lambda>e. [event_line i model e, []]) es)"
  have "concat (map (event_chunk i model) es) = concat (map (\<lambda>l. l @ [newline]) ?ls)"
    by (induction es) (simp_all add: event_chunk_lines)
  moreover have "\<forall>l \<in> set ?ls. \<forall>c \<in> set l. printable c"
    using event_line_printable by fastforce
  ultimately show ?thesis using assms unfolding splits_lines_def by metis
qed

fun event_token :: "stream_event \<Rightarrow> string list" where
  "event_token (TokenEvent t) = (if t = '''' then [] else [t])"
| "event_token e = []"

lemma read_event: "read_line (event_line i model e) = (map JStr (event_token e), None)"
  by (cases e) (simp_all add: read_token [simplified] read_error [simplified])

lemma read_events:
  "read_lines (concat (map (\<lambda>e. [event_line i model e, []]) es)) None
     = (map JStr (concat (map event_token es)), None)"
  by (induction es) (simp_all add: read_event)

lemma text_stream_strings [simp]: "text_stream (map JStr ts) exc = (ts, exc)"
  by (induction ts) simp_all

lemma read_chunks:
  assumes "splits_lines aiter_lines"
  shows "read_reply (Reply None (aiter_lines (concat (map (event_chunk i model) es))) None)
    = (concat (map event_token es), None)"
  by (simp add: chunks_lines [OF assms] read_events)

lemma concat_event_token: "concat (map event_token (map TokenEvent ts)) = filter (\<lambda>t. t \<noteq> '''') ts"
  by (induction ts) simp_all

section \<open>Properties\<close>

text \<open>
  C19: The stream of a request. A client that takes at most \<open>n\<close> frames gets the first \<open>n\<close>
  of the frames of the queued events up to the first completion or error, in order and one frame per
  event; nothing after a terminal event is sent. The cancellation callback runs exactly when the
  client left before a terminal event, and then the handle is cancelled; otherwise it is completed
  and can not be cancelled any more.
\<close>

theorem stream_frames:
  assumes "\<not> sh_cancelled h" and "\<not> sh_completed h"
  shows "let es = take n (until_terminal (queue h));
      (chunks, cancelled, h') = chat_completion_stream i model n h in
    chunks = map (event_chunk i model) es \<and>
    (cancelled \<longleftrightarrow> (\<forall>e \<in> set es. \<not> is_terminal e)) \<and>
    queue h' = drop (length es) (queue h) \<and>
    sh_cancelled h' = cancelled \<and> sh_completed h' = (\<not> cancelled)"
  using assms
  by (auto simp: chat_completion_stream_def stream_loop_result Let_def cancel_streaming_def
      mark_stream_completed_def)

theorem stream_frames_witness:
  "let h = create_streaming\<lparr>queue := [TokenEvent ''a'', TokenEvent ''b'', CompletedEvent ''stop'']\<rparr> in
   fst (snd (chat_completion_stream ''i'' ''m'' 2 h)) \<and> \<not> fst (snd (chat_completion_stream ''i'' ''m'' 3 h))"
proof -
  let ?h = "create_streaming\<lparr>queue := [TokenEvent ''a'', TokenEvent ''b'', CompletedEvent ''stop'']\<rparr>"
  have "\<not> sh_cancelled ?h" "\<not> sh_completed ?h" by (simp_all add: create_streaming_def)
  note s = stream_frames [OF this, where i = "''i''" and model = "''m''"]
  from s [of 2] s [of 3] show ?thesis
    by (simp add: Let_def case_prod_beta numeral_eq_Suc)
qed


text \<open>Splitting at newlines, for the witness.\<close>

fun split_newlines :: "string \<Rightarrow> string \<Rightarrow> string list" where
  "split_newlines w [] = (if w = [] then [] else [rev w])"
| "split_newlines w (c # cs) = (if c = newline then rev w # split_newlines [] cs else split_newlines (c # w) cs)"

lemma split_newlines_line:
  "newline \<notin> set l \<Longrightarrow> split_newlines w (l @ newline # s) = (rev w @ l) # split_newlines [] s"
  by (induction l arbitrary: w) auto

lemma split_newlines_splits: "splits_lines (split_newlines [])"
  unfolding splits_lines_def
proof (intro allI impI)
  fix ls :: "string list"
  assume "\<forall>l \<in> set ls. \<forall>c \<in> set l. printable c"
  moreover have "\<not> printable newline" by (simp add: printable_def)
  ultimately show "split_newlines [] (concat (map (\<lambda>l. l @ [newline]) ls)) = ls"
    by (induction ls) (auto simp: split_newlines_line)
qed


text \<open>An error frame is no error to that reader: a stream that broke off reads as a complete one.\<close>

lemma error_frame_swallowed:
  assumes "splits_lines aiter_lines"
    and "queue h = map TokenEvent ts @ ErrorEvent m # later" and "length ts < n"
  shows "read_reply (Reply None (aiter_lines (concat (fst (chat_completion_stream i model n h)))) None)
    = (filter (\<lambda>t. t \<noteq> '''') ts, None)"
proof -
  have c: "fst (chat_completion_stream i model n h)
      = map (event_chunk i model) (map TokenEvent ts @ [ErrorEvent m])"
    using assms(2,3)
    by (simp add: chat_completion_stream_def stream_loop_result Let_def until_terminal_tokens case_prod_beta)
  show ?thesis
    unfolding c read_chunks [OF assms(1)] by (simp only: map_append concat_append concat_event_token) simp
qed

end
