(* ===== verification/Routes.thy ===== *)
theory Routes
  imports Admission Accounting Manager Streaming
begin

text \<open>
  \<open>api/routes.py\<close> and the response side of \<open>api/schemas.py\<close>: the health and metrics
  endpoints and the chat completion endpoint. The latter is modelled in the pieces between its
  suspension points: admission and submission; then, for a plain request, the wait for the future,
  which ends because the future is done, because the time is up or because the client left; for a
  stream, the generator with its cancellation callback. What FastAPI makes of a returned model or an
  \<open>HTTPException\<close> is not modelled, nor is a backend exception that is itself a
  \<open>TimeoutError\<close>, which the wait would take for its own.
\<close>

section \<open>Responses\<close>

record usage_counts =
  prompt_tokens :: int
  completion_tokens :: int
  total_tokens :: int

record chat_completion_choice =
  cc_index :: int
  cc_message :: chat_message
  cc_finish_reason :: string

record chat_completion_response =
  cr_id :: string
  cr_object :: string
  cr_model :: string
  cr_choices :: "chat_completion_choice list"
  cr_usage :: usage_counts

datatype http_result = HttpResponse chat_completion_response | HttpError int string | HttpCancelled

section \<open>Health and metrics\<close>

definition health_body :: "(string \<times> string) list" where
  "health_body = [(''status'', ''ok'')]"

text \<open>\<open>sub in s\<close> on strings.\<close>

fun py_in :: "string \<Rightarrow> string \<Rightarrow> bool" where
  "py_in sub [] = (sub = [])"
| "py_in sub (c # cs) = (py_startswith (c # cs) sub \<or> py_in sub cs)"

datatype metrics_reply = PlainText string | JsonSnapshot metrics_snapshot nat

definition get_metrics ::
  "(rat \<Rightarrow> string) \<Rightarrow> string \<Rightarrow> gpu_exn + gpu_snapshot \<Rightarrow> nat \<Rightarrow> metrics_collector \<Rightarrow> gpu_exn + metrics_reply"
where
  "get_metrics fmt accept gpu queue_size m =
     (if py_in ''text/plain'' accept
      then (case snapshot_prometheus fmt queue_size gpu m of Inl e \<Rightarrow> Inl e | Inr t \<Rightarrow> Inr (PlainText t))
      else (case collector_snapshot fmt gpu m of Inl e \<Rightarrow> Inl e | Inr s \<Rightarrow> Inr (JsonSnapshot s queue_size)))"

section \<open>Admission and submission\<close>

record 's services =
  sv_admission :: admission_controller
  sv_scheduler :: 's
  sv_state :: runtime_state

text \<open>The clock readings of one call.\<close>

record post_times =
  pt_created :: seconds
  pt_admit :: seconds
  pt_enqueued :: seconds
  pt_queued :: seconds

definition new_channel :: "chat_completion_request \<Rightarrow> response_handle" where
  "new_channel body =
     (if ccr_stream body then Streaming create_streaming else Completion create_completion)"

text \<open>\<open>r\<close> is the reference of the scheduled request that an accepted call creates.\<close>

definition receive_request ::
  "('s \<Rightarrow> nat) \<Rightarrow> (submission \<Rightarrow> store \<Rightarrow> 's \<Rightarrow> store \<times> 's) \<Rightarrow> post_times \<Rightarrow> string \<Rightarrow> ref \<Rightarrow>
   chat_completion_request \<Rightarrow> 's services \<Rightarrow> admission_decision \<times> 's services"
where
  "receive_request size_of submit pt uuid r body sv =
     (let q = from_chat_request uuid (pt_created pt) body;
          st1 = log_emit (RequestReceived (request_id q) (ccr_model body) (ccr_stream body)) (sv_state sv);
          (d, adm) = admit (int (size_of (sv_scheduler sv))) (pt_admit pt) (sv_admission sv) in
      if \<not> accepted d then
        (d, sv\<lparr>sv_admission := adm,
               sv_state := log_emit (RequestRejected (request_id q) (reason d) (status_code d))
                 (st1\<lparr>st_metrics := record_rejection (priority q) (reason d) (st_metrics st1)\<rparr>)\<rparr>)
      else
        (let st2 = st1\<lparr>st_metrics := record_request (st_metrics st1)\<rparr>;
             st3 = on_store (\<lambda>h. h(r := \<lparr>request = q, handle = new_channel body\<rparr>)) st2;
             (h, s) = submit \<lparr>sub_ref = r, sub_now = pt_enqueued pt, sub_time = pt_queued pt\<rparr>
               (st_store st3) (sv_scheduler sv) in
         (d, sv\<lparr>sv_admission := adm, sv_scheduler := s,
                sv_state := log_emit (RequestEnqueued (request_id q)) (st3\<lparr>st_store := h\<rparr>)\<rparr>)))"

section \<open>The answer to a plain request\<close>

definition completion_response :: "string \<Rightarrow> runtime_request \<Rightarrow> generation_result \<Rightarrow> chat_completion_response" where
  "completion_response model q result =
     (let used = prompt_token_estimate q; produced = int (length (gr_tokens result)) in
      \<lparr>cr_id = gr_request_id result, cr_object = ''chat.completion'', cr_model = model,
       cr_choices = [\<lparr>cc_index = 0,
         cc_message = \<lparr>role = RoleAssistant, content = concat (gr_tokens result)\<rparr>,
         cc_finish_reason = ''stop''\<rparr>],
       cr_usage = \<lparr>prompt_tokens = used, completion_tokens = produced, total_tokens = used + produced\<rparr>\<rparr>)"

datatype wait_end = FutureDone | TimedOut | ClientGone

definition log_completed :: "clock \<Rightarrow> seconds \<Rightarrow> ref \<Rightarrow> nat \<Rightarrow> runtime_state \<Rightarrow> runtime_state" where
  "log_completed ck t0 r n st =
     tick (log_emit (RequestCompleted (rid (st_store st) r) n ((now ck st - t0) * 1000)) st)"

text \<open>\<open>None\<close>: the future is not done, so the wait goes on. A cancelled future ends the wait with
  \<open>CancelledError\<close>. \<open>fmt3\<close> prints a number with three decimals.\<close>

definition await_completion ::
  "clock \<Rightarrow> (rat \<Rightarrow> string) \<Rightarrow> rat \<Rightarrow> seconds \<Rightarrow> string \<Rightarrow> ref \<Rightarrow> wait_end \<Rightarrow> runtime_state \<Rightarrow>
   (http_result \<times> runtime_state) option"
where
  "await_completion ck fmt3 timeout_s t0 model r outc st =
     (let gone = Some (HttpCancelled, abort_ref ck ''client disconnected'' r st) in
      case outc of
        TimedOut \<Rightarrow>
          Some (HttpError 504 ''request timed out'',
            abort_ref ck (''request timed out after '' @ fmt3 timeout_s @ ''s'') r st)
      | ClientGone \<Rightarrow> gone
      | FutureDone \<Rightarrow>
          (case handle (st_store st r) of
             Streaming h \<Rightarrow> None
           | Completion h \<Rightarrow>
               (case fut h of
                  Pending \<Rightarrow> None
                | Cancelled \<Rightarrow> gone
                | Failed m \<Rightarrow> Some (HttpError 500 m, log_emit (RequestFailed (rid (st_store st) r) m) st)
                | Result g \<Rightarrow>
                    Some (HttpResponse (completion_response model (request (st_store st r)) g),
                      log_completed ck t0 r (length (gr_tokens g)) st))))"

section \<open>The answer to a stream\<close>

definition cancel_stream :: "clock \<Rightarrow> ref \<Rightarrow> runtime_state \<Rightarrow> runtime_state" where
  "cancel_stream ck r st =
     (let st1 = fail_request ck r st in
      log_emit (RequestFailed (rid (st_store st1) r) ''stream disconnected'') st1)"

definition serve_stream ::
  "clock \<Rightarrow> string \<Rightarrow> nat \<Rightarrow> ref \<Rightarrow> runtime_state \<Rightarrow> (string list \<times> runtime_state) option"
where
  "serve_stream ck model n r st =
     (case handle (st_store st r) of
        Completion h \<Rightarrow> None
      | Streaming h \<Rightarrow>
          (let (chunks, cancelled, h') = chat_completion_stream (rid (st_store st) r) model n h;
               st1 = on_store (upd_handle (\<lambda>_. Streaming h') r) st in
           Some (chunks, if cancelled then cancel_stream ck r st1 else st1)))"

section \<open>What the pieces do\<close>

text \<open>A client that leaves before it takes another frame is the abort of the worker's model.\<close>

lemma serve_stream_leave:
  assumes "handle (st_store st r) = Streaming h"
  shows "serve_stream ck model 0 r st = Some ([], abort_ref ck ''stream disconnected'' r st)"
proof -
  have "upd_handle (\<lambda>_. Streaming (snd (cancel_streaming h))) r (st_store st)
      = upd_handle (snd \<circ> cancel_handle) r (st_store st)"
    using assms by (simp add: upd_handle_def case_prod_beta)
  then show ?thesis
    using assms
    by (simp add: serve_stream_def chat_completion_stream_def abort_ref_def cancel_stream_def Let_def
        case_prod_beta on_store_def)
qed

lemma receive_request_rejected:
  assumes "receive_request size_of submit pt uuid r body sv = (d, sv')" and "\<not> accepted d"
  shows "sv_scheduler sv' = sv_scheduler sv \<and> st_store (sv_state sv') = st_store (sv_state sv) \<and>
    st_metrics (sv_state sv') = record_rejection (ccr_priority body) (reason d) (st_metrics (sv_state sv))"
  using assms
  by (auto simp: receive_request_def Let_def log_emit_def from_chat_request_def split: prod.splits if_splits)

lemma receive_request_accepted:
  assumes "receive_request size_of submit pt uuid r body sv = (d, sv')" and "accepted d"
  shows "(st_store (sv_state sv'), sv_scheduler sv') =
      submit \<lparr>sub_ref = r, sub_now = pt_enqueued pt, sub_time = pt_queued pt\<rparr>
        ((st_store (sv_state sv))(r := \<lparr>request = from_chat_request uuid (pt_created pt) body,
           handle = new_channel body\<rparr>)) (sv_scheduler sv) \<and>
    st_metrics (sv_state sv') = record_request (st_metrics (sv_state sv))"
  using assms
  by (auto simp: receive_request_def Let_def log_emit_def on_store_def split: prod.splits if_splits)

lemma new_channel_fresh:
  "settleable (new_channel body)" "\<not> handle_cancelled (new_channel body)"
  by (simp_all add: new_channel_def create_streaming_def create_completion_def)

lemma servable_new:
  assumes "servable rs h" and "r \<notin> set rs" and "request_id q \<notin> rid h ` set rs"
    and "1 \<le> max_tokens (sampling q)" and "settleable c" and "\<not> handle_cancelled c"
  shows "servable (r # rs) (h(r := \<lparr>request = q, handle = c\<rparr>))"
proof -
  let ?h = "h(r := \<lparr>request = q, handle = c\<rparr>)"
  have same: "?h x = h x" if "x \<in> set rs" for x using that assms(2) by auto
  then have m: "map (rid ?h) rs = map (rid h) rs" by simp
  have "rid ?h r = request_id q" by simp
  with assms(1,3) have "distinct (map (rid ?h) (r # rs))"
    by (simp only: list.map distinct.simps m set_map servable_def) simp
  moreover have "\<forall>x \<in> set (r # rs). settleable (handle (?h x)) \<and> \<not> handle_cancelled (handle (?h x)) \<and>
      1 \<le> max_tokens (sampling (request (?h x)))"
    using assms same by (auto simp: servable_def)
  ultimately show ?thesis unfolding servable_def by blast
qed

context service
begin

text \<open>An accepted call puts its request into the queue of open requests.\<close>

lemma receive_request_servable:
  assumes "receive_request qsize submit pt uuid r body sv = (d, sv')" and "accepted d"
    and "servable (contents (sv_scheduler sv)) (st_store (sv_state sv))"
    and "r \<notin> set (contents (sv_scheduler sv))"
    and "new_request_id uuid \<notin> rid (st_store (sv_state sv)) ` set (contents (sv_scheduler sv))"
    and "1 \<le> ccr_max_tokens body"
  shows "servable (contents (sv_scheduler sv')) (st_store (sv_state sv')) \<and>
    mset (contents (sv_scheduler sv')) = add_mset r (mset (contents (sv_scheduler sv))) \<and>
    handle (st_store (sv_state sv') r) = new_channel body \<and>
    request_id (request (st_store (sv_state sv') r)) = new_request_id uuid \<and>
    messages (request (st_store (sv_state sv') r)) = ccr_messages body \<and>
    sampling (request (st_store (sv_state sv') r)) = sampling (from_chat_request uuid (pt_created pt) body)"
proof -
  let ?q = "from_chat_request uuid (pt_created pt) body"
  let ?x = "\<lparr>sub_ref = r, sub_now = pt_enqueued pt, sub_time = pt_queued pt\<rparr>"
  let ?h = "(st_store (sv_state sv))(r := \<lparr>request = ?q, handle = new_channel body\<rparr>)"
  have sub: "submit ?x ?h (sv_scheduler sv) = (st_store (sv_state sv'), sv_scheduler sv')"
    using receive_request_accepted [OF assms(1,2)] by simp
  have ms: "mset (contents (sv_scheduler sv')) = add_mset r (mset (contents (sv_scheduler sv)))"
    using law_submit [of ?x ?h "sv_scheduler sv"] sub by simp
  have id: "same_identity ?h (st_store (sv_state sv'))"
    using law_submit_store [of ?h ?x "sv_scheduler sv"] sub by simp
  have "servable (r # contents (sv_scheduler sv)) ?h"
    using assms(3-6) by (intro servable_new new_channel_fresh) (simp_all add: from_chat_request_def)
  then have "servable (r # contents (sv_scheduler sv)) (st_store (sv_state sv'))"
    by (rule servable_frame [OF _ _ same_identity_touches [OF id]]) simp
  then have "servable (contents (sv_scheduler sv')) (st_store (sv_state sv'))"
    by (rule servable_mset [rotated]) (simp add: ms)
  with ms id show ?thesis by (simp add: same_identity_def from_chat_request_def)
qed

lemma posted_answered:
  assumes so: "iteration_order so" and total: "\<forall>rs. snd (generate_batch rs) = None"
    and tmo: "wm_batch_timeout_ms m = 0" and inv: "invar (sv_scheduler sv)"
    and post: "receive_request qsize submit pt uuid r body sv = (d, sv')" "accepted d"
    and q: "servable (contents (sv_scheduler sv)) (st_store (sv_state sv))"
      "r \<notin> set (contents (sv_scheduler sv))"
      "new_request_id uuid \<notin> rid (st_store (sv_state sv)) ` set (contents (sv_scheduler sv))"
      "1 \<le> ccr_max_tokens body"
    and len: "int (qsize (sv_scheduler sv)) < int k * max 1 (wm_max_batch_size m)"
  shows "\<exists>j bs st' s'. j \<le> k \<and>
    worker_loop next_batch generate_batch ck so m (replicate j (quiet_env c mk, \<lambda>_. []))
      (sv_state sv', sv_scheduler sv') = Some (bs, TaskRunning, st', s') \<and>
    rid (st_store st') r = new_request_id uuid \<and>
    messages (request (st_store st' r)) = ccr_messages body \<and>
    handle (st_store st' r) = delivered (new_request_id uuid)
      (fst (generate (from_chat_request uuid (pt_created pt) body))) (new_channel body)"
proof -
  note p = receive_request_servable [OF post q]
  have len': "int (length (contents (sv_scheduler sv'))) \<le> int k * max 1 (wm_max_batch_size m)"
    using len arg_cong [OF conjunct1 [OF conjunct2 [OF p]], of size] by (simp add: law_size)
  have inv': "invar (sv_scheduler sv')"
    using law_submit_invar [OF inv] receive_request_accepted [OF post] by (metis prod.sel(2))
  have rin: "r \<in> set (contents (sv_scheduler sv'))"
    using p by (metis add_mset_remove_trivial_eq set_mset_mset union_single_eq_member)
  have gen: "generate (request (st_store (sv_state sv') r)) = generate (from_chat_request uuid (pt_created pt) body)"
    using p by (intro law_generate) (simp_all add: from_chat_request_def)
  from loop_answers [OF so total tmo inv' conjunct1 [OF p] len', of ck c mk]
  obtain j bs st' s' where "j \<le> k"
    "worker_loop next_batch generate_batch ck so m (replicate j (quiet_env c mk, \<lambda>_. []))
      (sv_state sv', sv_scheduler sv') = Some (bs, TaskRunning, st', s')"
    and t: "touches_only (set (contents (sv_scheduler sv'))) (st_store (sv_state sv')) (st_store st')"
    and a: "\<forall>r \<in> set (contents (sv_scheduler sv')). handle (st_store st' r) = answered (st_store (sv_state sv')) r"
    by blast
  moreover have "handle (st_store st' r) = delivered (new_request_id uuid)
      (fst (generate (from_chat_request uuid (pt_created pt) body))) (new_channel body)"
    using a rin gen p by simp
  moreover have "rid (st_store st') r = new_request_id uuid" "messages (request (st_store st' r)) = ccr_messages body"
    using t p by (simp_all add: touches_only_def)
  ultimately show ?thesis by blast
qed

end

section \<open>Properties\<close>

lemma delivered_completion:
  "delivered i toks (Completion create_completion) =
     Completion (create_completion\<lparr>fut := Result \<lparr>gr_request_id = i, gr_tokens = toks, gr_finish_reason = ''stop''\<rparr>\<rparr>)"
  "delivered i toks (Streaming create_streaming) =
     Streaming (create_streaming\<lparr>queue := map TokenEvent toks @ [CompletedEvent ''stop'']\<rparr>)"
  by (simp_all add: delivered_cases create_streaming_def)

lemma serve_delivered:
  assumes "handle (st_store st r) = delivered i toks (Streaming create_streaming)" and "rid (st_store st) r = i"
    and "length toks < n"
  shows "\<exists>st'. serve_stream ck model n r st =
    Some (map (event_chunk i model) (map TokenEvent toks @ [CompletedEvent ''stop'']), st') \<and>
    st_metrics st' = st_metrics st \<and> st_log st' = st_log st"
  using assms
  by (simp add: serve_stream_def delivered_completion chat_completion_stream_def stream_loop_result
      until_terminal_tokens Let_def case_prod_beta mark_stream_completed_def cancel_streaming_def on_store_def)


definition wit_body :: chat_completion_request where
  "wit_body = \<lparr>ccr_model = ''m'', ccr_messages = [\<lparr>role = RoleUser, content = ''hi''\<rparr>], ccr_max_tokens = 2,
     ccr_temperature = 1, ccr_top_p = 1, ccr_stream = False, ccr_priority = 0\<rparr>"

definition wit_times :: post_times where
  "wit_times = \<lparr>pt_created = 1, pt_admit = 2, pt_enqueued = 3, pt_queued = 4\<rparr>"

definition wit_services :: "int \<Rightarrow> 's \<Rightarrow> 's services" where
  "wit_services cap s = \<lparr>sv_admission = init_controller cap 0 0 0, sv_scheduler = s, sv_state = wit_state\<rparr>"




end
