(* ===== verification/Lifecycle.thy ===== *)
theory Lifecycle
  imports Config Routes
begin

text \<open>
  \<open>core/lifecycle.py\<close> and \<open>main.py\<close>: the choice of scheduler and backend, the batch
  parameters and the number of workers that follow from the settings and the backend's
  capabilities, the services shared by the handlers with their start and stop, and the application's
  life: logging set-up, start, serving, stop. What happens while the application serves is an
  argument.
\<close>

section \<open>Choices\<close>

datatype any_scheduler = SchedFifo fifo | SchedPriority priority_scheduler

datatype any_backend = BackMock mock_backend | BackLlama llama_cpp_backend | BackVllm vllm_backend

fun backend_capabilities :: "any_backend \<Rightarrow> capabilities" where
  "backend_capabilities (BackMock b) = mock_capabilities"
| "backend_capabilities (BackLlama b) = llama_capabilities"
| "backend_capabilities (BackVllm b) = vllm_capabilities"

definition build_scheduler :: "settings \<Rightarrow> any_scheduler" where
  "build_scheduler s =
     (if cf_scheduler s = ''priority''
      then SchedPriority (prio_init (cf_priority_aging_boost_interval_s s))
      else SchedFifo fifo_init)"

definition build_backend :: "settings \<Rightarrow> any_backend" where
  "build_backend s =
     (if cf_backend s = ''llama.cpp'' then
        BackLlama (init_llama_cpp (cf_model_path s) ''llama-server'' (cf_n_ctx s) (cf_n_gpu_layers s) 8081 False)
      else if cf_backend s = ''vllm'' then
        BackVllm (init_vllm (cf_model_path s) (cf_vllm_command s) (cf_vllm_port s)
          (cf_vllm_gpu_memory_utilization s) (cf_vllm_max_model_len s))
      else BackMock (init_mock (cf_prefill_latency_ms s) (cf_decode_latency_ms s)))"

definition dispatch_batch_params :: "settings \<Rightarrow> any_backend \<Rightarrow> int \<times> int" where
  "dispatch_batch_params configured b =
     (if \<not> cf_enable_batching configured then (1, 0)
      else if NATIVE_BATCHING \<in> backend_capabilities b then (1, 0)
      else (cf_max_batch_size configured, cf_batch_timeout_ms configured))"

definition dispatch_worker_count :: "settings \<Rightarrow> any_backend \<Rightarrow> int" where
  "dispatch_worker_count configured b =
     (if NATIVE_BATCHING \<in> backend_capabilities b then cf_native_backend_concurrency configured else 1)"

section \<open>The services\<close>

record runtime_services =
  rt_metrics :: metrics_collector
  rt_scheduler :: any_scheduler
  rt_admission :: admission_controller
  rt_manager :: worker_manager
  rt_backend :: any_backend
  rt_request_timeout_s :: rat

text \<open>\<open>start_at\<close> is the clock reading of the admission controller's bucket.\<close>

definition create_services ::
  "string \<Rightarrow> environ \<Rightarrow> settings option \<Rightarrow> any_backend option \<Rightarrow> seconds \<Rightarrow> config_error + runtime_services"
where
  "create_services here env given given_backend start_at =
     and_then (case given of Some s \<Rightarrow> Inr s | None \<Rightarrow> get_settings here env) (\<lambda>configured.
       let b = (case given_backend of Some b \<Rightarrow> b | None \<Rightarrow> build_backend configured);
           (batch_size, batch_timeout) = dispatch_batch_params configured b in
       Inr \<lparr>rt_metrics = init_collector,
            rt_scheduler = build_scheduler configured,
            rt_admission = init_controller (cf_max_queue_size configured)
              (cf_request_rate_limit_per_s configured) (cf_request_rate_limit_burst configured) start_at,
            rt_manager = init_manager batch_size batch_timeout (dispatch_worker_count configured b),
            rt_backend = b,
            rt_request_timeout_s = cf_request_timeout_s configured\<rparr>)"

fun start_backend ::
  "(rat \<Rightarrow> string) \<Rightarrow> string option \<Rightarrow> (nat \<Rightarrow> poll) \<Rightarrow> any_backend \<Rightarrow> any_backend \<times> string option"
where
  "start_backend fmt spawn polls (BackMock b) = (BackMock b, None)"
| "start_backend fmt spawn polls (BackLlama b) =
     (let (b1, exc, n) = llama_start spawn polls b in (BackLlama b1, exc))"
| "start_backend fmt spawn polls (BackVllm b) =
     (let (b1, exc, n) = vllm_start fmt spawn polls b in (BackVllm b1, exc))"

fun stop_backend :: "seconds option \<Rightarrow> any_backend \<Rightarrow> any_backend" where
  "stop_backend exit_after (BackMock b) = BackMock b"
| "stop_backend exit_after (BackLlama b) = BackLlama (fst (llama_stop exit_after b))"
| "stop_backend exit_after (BackVllm b) = BackVllm (fst (vllm_stop exit_after b))"

definition services_start ::
  "(rat \<Rightarrow> string) \<Rightarrow> string option \<Rightarrow> (nat \<Rightarrow> poll) \<Rightarrow> runtime_services \<Rightarrow> runtime_services \<times> string option"
where
  "services_start fmt spawn polls rt =
     (let (b, exc) = start_backend fmt spawn polls (rt_backend rt);
          rt1 = rt\<lparr>rt_backend := b\<rparr> in
      case exc of
        Some m \<Rightarrow> (rt1, Some m)
      | None \<Rightarrow> (rt1\<lparr>rt_manager := manager_start (rt_manager rt1)\<rparr>, None))"

definition services_stop :: "seconds option \<Rightarrow> runtime_services \<Rightarrow> runtime_services \<times> string option" where
  "services_stop exit_after rt =
     (let (m, exc) = manager_stop (rt_manager rt);
          rt1 = rt\<lparr>rt_manager := m\<rparr> in
      case exc of
        Some e \<Rightarrow> (rt1, Some e)
      | None \<Rightarrow> (rt1\<lparr>rt_backend := stop_backend exit_after (rt_backend rt1)\<rparr>, None))"

section \<open>The application\<close>

record logger =
  lg_handlers :: "string list"
  lg_level :: int

definition setup_logging :: "logger \<Rightarrow> logger" where
  "setup_logging lg = lg\<lparr>lg_handlers := [''JSONFormatter''], lg_level := 20\<rparr>"

fun scheduler_class :: "any_scheduler \<Rightarrow> string" where
  "scheduler_class (SchedFifo q) = ''FIFOScheduler''"
| "scheduler_class (SchedPriority s) = ''PriorityScheduler''"

fun backend_class :: "any_backend \<Rightarrow> string" where
  "backend_class (BackMock b) = ''MockBackend''"
| "backend_class (BackLlama b) = ''LlamaCppBackend''"
| "backend_class (BackVllm b) = ''VLLMBackend''"

definition started_line :: "runtime_services \<Rightarrow> string" where
  "started_line rt =
     ''runtime started (scheduler='' @ scheduler_class (rt_scheduler rt) @ '', backend='' @
       backend_class (rt_backend rt) @ '')''"

text \<open>\<open>lifespan\<close>: start, serve, and in any case stop; an exception of the stop replaces that of
  the serving. The last component holds the lines logged.\<close>

definition lifespan ::
  "(rat \<Rightarrow> string) \<Rightarrow> string option \<Rightarrow> (nat \<Rightarrow> poll) \<Rightarrow> seconds option \<Rightarrow>
   (runtime_services \<Rightarrow> runtime_services \<times> string option) \<Rightarrow> runtime_services \<Rightarrow>
   runtime_services \<times> string option \<times> string list"
where
  "lifespan fmt spawn polls exit_after serve rt =
     (let (rt1, exc) = services_start fmt spawn polls rt in
      case exc of
        Some e \<Rightarrow> (rt1, Some e, [])
      | None \<Rightarrow>
          (let (rt2, exc2) = serve rt1;
               (rt3, exc3) = services_stop exit_after rt2 in
           case exc3 of
             Some e \<Rightarrow> (rt3, Some e, [started_line rt1])
           | None \<Rightarrow> (rt3, exc2, [started_line rt1, ''runtime stopped''])))"

text \<open>The line of the request log; \<open>fmt1\<close> prints a number with one decimal.\<close>

definition access_log_line :: "(rat \<Rightarrow> string) \<Rightarrow> string \<Rightarrow> string \<Rightarrow> int \<Rightarrow> seconds \<Rightarrow> seconds \<Rightarrow> string" where
  "access_log_line fmt1 meth path status started ended =
     meth @ '' '' @ path @ '' -> '' @ str_int status @ '' in '' @ fmt1 ((ended - started) * 1000) @ ''ms''"

text \<open>The middleware: one line per answered request; an exception passes through without a line.\<close>

definition log_requests ::
  "(rat \<Rightarrow> string) \<Rightarrow> string \<Rightarrow> string \<Rightarrow> seconds \<Rightarrow> seconds \<Rightarrow> string + int \<Rightarrow> (string + int) \<times> string list"
where
  "log_requests fmt1 meth path started ended answer =
     (case answer of
        Inl exc \<Rightarrow> (Inl exc, [])
      | Inr status \<Rightarrow> (Inr status, [access_log_line fmt1 meth path status started ended]))"

text \<open>What \<open>create_app\<close> hands to the framework: the services given, if any, and the routes of the
  included router. Without services the lifespan creates them from the environment.\<close>

record application =
  app_title :: string
  app_version :: string
  app_services :: "runtime_services option"
  app_routes :: "(string \<times> string) list"

definition create_app :: "runtime_services option \<Rightarrow> logger \<Rightarrow> logger \<times> application" where
  "create_app services lg =
     (setup_logging lg,
      \<lparr>app_title = ''GPU-Aware LLM Serving Runtime'', app_version = ''0.2.0'', app_services = services,
       app_routes = [(''GET'', ''/health''), (''GET'', ''/metrics''), (''POST'', ''/v1/chat/completions'')]\<rparr>)"

definition app_lifespan ::
  "string \<Rightarrow> environ \<Rightarrow> seconds \<Rightarrow> (rat \<Rightarrow> string) \<Rightarrow> string option \<Rightarrow> (nat \<Rightarrow> poll) \<Rightarrow> seconds option \<Rightarrow>
   (runtime_services \<Rightarrow> runtime_services \<times> string option) \<Rightarrow> application \<Rightarrow>
   config_error + runtime_services \<times> string option \<times> string list"
where
  "app_lifespan here env start_at fmt spawn polls exit_after serve app =
     and_then (case app_services app of
         Some rt \<Rightarrow> Inr rt | None \<Rightarrow> create_services here env None None start_at)
       (\<lambda>rt. Inr (lifespan fmt spawn polls exit_after serve rt))"

lemma app_given_services:
  "app_lifespan here env start_at fmt spawn polls exit_after serve (snd (create_app (Some rt) lg)) =
     Inr (lifespan fmt spawn polls exit_after serve rt)"
  by (simp add: app_lifespan_def create_app_def and_then_def)

text \<open>However many applications are created, a log line is written once.\<close>

lemma create_app_twice: "fst (create_app s' (fst (create_app s lg))) = fst (create_app s lg)"
  by (simp add: create_app_def setup_logging_def)

lemma setup_logging_twice: "setup_logging (setup_logging lg) = setup_logging lg"
  by (simp add: setup_logging_def)

section \<open>Invariants\<close>

definition manager_ok :: "worker_manager \<Rightarrow> capabilities \<Rightarrow> bool" where
  "manager_ok m caps \<longleftrightarrow>
     1 \<le> wm_max_batch_size m \<and> 0 \<le> wm_batch_timeout_ms m \<and> 1 \<le> wm_worker_count m \<and>
     (1 < wm_worker_count m \<longrightarrow> NATIVE_BATCHING \<in> caps) \<and>
     (NATIVE_BATCHING \<in> caps \<longrightarrow> wm_max_batch_size m = 1 \<and> wm_batch_timeout_ms m = 0)"

fun backend_live :: "any_backend \<Rightarrow> bool" where
  "backend_live (BackMock b) = False"
| "backend_live (BackLlama b) = live_child b"
| "backend_live (BackVllm b) = live_child b"

fun scheduler_empty :: "any_scheduler \<Rightarrow> bool" where
  "scheduler_empty (SchedFifo q) = (fifo_size q = 0)"
| "scheduler_empty (SchedPriority s) = (prio_size s = 0 \<and> 0 \<le> aging_boost_interval_s s)"

definition services_ok :: "runtime_services \<Rightarrow> bool" where
  "services_ok rt \<longleftrightarrow>
     manager_ok (rt_manager rt) (backend_capabilities (rt_backend rt)) \<and>
     controller_inv (rt_admission rt) \<and> 0 \<le> max_queue_size (rt_admission rt) \<and>
     scheduler_empty (rt_scheduler rt) \<and> 0 < rt_request_timeout_s rt"

lemma settings_bounds:
  assumes "settings_errors s = []"
  shows "0 \<le> cf_priority_aging_boost_interval_s s" "1 \<le> cf_max_batch_size s" "0 \<le> cf_batch_timeout_ms s"
    "0 < cf_request_timeout_s s" "0 \<le> cf_max_queue_size s" "1 \<le> cf_native_backend_concurrency s"
  using assms by (auto simp: settings_errors_def split: if_splits)

lemma create_services_cases:
  assumes "create_services here env given given_backend start_at = Inr rt"
    and "\<forall>s. given = Some s \<longrightarrow> settings_errors s = []"
  shows "services_ok rt \<and> wm_tasks (rt_manager rt) = [] \<and>
    (given_backend = None \<longrightarrow> \<not> backend_live (rt_backend rt))"
proof -
  obtain s where s: "(case given of Some s \<Rightarrow> Inr s | None \<Rightarrow> get_settings here env) = Inr s"
    using assms(1) by (auto simp: create_services_def and_then_Inr)
  have ok: "settings_errors s = []"
    using s assms(2) get_settings_reading [of env here] by (auto simp: reading_ok_def split: option.splits)
  note b = settings_bounds [OF ok]
  define bk where "bk = (case given_backend of Some b \<Rightarrow> b | None \<Rightarrow> build_backend s)"
  have rt: "rt = \<lparr>rt_metrics = init_collector, rt_scheduler = build_scheduler s,
      rt_admission = init_controller (cf_max_queue_size s) (cf_request_rate_limit_per_s s)
        (cf_request_rate_limit_burst s) start_at,
      rt_manager = init_manager (fst (dispatch_batch_params s bk)) (snd (dispatch_batch_params s bk))
        (dispatch_worker_count s bk),
      rt_backend = bk, rt_request_timeout_s = cf_request_timeout_s s\<rparr>"
    using assms(1) s by (simp add: create_services_def Let_def case_prod_beta bk_def)
  have "manager_ok (rt_manager rt) (backend_capabilities (rt_backend rt))"
    using b by (simp add: rt manager_ok_def init_manager_def dispatch_batch_params_def dispatch_worker_count_def)
  moreover have "scheduler_empty (rt_scheduler rt)"
    using b(1) by (simp add: rt build_scheduler_def fifo_size_def fifo_init_def prio_size_def prio_init_def)
  moreover have "\<not> backend_live (build_backend s)"
    by (simp add: build_backend_def live_child_def init_llama_cpp_def init_vllm_def)
  ultimately show ?thesis
    using b by (simp add: services_ok_def rt init_controller_inv init_manager_def bk_def)
      (simp add: init_controller_def)
qed

lemma stop_backend_not_live: "\<not> backend_live (stop_backend exit_after b)"
  by (cases b) (simp_all add: llama_stop_def vllm_stop_def stop_no_child)

section \<open>Properties\<close>

text \<open>
  C23: Services are well typed. Whatever the environment holds, the services created from it have at
  least one worker, batches of at least one request, a non-negative collection window, more than one
  worker only for a backend that batches itself, and then batches of one without a window; an
  admission bucket within its bounds, an empty queue, a positive timeout, no worker task and no child
  process. Otherwise the error is explained by the environment.
\<close>

theorem create_services_ok:
  "case create_services here env None None start_at of
     Inl e \<Rightarrow> error_explained env e
   | Inr rt \<Rightarrow> services_ok rt \<and> wm_tasks (rt_manager rt) = [] \<and> \<not> backend_live (rt_backend rt)"
proof (cases "create_services here env None None start_at")
  case (Inl e)
  then have "get_settings here env = Inl e"
    by (cases "get_settings here env") (simp_all add: create_services_def Let_def case_prod_beta)
  then show ?thesis using Inl get_settings_reading [of env here] by (simp add: reading_ok_def)
next
  case (Inr rt)
  then show ?thesis using create_services_cases [OF Inr] by simp
qed

text \<open>
  C22: The application cleans up. When the start succeeds, the workers run while the application
  serves, as many as configured; and when it ends, normally or by an exception, no worker task and no
  child process is left, and that exception is passed on, unless a worker task failed meanwhile.
\<close>

theorem lifespan_cleans_up:
  assumes "wm_tasks (rt_manager rt) = []"
    and "services_start fmt spawn polls rt = (rt1, None)"
    and "serve rt1 = (rt2, exc2)"
    and "\<forall>m. TaskFailed m \<notin> set (wm_tasks (rt_manager rt2))"
  shows "wm_tasks (rt_manager rt1) = replicate (nat (wm_worker_count (rt_manager rt))) TaskRunning \<and>
    (case lifespan fmt spawn polls exit_after serve rt of (rt', exc, lines) \<Rightarrow>
      exc = exc2 \<and> wm_tasks (rt_manager rt') = [] \<and> \<not> backend_live (rt_backend rt'))"
proof -
  have "rt_manager rt1 = manager_start (rt_manager rt)"
    using assms(2) by (auto simp: services_start_def Let_def split: prod.splits option.splits)
  then have run: "wm_tasks (rt_manager rt1) = replicate (nat (wm_worker_count (rt_manager rt))) TaskRunning"
    using assms(1) by (simp add: manager_start_def)
  have none: "first_failure (map cancel_task ts) = None" if "\<forall>m. TaskFailed m \<notin> set ts" for ts
    using that
  proof (induction ts)
    case (Cons t ts)
    then show ?case by (cases t) auto
  qed simp
  have stop: "manager_stop (rt_manager rt2) = (rt_manager rt2\<lparr>wm_tasks := []\<rparr>, None)"
    using none [OF assms(4)] by (simp add: manager_stop_def Let_def)
  show ?thesis
    using run assms(2,3) stop
    by (simp add: lifespan_def services_stop_def Let_def stop_backend_not_live)
qed

definition wit_services_rt :: runtime_services where
  "wit_services_rt = \<lparr>rt_metrics = init_collector, rt_scheduler = SchedFifo [],
     rt_admission = init_controller 0 0 0 0, rt_manager = init_manager 1 0 4,
     rt_backend = BackVllm (init_vllm ''m'' ''vllm'' 8082 (9/10) None), rt_request_timeout_s = 120\<rparr>"

theorem lifespan_cleans_up_witness:
  "case lifespan (\<lambda>x. ''0.9'') None (\<lambda>k. PollStatus 200) (Some 20) (\<lambda>rt. (rt, Some ''boom'')) wit_services_rt of
     (rt', exc, lines) \<Rightarrow> exc = Some ''boom'' \<and> wm_tasks (rt_manager rt') = [] \<and> \<not> backend_live (rt_backend rt')"
proof -
  have none: "wm_tasks (rt_manager wit_services_rt) = []" by (simp add: wit_services_rt_def init_manager_def)
  obtain rt1 where st: "services_start (\<lambda>x. ''0.9'') None (\<lambda>k. PollStatus 200) wit_services_rt = (rt1, None)"
    and t: "wm_tasks (rt_manager rt1) = replicate 4 TaskRunning"
    by (simp add: services_start_def wit_services_rt_def vllm_start_def server_start_def init_vllm_def
        manager_start_def init_manager_def numeral_eq_Suc)
  have "\<forall>m. TaskFailed m \<notin> set (wm_tasks (rt_manager rt1))" by (simp add: t)
  from lifespan_cleans_up [OF none st _ this, where serve = "\<lambda>rt. (rt, Some ''boom'')"
      and exit_after = "Some 20"]
  show ?thesis by simp
qed

text \<open>A start that fails after the child was spawned leaves that child running: the start is outside
  the block whose end stops the services.\<close>

lemma failed_start_leaves_child:
  assumes "rt_backend rt = BackLlama b" and "\<not> hs_client b" and "\<forall>i<120. retryable (polls i)"
  shows "\<exists>rt' e. lifespan fmt None polls exit_after serve rt = (rt', Some e, []) \<and> backend_live (rt_backend rt')"
proof -
  let ?why = "''llama-server failed to start on '' @ base_url b @ '' (model='' @ hs_model_path b @ '')''"
  obtain b1 exc n where s: "llama_start None polls b = (b1, exc, n)" by (metis prod.collapse)
  have "server_start (llama_args b) 120 ?why None polls b = (b1, exc, n)"
    using s unfolding llama_start_def .
  with server_start_settled [OF assms(2), where args = "llama_args b" and n = 120 and polls = polls and why = ?why]
  have settled: "start_settled 120 ?why polls exc n" and live: "live_child b1"
    unfolding live_child_def by auto
  from settled obtain e where "exc = Some e" using assms(3) by (auto simp: start_settled_def)
  with s live assms(1) show ?thesis by (simp add: lifespan_def services_start_def)
qed

end
