(* ===== verification/Download.thy ===== *)
theory Download
  imports Config
begin

text \<open>
  \<open>scripts/download_vllm_smoke_assets.py\<close>: where a model goes, the environment of the
  download, the export lines it prints, the check of the downloaded files, the retry loop and the
  whole run. The parsed arguments are an input (\<open>DownloadArgs\<close> reads them from \<open>argv\<close>), and so are
  what the hub library does at each attempt, the files of a directory and \<open>Path.resolve\<close>.
\<close>

section \<open>Paths\<close>

text \<open>A POSIX path: its root and its parts, without empty ones and dots.\<close>

record py_path =
  p_root :: string
  p_parts :: "string list"

fun split_on :: "char \<Rightarrow> string \<Rightarrow> string \<Rightarrow> string list" where
  "split_on d w [] = [rev w]"
| "split_on d w (c # cs) = (if c = d then rev w # split_on d [] cs else split_on d (c # w) cs)"

definition path_of :: "string \<Rightarrow> py_path" where
  "path_of s =
     \<lparr>p_root = (if py_startswith s ''//'' \<and> \<not> py_startswith s ''///'' then ''//''
                else if py_startswith s ''/'' then ''/'' else ''''),
      p_parts = filter (\<lambda>x. x \<noteq> '''' \<and> x \<noteq> ''.'') (split_on (CHR ''/'') [] s)\<rparr>"

definition path_str :: "py_path \<Rightarrow> string" where
  "path_str p = (let s = p_root p @ py_join ''/'' (p_parts p) in if s = [] then ''.'' else s)"

definition path_div :: "py_path \<Rightarrow> string \<Rightarrow> py_path" where
  "path_div p s =
     (let q = path_of s in
      if p_root q \<noteq> [] then q else p\<lparr>p_parts := p_parts p @ p_parts q\<rparr>)"

definition rstrip_char :: "char \<Rightarrow> string \<Rightarrow> string" where
  "rstrip_char c s = rev (dropWhile (\<lambda>d. d = c) (rev s))"

definition default_local_dir :: "string \<Rightarrow> py_path \<Rightarrow> py_path" where
  "default_local_dir model output_dir =
     path_div output_dir (last (split_on (CHR ''/'') [] (rstrip_char (CHR ''/'') model)))"

section \<open>Arguments\<close>

record download_args =
  a_model :: string
  a_output_dir :: py_path
  a_local_dir :: "py_path option"
  a_hf_home :: py_path
  a_hf_endpoint :: string
  a_revision :: "string option"
  a_retries :: int
  a_retry_sleep_s :: rat
  a_max_workers :: int
  a_include :: "string list"
  a_exclude :: "string list"
  a_local_files_only :: bool
  a_dry_run :: bool

definition default_include_patterns :: "string list" where
  "default_include_patterns = [''*.json'', ''*.safetensors'', ''*.model'', ''*.txt'', ''*.py'', ''*.tiktoken'']"

definition default_exclude_patterns :: "string list" where
  "default_exclude_patterns =
     [''*.bin'', ''*.h5'', ''*.msgpack'', ''*.onnx'', ''*.ot'', ''*.pt'', ''flax_model*'', ''tf_model*'']"

text \<open>The arguments of a call without any.\<close>

definition default_args :: "environ \<Rightarrow> download_args" where
  "default_args env =
     \<lparr>a_model = ''Qwen/Qwen2.5-0.5B-Instruct'', a_output_dir = path_of ''models'', a_local_dir = None,
      a_hf_home = path_of ''.hf-cache'', a_hf_endpoint = getenv env ''HF_ENDPOINT'' '''', a_revision = None,
      a_retries = 10, a_retry_sleep_s = 20, a_max_workers = 2, a_include = default_include_patterns,
      a_exclude = default_exclude_patterns, a_local_files_only = False, a_dry_run = False\<rparr>"

section \<open>Environment and exports\<close>

definition configure_huggingface_env :: "py_path \<Rightarrow> string \<Rightarrow> environ \<Rightarrow> environ" where
  "configure_huggingface_env hf_home hf_endpoint env =
     (let env1 = env(''HF_HOME'' \<mapsto> path_str hf_home) in
      if hf_endpoint \<noteq> [] then env1(''HF_ENDPOINT'' \<mapsto> hf_endpoint) else env1)"

text \<open>\<open>shlex.quote\<close>.\<close>

definition shell_safe :: "char \<Rightarrow> bool" where
  "shell_safe c \<longleftrightarrow>
     (let n = of_char c :: nat in
      48 \<le> n \<and> n \<le> 57 \<or> 65 \<le> n \<and> n \<le> 90 \<or> 97 \<le> n \<and> n \<le> 122 \<or> c \<in> set ''_@%+=:,./-'')"

definition shlex_quote :: "string \<Rightarrow> string" where
  "shlex_quote s =
     (if s = [] then [CHR 0x27, CHR 0x27]
      else if list_all shell_safe s then s
      else [CHR 0x27] @
        py_replace (CHR 0x27) [CHR 0x27, CHR 0x22, CHR 0x27, CHR 0x22, CHR 0x27] s @ [CHR 0x27])"

definition export_line :: "string \<Rightarrow> string \<Rightarrow> string" where
  "export_line name v = ''export '' @ name @ ''='' @ shlex_quote v"

definition runtime_export_lines :: "py_path \<Rightarrow> py_path \<Rightarrow> string \<Rightarrow> string list" where
  "runtime_export_lines model_dir hf_home hf_endpoint =
     (let home = export_line ''HF_HOME'' (path_str hf_home);
          model = export_line ''LLM_RUNTIME_MODEL_PATH'' (path_str model_dir) in
      if hf_endpoint \<noteq> [] then [home, export_line ''HF_ENDPOINT'' hf_endpoint, model]
      else [home, model])"

section \<open>The files\<close>

text \<open>The entries of a directory: the name of each and whether it is a file.\<close>

type_synonym listing = "(string \<times> bool) list"

definition is_file :: "listing \<Rightarrow> string \<Rightarrow> bool" where
  "is_file d name \<longleftrightarrow> (name, True) \<in> set d"

definition py_endswith :: "string \<Rightarrow> string \<Rightarrow> bool" where
  "py_endswith s p \<longleftrightarrow> py_startswith (rev s) (rev p)"

definition missing_required_assets :: "listing \<Rightarrow> string list" where
  "missing_required_assets d =
     (if is_file d ''config.json'' then [] else [''config.json'']) @
     (if \<exists>e \<in> set d. py_endswith (fst e) ''.safetensors'' then [] else [''*.safetensors'']) @
     (if \<exists>n \<in> set [''tokenizer.json'', ''tokenizer.model'', ''vocab.json'']. is_file d n then []
      else [''tokenizer.json/tokenizer.model/vocab.json''])"

section \<open>The download\<close>

text \<open>What the hub library does at an attempt: a directory, an exception, or something that is not
  an \<open>Exception\<close>, such as an interrupt.\<close>

datatype attempt = Downloaded py_path | Raised string | Interrupted string

datatype 'a outcome = Returned 'a | SystemExit string | Propagates string

datatype action = Out string | Err string | Fetch | Sleeping rat

text \<open>The attempts from number \<open>k\<close> on, \<open>n\<close> of them left; \<open>fmt\<close> prints a number with one
  decimal.\<close>

fun retry_loop ::
  "(rat \<Rightarrow> string) \<Rightarrow> download_args \<Rightarrow> py_path \<Rightarrow> (nat \<Rightarrow> attempt) \<Rightarrow> nat \<Rightarrow> nat \<Rightarrow> string option \<Rightarrow>
   py_path outcome \<times> action list"
where
  "retry_loop fmt args dir hub 0 k last_error =
     (SystemExit (''Download failed after '' @ str_int (a_retries args) @ '' attempts: '' @
        (case last_error of None \<Rightarrow> ''None'' | Some e \<Rightarrow> e)), [])"
| "retry_loop fmt args dir hub (Suc n) k last_error =
     (let announce = Out (''[download] attempt '' @ str_nat k @ ''/'' @ str_int (a_retries args) @ '': '' @
            a_model args @ '' -> '' @ path_str dir) in
      case hub k of
        Downloaded p \<Rightarrow> (Returned p, [announce, Fetch])
      | Interrupted m \<Rightarrow> (Propagates m, [announce, Fetch])
      | Raised e \<Rightarrow>
          (let failed = [announce, Fetch, Err (''[download] failed: '' @ e)] in
           if int k < a_retries args then
             (let again = Err (''[download] retrying in '' @ fmt (a_retry_sleep_s args) @ ''s...'') in
              if a_retry_sleep_s args < 0 then (Propagates ''sleep length must be non-negative'', failed @ [again])
              else (let (r, acts) = retry_loop fmt args dir hub n (k + 1) (Some e) in
                    (r, failed @ [again, Sleeping (a_retry_sleep_s args)] @ acts)))
           else (let (r, acts) = retry_loop fmt args dir hub n (k + 1) (Some e) in (r, failed @ acts))))"

definition missing_dependency_text :: string where
  "missing_dependency_text =
     ''Missing dependency: huggingface_hub. Install it with:'' @ [newline] @
     ''  python -m pip install '' @ [CHR 0x27] @ ''huggingface_hub>=0.24'' @ [CHR 0x27]"

definition download_with_retries ::
  "(rat \<Rightarrow> string) \<Rightarrow> bool \<Rightarrow> download_args \<Rightarrow> py_path \<Rightarrow> (nat \<Rightarrow> attempt) \<Rightarrow> py_path outcome \<times> action list"
where
  "download_with_retries fmt installed args dir hub =
     (if \<not> installed then (SystemExit missing_dependency_text, [])
      else retry_loop fmt args dir hub (nat (a_retries args)) 1 None)"

section \<open>The run\<close>

definition settings_lines :: "download_args \<Rightarrow> py_path \<Rightarrow> py_path \<Rightarrow> string list" where
  "settings_lines args dir hf_home =
     [''model:      '' @ a_model args, ''local dir:  '' @ path_str dir, ''HF_HOME:    '' @ path_str hf_home] @
     (if a_hf_endpoint args \<noteq> [] then [''HF_ENDPOINT:'' @ a_hf_endpoint args] else []) @
     [''include:    '' @ py_join '', '' (a_include args), ''exclude:    '' @ py_join '', '' (a_exclude args)]"

text \<open>\<open>listing_of\<close> gives the entries of a directory after the download. The result: how the run
  ends, what it did, and the environment.\<close>

definition main_run ::
  "(rat \<Rightarrow> string) \<Rightarrow> (py_path \<Rightarrow> py_path) \<Rightarrow> bool \<Rightarrow> (nat \<Rightarrow> attempt) \<Rightarrow> (py_path \<Rightarrow> listing) \<Rightarrow>
   environ \<Rightarrow> download_args \<Rightarrow> int outcome \<times> action list \<times> environ"
where
  "main_run fmt resolve installed hub listing_of env args =
     (let dir = resolve (case a_local_dir args of Some d \<Rightarrow> d
            | None \<Rightarrow> default_local_dir (a_model args) (a_output_dir args));
          hf_home = resolve (a_hf_home args);
          env1 = configure_huggingface_env hf_home (a_hf_endpoint args) env;
          shown = map Out (settings_lines args dir hf_home) in
      if a_dry_run args then (Returned 0, shown, env1)
      else
        (let (r, acts) = download_with_retries fmt installed args dir hub in
         case r of
           SystemExit m \<Rightarrow> (SystemExit m, shown @ acts, env1)
         | Propagates m \<Rightarrow> (Propagates m, shown @ acts, env1)
         | Returned p \<Rightarrow>
             (let d = resolve p; missing = missing_required_assets (listing_of d) in
              if missing \<noteq> [] then
                (SystemExit (''Download finished, but required model assets are missing: '' @
                   py_join '', '' missing), shown @ acts, env1)
              else
                (Returned 0, shown @ acts @
                   map Out ([newline # ''Downloaded model assets successfully.'',
                     newline # ''Use these exports before starting the vLLM runtime:''] @
                     runtime_export_lines d hf_home (a_hf_endpoint args)), env1))))"

section \<open>Reading a shell word\<close>

text \<open>How a POSIX shell reads one word: bare characters without a special meaning, single quotes, and
  double quotes without expansions. Anything else is \<open>None\<close>.\<close>

datatype sh_mode = Bare | InSingle | InDouble

fun sh_read :: "sh_mode \<Rightarrow> string \<Rightarrow> string option" where
  "sh_read m [] = (if m = Bare then Some [] else None)"
| "sh_read Bare (c # cs) =
     (if c = CHR 0x27 then sh_read InSingle cs
      else if c = CHR 0x22 then sh_read InDouble cs
      else if shell_safe c then map_option ((#) c) (sh_read Bare cs)
      else None)"
| "sh_read InSingle (c # cs) =
     (if c = CHR 0x27 then sh_read Bare cs else map_option ((#) c) (sh_read InSingle cs))"
| "sh_read InDouble (c # cs) =
     (if c = CHR 0x22 then sh_read Bare cs
      else if c \<in> set [CHR 0x24, CHR 0x60, CHR 0x5C, CHR 0x21] then None
      else map_option ((#) c) (sh_read InDouble cs))"

definition read_export :: "string \<Rightarrow> (string \<times> string) option" where
  "read_export line =
     (if py_startswith line ''export '' then
        (let rest = drop 7 line; name = takeWhile (\<lambda>c. c \<noteq> CHR ''='') rest in
         map_option (Pair name) (sh_read Bare (drop (length name + 1) rest)))
      else None)"

lemma safe_not_quote: "shell_safe c \<Longrightarrow> c \<noteq> CHR 0x27 \<and> c \<noteq> CHR 0x22"
  by (auto simp: shell_safe_def Let_def)

lemma sh_read_safe: "list_all shell_safe s \<Longrightarrow> sh_read Bare s = Some s"
  by (induction s) (auto dest: safe_not_quote)

lemma sh_read_single:
  "sh_read InSingle (py_replace (CHR 0x27) [CHR 0x27, CHR 0x22, CHR 0x27, CHR 0x22, CHR 0x27] s @ [CHR 0x27]) = Some s"
  by (induction s) (simp_all add: py_replace_def)

lemma sh_read_quote: "sh_read Bare (shlex_quote s) = Some s"
  by (auto simp: shlex_quote_def sh_read_safe sh_read_single)

lemma read_export_line:
  assumes "CHR ''='' \<notin> set name"
  shows "read_export (export_line name v) = Some (name, v)"
proof -
  have "takeWhile (\<lambda>c. c \<noteq> CHR ''='') (name @ CHR ''='' # s) = name" for s
    using assms by (induction name) auto
  then show ?thesis
    by (simp add: read_export_def export_line_def py_startswith_def sh_read_quote)
qed

section \<open>The attempts\<close>

fun fetches :: "action list \<Rightarrow> nat" where
  "fetches [] = 0"
| "fetches (Fetch # as) = Suc (fetches as)"
| "fetches (_ # as) = fetches as"

fun slept_for :: "action list \<Rightarrow> rat" where
  "slept_for [] = 0"
| "slept_for (Sleeping t # as) = t + slept_for as"
| "slept_for (_ # as) = slept_for as"

fun is_raised :: "attempt \<Rightarrow> bool" where
  "is_raised (Raised e) = True"
| "is_raised _ = False"

lemma fetches_append [simp]: "fetches (xs @ ys) = fetches xs + fetches ys"
  by (induction xs rule: fetches.induct) simp_all

lemma slept_for_append [simp]: "slept_for (xs @ ys) = slept_for xs + slept_for ys"
  by (induction xs rule: slept_for.induct) simp_all

text \<open>What the loop over attempts \<open>k, ..., k + n - 1\<close> comes to.\<close>

definition attempts_settled :: "nat \<Rightarrow> nat \<Rightarrow> rat \<Rightarrow> (nat \<Rightarrow> attempt) \<Rightarrow> py_path outcome \<Rightarrow> action list \<Rightarrow> bool" where
  "attempts_settled n k pause hub r acts \<longleftrightarrow>
     (case r of
        Returned p \<Rightarrow> \<exists>j<n. hub (k + j) = Downloaded p \<and> (\<forall>i<j. is_raised (hub (k + i))) \<and>
          fetches acts = j + 1 \<and> slept_for acts = of_nat j * pause
      | SystemExit m \<Rightarrow> (\<forall>i<n. is_raised (hub (k + i))) \<and> fetches acts = n \<and>
          slept_for acts = of_nat (n - 1) * pause
      | Propagates m \<Rightarrow> \<exists>j<n. hub (k + j) = Interrupted m \<and> (\<forall>i<j. is_raised (hub (k + i))) \<and>
          fetches acts = j + 1 \<and> slept_for acts = of_nat j * pause)"

lemma attempts_settled_step:
  assumes "is_raised (hub k)" and "attempts_settled n (Suc k) pause hub r acts"
    and "fetches acts' = fetches acts + 1"
    and "slept_for acts' = (if n = 0 then 0 else pause) + slept_for acts"
  shows "attempts_settled (Suc n) k pause hub r acts'"
proof -
  have shift: "(\<forall>i<Suc j. is_raised (hub (k + i))) \<longleftrightarrow> is_raised (hub k) \<and> (\<forall>i<j. is_raised (hub (Suc k + i)))" for j
    by (auto simp: less_Suc_eq_0_disj)
  show ?thesis
  proof (cases r)
    case (Returned p)
    with assms(2) obtain j where "j < n" "hub (Suc k + j) = Downloaded p" "\<forall>i<j. is_raised (hub (Suc k + i))"
      "fetches acts = j + 1" "slept_for acts = of_nat j * pause" by (auto simp: attempts_settled_def)
    with Returned assms shift [of j] show ?thesis
      by (auto simp: attempts_settled_def algebra_simps intro!: exI [of _ "Suc j"])
  next
    case (Propagates m)
    with assms(2) obtain j where "j < n" "hub (Suc k + j) = Interrupted m" "\<forall>i<j. is_raised (hub (Suc k + i))"
      "fetches acts = j + 1" "slept_for acts = of_nat j * pause" by (auto simp: attempts_settled_def)
    with Propagates assms shift [of j] show ?thesis
      by (auto simp: attempts_settled_def algebra_simps intro!: exI [of _ "Suc j"])
  next
    case (SystemExit m)
    with assms shift [of n] show ?thesis
      by (cases n) (auto simp: attempts_settled_def algebra_simps)
  qed
qed

lemma retry_loop_settled:
  assumes "0 \<le> a_retry_sleep_s args" and "int k + int n = a_retries args + 1"
  shows "case retry_loop fmt args dir hub n k last_error of (r, acts) \<Rightarrow>
    attempts_settled n k (a_retry_sleep_s args) hub r acts"
  using assms
proof (induction n arbitrary: k last_error)
  case 0
  then show ?case by (simp add: attempts_settled_def)
next
  case (Suc n)
  show ?case
  proof (cases "hub k")
    case (Raised e)
    obtain r acts where rec: "retry_loop fmt args dir hub n (Suc k) (Some e) = (r, acts)" by fastforce
    have "attempts_settled n (Suc k) (a_retry_sleep_s args) hub r acts"
      using Suc.IH [of "Suc k" "Some e"] Suc.prems rec by simp
    note step = attempts_settled_step [OF _ this]
    have "int k < a_retries args \<longleftrightarrow> n \<noteq> 0" using Suc.prems(2) by auto
    with Raised rec Suc.prems(1) show ?thesis
      by (cases "n = 0") (simp add: Let_def attempts_settled_def, auto simp: Let_def intro!: step)
  qed (auto simp: attempts_settled_def intro!: exI [of _ 0])
qed

section \<open>Properties\<close>


text \<open>
  The retries are bounded and honest. With the library installed and a pause that is not negative,
  the download makes at most as many attempts as asked for: it returns the directory of the first
  attempt that succeeds, passes on an interrupt at once, and gives up only when every attempt failed;
  it sleeps between attempts and never after the last.
\<close>

lemma download_attempts:
  assumes "0 \<le> a_retry_sleep_s args"
  shows "case download_with_retries fmt True args dir hub of (r, acts) \<Rightarrow>
    attempts_settled (nat (a_retries args)) 1 (a_retry_sleep_s args) hub r acts \<and>
    fetches acts \<le> nat (a_retries args)"
proof (cases "0 \<le> a_retries args")
  case True
  have "case retry_loop fmt args dir hub (nat (a_retries args)) 1 None of (r, acts) \<Rightarrow>
      attempts_settled (nat (a_retries args)) 1 (a_retry_sleep_s args) hub r acts"
    using True by (intro retry_loop_settled assms) simp
  then show ?thesis
    by (auto simp: download_with_retries_def attempts_settled_def split: outcome.splits)
next
  case False
  then show ?thesis by (simp add: download_with_retries_def attempts_settled_def)
qed

definition wit_hub :: "nat \<Rightarrow> attempt" where
  "wit_hub k = (if k < 3 then Raised ''reset'' else Downloaded (path_of ''models/x''))"

lemma download_attempts_witness:
  "case download_with_retries (\<lambda>x. ''20.0'') True (default_args (\<lambda>k. None)) (path_of ''models/x'') wit_hub of
     (r, acts) \<Rightarrow> fetches acts \<le> 10 \<and> r \<noteq> SystemExit ''gave up''"
proof -
  let ?args = "default_args (\<lambda>k. None)"
  have a: "0 \<le> a_retry_sleep_s ?args" "a_retries ?args = 10" by (simp_all add: default_args_def)
  obtain r acts where d: "download_with_retries (\<lambda>x. ''20.0'') True ?args (path_of ''models/x'') wit_hub = (r, acts)"
    by fastforce
  with download_attempts [OF a(1), where fmt = "\<lambda>x. ''20.0''" and dir = "path_of ''models/x''" and hub = wit_hub] a(2)
  have "attempts_settled 10 1 (a_retry_sleep_s ?args) wit_hub r acts" "fetches acts \<le> 10" by simp_all
  moreover have "\<not> is_raised (wit_hub (1 + 2))" by (simp add: wit_hub_def)
  ultimately show ?thesis unfolding d by (auto simp: attempts_settled_def)
qed

text \<open>What a run with exit code 0 has done.\<close>

lemma run_success_complete:
  assumes "main_run fmt resolve installed hub listing_of env args = (Returned code, acts, env')"
    and "\<not> a_dry_run args"
  shows "code = 0 \<and> installed \<and>
    (\<exists>k p pre. hub k = Downloaded p \<and> 1 \<le> k \<and> int k \<le> a_retries args \<and>
      missing_required_assets (listing_of (resolve p)) = [] \<and>
      is_file (listing_of (resolve p)) ''config.json'' \<and>
      acts = pre @ map Out (runtime_export_lines (resolve p) (resolve (a_hf_home args)) (a_hf_endpoint args))) \<and>
    env' ''HF_HOME'' = Some (path_str (resolve (a_hf_home args)))"
proof -
  define dir where "dir = resolve (case a_local_dir args of Some d \<Rightarrow> d
      | None \<Rightarrow> default_local_dir (a_model args) (a_output_dir args))"
  obtain r acts1 where d: "download_with_retries fmt installed args dir hub = (r, acts1)" by fastforce
  have "env' = configure_huggingface_env (resolve (a_hf_home args)) (a_hf_endpoint args) env"
    and p: "\<exists>p. r = Returned p \<and> code = 0 \<and> missing_required_assets (listing_of (resolve p)) = [] \<and>
      (\<exists>pre. acts = pre @ map Out (runtime_export_lines (resolve p) (resolve (a_hf_home args)) (a_hf_endpoint args)))"
    using assms d
    by (auto simp: main_run_def Let_def dir_def [symmetric] split: outcome.splits if_splits)
  then have e: "env' ''HF_HOME'' = Some (path_str (resolve (a_hf_home args)))"
    by (simp add: configure_huggingface_env_def Let_def)
  from p obtain p pre where p: "r = Returned p" "code = 0" "missing_required_assets (listing_of (resolve p)) = []"
    "acts = pre @ map Out (runtime_export_lines (resolve p) (resolve (a_hf_home args)) (a_hf_endpoint args))" by blast
  have returned: "\<exists>j. hub j = Downloaded p \<and> k \<le> j \<and> j < k + n"
    if "retry_loop fmt args dir hub n k last = (Returned p, as)" for n k last as
    using that
  proof (induction n arbitrary: k last as)
    case (Suc n)
    show ?case
    proof (cases "hub k")
      case (Raised e)
      with Suc.prems obtain as' where "retry_loop fmt args dir hub n (Suc k) (Some e) = (Returned p, as')"
        by (auto simp: Let_def split: if_splits prod.splits)
      from Suc.IH [OF this] show ?thesis by (auto intro: Suc_leD)
    qed (use Suc.prems in \<open>auto simp: Let_def\<close>)
  qed simp
  have inst: installed and loop: "retry_loop fmt args dir hub (nat (a_retries args)) 1 None = (Returned p, acts1)"
    using d p(1) by (auto simp: download_with_retries_def split: if_splits)
  from returned [OF loop] obtain k where "hub k = Downloaded p" "1 \<le> k" "k < 1 + nat (a_retries args)" by blast
  moreover have "is_file (listing_of (resolve p)) ''config.json''"
    using p(3) by (auto simp: missing_required_assets_def split: if_splits)
  ultimately show ?thesis using e inst p by fastforce
qed

lemma wit_run:
  "\<exists>acts env'. main_run (\<lambda>x. ''20.0'') id True wit_hub
     (\<lambda>p. [(''config.json'', True), (''m.safetensors'', True), (''vocab.json'', True)]) (\<lambda>k. None)
     (default_args (\<lambda>k. None)) = (Returned 0, acts, env')"
proof -
  let ?l = "[(''config.json'', True), (''m.safetensors'', True), (''vocab.json'', True)]"
  let ?args = "default_args (\<lambda>k. None)"
  obtain r acts env' where m: "main_run (\<lambda>x. ''20.0'') id True wit_hub (\<lambda>p. ?l) (\<lambda>k. None) ?args = (r, acts, env')"
    by (metis prod.collapse)
  have c: "missing_required_assets ?l = []" by code_simp
  have "fst (download_with_retries (\<lambda>x. ''20.0'') True ?args dir wit_hub) = Returned (path_of ''models/x'')" for dir
    by (simp add: download_with_retries_def default_args_def wit_hub_def numeral_eq_Suc Let_def case_prod_beta)
  then have "r = Returned 0"
    using m c by (auto simp: main_run_def Let_def case_prod_beta default_args_def split: outcome.splits)
  with m show ?thesis by blast
qed

end
