(* ===== verification/DownloadArgs.thy ===== *)
theory DownloadArgs
  imports Download
begin

text \<open>
  The command line of \<open>scripts/download_vllm_smoke_assets.py\<close>: what \<open>argparse\<close> (as of CPython 3.11.10)
  makes of \<open>argv\<close> with the options that \<open>parse_args\<close> declares. The texts of the help and of the usage
  errors are not modelled, and a pause that is no finite number ends the parse with an outcome of its
  own.
\<close>

section \<open>The options\<close>

datatype opt = OptHelp | OptModel | OptOutputDir | OptLocalDir | OptHfHome | OptHfEndpoint
  | OptRevision | OptRetries | OptRetrySleep | OptMaxWorkers | OptInclude | OptExclude
  | OptLocalFilesOnly | OptDryRun

datatype nargs = NoValue | OneValue | SomeValues

definition option_strings :: "(string \<times> opt) list" where
  "option_strings =
     [(''-h'', OptHelp), (''--help'', OptHelp), (''--model'', OptModel), (''--output-dir'', OptOutputDir),
      (''--local-dir'', OptLocalDir), (''--hf-home'', OptHfHome), (''--hf-endpoint'', OptHfEndpoint),
      (''--revision'', OptRevision), (''--retries'', OptRetries), (''--retry-sleep-s'', OptRetrySleep),
      (''--max-workers'', OptMaxWorkers), (''--include'', OptInclude), (''--exclude'', OptExclude),
      (''--local-files-only'', OptLocalFilesOnly), (''--dry-run'', OptDryRun)]"

definition opt_nargs :: "opt \<Rightarrow> nargs" where
  "opt_nargs a =
     (if a \<in> set [OptHelp, OptLocalFilesOnly, OptDryRun] then NoValue
      else if a \<in> set [OptInclude, OptExclude] then SomeValues else OneValue)"

section \<open>Which arguments are options\<close>

text \<open>
  \<open>_parse_optional\<close>: a plain argument, or an option with the string that named it, whether an
  argument follows it after \<open>=\<close>, and that argument or the rest of a short option. An unknown option
  has no \<open>opt\<close>.
\<close>

datatype arg_class = ArgValue | ArgDashes | ArgAmbiguous
  | ArgOption "opt option" string bool "string option"

definition partition_eq :: "string \<Rightarrow> string \<times> string option" where
  "partition_eq s =
     (let a = takeWhile (\<lambda>c. c \<noteq> CHR ''='') s in
      (a, case drop (length a) s of [] \<Rightarrow> None | c # e \<Rightarrow> Some e))"

definition option_tuples :: "string \<Rightarrow> (opt \<times> string \<times> bool \<times> string option) list" where
  "option_tuples arg =
     (if py_startswith arg ''--'' then
        (let (p, e) = partition_eq arg in
         concat (map (\<lambda>(s, a). if py_startswith s p then [(a, s, e \<noteq> None, e)] else []) option_strings))
      else
        concat (map (\<lambda>(s, a).
          if s = take 2 arg then [(a, s, False, Some (drop 2 arg))]
          else if py_startswith s arg then [(a, s, False, None)] else []) option_strings))"

text \<open>The pattern \<open>^-\d+$|^-\d*\.\d+$\<close>; a final newline does not count.\<close>

definition looks_negative :: "string \<Rightarrow> bool" where
  "looks_negative s =
     (case s of
        [] \<Rightarrow> False
      | c # cs \<Rightarrow>
          (let body = (if cs \<noteq> [] \<and> last cs = newline then butlast cs else cs);
               rest = dropWhile is_ascii_digit body in
           c = CHR ''-'' \<and>
           (if rest = [] then body \<noteq> []
            else hd rest = CHR ''.'' \<and> tl rest \<noteq> [] \<and> list_all is_ascii_digit (tl rest))))"

definition parse_optional :: "string \<Rightarrow> arg_class" where
  "parse_optional arg =
     (if arg = [] \<or> hd arg \<noteq> CHR ''-'' then ArgValue
      else
        (case map_of option_strings arg of
           Some a \<Rightarrow> ArgOption (Some a) arg False None
         | None \<Rightarrow>
             if length arg = 1 then ArgValue
             else
               (let (s, e) = partition_eq arg in
                if e \<noteq> None \<and> map_of option_strings s \<noteq> None
                then ArgOption (map_of option_strings s) s True e
                else
                  (case option_tuples arg of
                     [] \<Rightarrow> if looks_negative arg \<or> CHR '' '' \<in> set arg then ArgValue
                           else ArgOption None arg False None
                   | [(a, s, q, e)] \<Rightarrow> ArgOption (Some a) s q e
                   | _ \<Rightarrow> ArgAmbiguous))))"

text \<open>Everything after \<open>--\<close> is a plain argument; \<open>None\<close> is an ambiguous option.\<close>

fun classify :: "string list \<Rightarrow> (string \<times> arg_class) list option" where
  "classify [] = Some []"
| "classify (a # as) =
     (if a = ''--'' then Some ((a, ArgDashes) # map (\<lambda>b. (b, ArgValue)) as)
      else if parse_optional a = ArgAmbiguous then None
      else map_option ((#) (a, parse_optional a)) (classify as))"

section \<open>Taking the options\<close>

datatype parse_result = Parsed download_args | HelpShown | UsageError | NonFinitePause

text \<open>The action of an option on the values it was given.\<close>

definition take_action :: "opt \<Rightarrow> string list \<Rightarrow> download_args \<Rightarrow> parse_result + download_args" where
  "take_action a vs ns =
     (let v = (case vs of [] \<Rightarrow> '''' | x # xs \<Rightarrow> x) in
      case a of
        OptHelp \<Rightarrow> Inl HelpShown
      | OptModel \<Rightarrow> Inr (ns\<lparr>a_model := v\<rparr>)
      | OptOutputDir \<Rightarrow> Inr (ns\<lparr>a_output_dir := path_of v\<rparr>)
      | OptLocalDir \<Rightarrow> Inr (ns\<lparr>a_local_dir := Some (path_of v)\<rparr>)
      | OptHfHome \<Rightarrow> Inr (ns\<lparr>a_hf_home := path_of v\<rparr>)
      | OptHfEndpoint \<Rightarrow> Inr (ns\<lparr>a_hf_endpoint := v\<rparr>)
      | OptRevision \<Rightarrow> Inr (ns\<lparr>a_revision := Some v\<rparr>)
      | OptRetries \<Rightarrow> (case py_int v of None \<Rightarrow> Inl UsageError | Some i \<Rightarrow> Inr (ns\<lparr>a_retries := i\<rparr>))
      | OptRetrySleep \<Rightarrow>
          (case py_float v of
             None \<Rightarrow> Inl UsageError
           | Some NonFinite \<Rightarrow> Inl NonFinitePause
           | Some (Finite x) \<Rightarrow> Inr (ns\<lparr>a_retry_sleep_s := x\<rparr>))
      | OptMaxWorkers \<Rightarrow> (case py_int v of None \<Rightarrow> Inl UsageError | Some i \<Rightarrow> Inr (ns\<lparr>a_max_workers := i\<rparr>))
      | OptInclude \<Rightarrow> Inr (ns\<lparr>a_include := vs\<rparr>)
      | OptExclude \<Rightarrow> Inr (ns\<lparr>a_exclude := vs\<rparr>)
      | OptLocalFilesOnly \<Rightarrow> Inr (ns\<lparr>a_local_files_only := True\<rparr>)
      | OptDryRun \<Rightarrow> Inr (ns\<lparr>a_dry_run := True\<rparr>))"

text \<open>Short options after \<open>-h\<close> in one argument; the help that comes first ends the program.\<close>

fun help_cluster :: "bool \<Rightarrow> string \<Rightarrow> parse_result" where
  "help_cluster q [] = UsageError"
| "help_cluster q (c # cs) =
     (if q \<or> c = CHR ''-'' then UsageError
      else if c = CHR ''h'' then
        (case cs of
           [] \<Rightarrow> HelpShown
         | d # ds \<Rightarrow> if d = CHR ''='' then help_cluster True ds else help_cluster False (d # ds))
      else HelpShown)"

abbreviation is_value :: "string \<times> arg_class \<Rightarrow> bool" where
  "is_value x \<equiv> snd x = ArgValue"

text \<open>The values an option gets from the arguments after it, and the rest of them.\<close>

definition option_values ::
  "nargs \<Rightarrow> (string \<times> arg_class) list \<Rightarrow> (string list \<times> (string \<times> arg_class) list) option"
where
  "option_values n rest =
     (case n of
        NoValue \<Rightarrow> Some ([], rest)
      | OneValue \<Rightarrow> (case rest of x # xs \<Rightarrow> if is_value x then Some ([fst x], xs) else None | [] \<Rightarrow> None)
      | SomeValues \<Rightarrow>
          (if takeWhile is_value rest = [] then None
           else Some (map fst (takeWhile is_value rest), dropWhile is_value rest)))"

lemma option_values_shorter: "option_values n rest = Some (vs, rest') \<Longrightarrow> length rest' \<le> length rest"
  by (auto simp: option_values_def length_dropWhile_le split: nargs.splits list.splits if_splits)

text \<open>The loop over the arguments; \<open>extras\<close> are those nothing was done with.\<close>

function consume :: "(string \<times> arg_class) list \<Rightarrow> download_args \<Rightarrow> string list \<Rightarrow> parse_result" where
  "consume [] ns extras = (if extras = [] then Parsed ns else UsageError)"
| "consume ((s, c) # rest) ns extras =
     (case c of
        ArgOption (Some a) name q (Some v) \<Rightarrow>
          if opt_nargs a = NoValue then
            (if py_startswith name ''--'' then UsageError else help_cluster q v)
          else
            (case take_action a [v] ns of Inl r \<Rightarrow> r | Inr ns1 \<Rightarrow> consume rest ns1 extras)
      | ArgOption (Some a) name q None \<Rightarrow>
          (case option_values (opt_nargs a) rest of
             None \<Rightarrow> UsageError
           | Some (vs, rest1) \<Rightarrow>
               (case take_action a vs ns of Inl r \<Rightarrow> r | Inr ns1 \<Rightarrow> consume rest1 ns1 extras))
      | _ \<Rightarrow> consume rest ns (extras @ [s]))"
  by pat_completeness auto
termination
  by (relation "measure (\<lambda>(xs, ns, ex). length xs)") (auto dest: option_values_shorter)

declare consume.simps(2) [simp del]

definition parse_args :: "environ \<Rightarrow> string list \<Rightarrow> parse_result" where
  "parse_args env argv =
     (case classify argv of None \<Rightarrow> UsageError | Some cs \<Rightarrow> consume cs (default_args env) [])"

text \<open>\<open>main(argv)\<close>: the parser may end the program, with a status.\<close>

datatype script_end = Ran "int outcome" "action list" environ | ParserExit int | PauseNotFinite

definition script_main ::
  "(rat \<Rightarrow> string) \<Rightarrow> (py_path \<Rightarrow> py_path) \<Rightarrow> bool \<Rightarrow> (nat \<Rightarrow> attempt) \<Rightarrow> (py_path \<Rightarrow> listing) \<Rightarrow>
   environ \<Rightarrow> string list \<Rightarrow> script_end"
where
  "script_main fmt resolve installed hub listing_of env argv =
     (case parse_args env argv of
        HelpShown \<Rightarrow> ParserExit 0
      | UsageError \<Rightarrow> ParserExit 2
      | NonFinitePause \<Rightarrow> PauseNotFinite
      | Parsed args \<Rightarrow>
          (case main_run fmt resolve installed hub listing_of env args of (r, acts, env1) \<Rightarrow> Ran r acts env1))"

section \<open>Paths are read back\<close>

definition path_ok :: "py_path \<Rightarrow> bool" where
  "path_ok p \<longleftrightarrow> p_root p \<in> set ['''', ''/'', ''//''] \<and>
     (\<forall>x \<in> set (p_parts p). x \<noteq> '''' \<and> x \<noteq> ''.'' \<and> CHR ''/'' \<notin> set x)"

lemma split_on_word: "d \<notin> set x \<Longrightarrow> split_on d w x = [rev w @ x]"
  by (induction x arbitrary: w) auto

lemma split_on_sep: "d \<notin> set x \<Longrightarrow> split_on d w (x @ d # cs) = (rev w @ x) # split_on d [] cs"
  by (induction x arbitrary: w) auto

lemma split_on_join:
  "xs \<noteq> [] \<Longrightarrow> \<forall>x \<in> set xs. d \<notin> set x \<Longrightarrow> split_on d [] (py_join [d] xs) = xs"
  by (induction "[d]" xs rule: py_join.induct) (simp_all add: split_on_word split_on_sep)

lemma path_of_str:
  assumes "path_ok p"
  shows "path_of (path_str p) = p"
proof -
  let ?j = "py_join ''/'' (p_parts p)" and ?f = "filter (\<lambda>x. x \<noteq> '''' \<and> x \<noteq> ''.'')"
  have parts: "?f (split_on (CHR ''/'') [] ?j) = p_parts p"
  proof (cases "p_parts p = []")
    case False
    then have "split_on (CHR ''/'') [] ?j = p_parts p"
      using assms by (intro split_on_join) (auto simp: path_ok_def)
    then show ?thesis using assms by (simp add: path_ok_def filter_id_conv)
  qed simp
  have first: "p_parts p = [] \<or> (\<exists>c cs. ?j = c # cs \<and> c \<noteq> CHR ''/'')"
  proof (cases "p_parts p")
    case (Cons x xs)
    with assms obtain c cs where "x = c # cs" "c \<noteq> CHR ''/''" by (cases x) (auto simp: path_ok_def)
    with Cons show ?thesis by (cases xs) simp_all
  qed simp
  from assms consider (relative) "p_root p = ''''" | (root) "p_root p = ''/''" | (net) "p_root p = ''//''"
    by (auto simp: path_ok_def)
  then show ?thesis
  proof cases
    case relative
    show ?thesis
    proof (cases "p_parts p = []")
      case True
      with relative show ?thesis by (simp add: path_str_def path_of_def py_startswith_def)
    next
      case False
      with first obtain c cs where c: "?j = c # cs" "c \<noteq> CHR ''/''" by blast
      then have "path_str p = c # cs" using relative by (simp add: path_str_def Let_def)
      moreover have "?f (split_on (CHR ''/'') [] (c # cs)) = p_parts p" using parts c by simp
      ultimately show ?thesis using relative c by (simp add: path_of_def py_startswith_def)
    qed
  next
    case root
    then have s: "path_str p = CHR ''/'' # ?j" by (simp add: path_str_def Let_def)
    have "?f (split_on (CHR ''/'') [] (CHR ''/'' # ?j)) = p_parts p" using parts by simp
    with root s first show ?thesis by (auto simp: path_of_def py_startswith_def)
  next
    case net
    then have s: "path_str p = CHR ''/'' # CHR ''/'' # ?j" by (simp add: path_str_def Let_def)
    have "?f (split_on (CHR ''/'') [] (CHR ''/'' # CHR ''/'' # ?j)) = p_parts p" using parts by simp
    with net s first show ?thesis by (auto simp: path_of_def py_startswith_def)
  qed
qed

section \<open>A command line for every choice of arguments\<close>

definition with_value :: "string \<Rightarrow> string \<Rightarrow> string" where
  "with_value s v = s @ ''='' @ v"

definition args_line :: "(rat \<Rightarrow> string) \<Rightarrow> download_args \<Rightarrow> string list" where
  "args_line fmt a =
     [with_value ''--model'' (a_model a), with_value ''--output-dir'' (path_str (a_output_dir a))] @
     (case a_local_dir a of None \<Rightarrow> [] | Some d \<Rightarrow> [with_value ''--local-dir'' (path_str d)]) @
     [with_value ''--hf-home'' (path_str (a_hf_home a)), with_value ''--hf-endpoint'' (a_hf_endpoint a)] @
     (case a_revision a of None \<Rightarrow> [] | Some r \<Rightarrow> [with_value ''--revision'' r]) @
     [with_value ''--retries'' (str_int (a_retries a)),
      with_value ''--retry-sleep-s'' (fmt (a_retry_sleep_s a)),
      with_value ''--max-workers'' (str_int (a_max_workers a))] @
     ''--include'' # a_include a @ ''--exclude'' # a_exclude a @
     (if a_local_files_only a then [''--local-files-only''] else []) @
     (if a_dry_run a then [''--dry-run''] else [])"

definition args_ok :: "(rat \<Rightarrow> string) \<Rightarrow> download_args \<Rightarrow> bool" where
  "args_ok fmt a \<longleftrightarrow>
     path_ok (a_output_dir a) \<and> path_ok (a_hf_home a) \<and>
     (case a_local_dir a of None \<Rightarrow> True | Some d \<Rightarrow> path_ok d) \<and>
     py_int (str_int (a_retries a)) = Some (a_retries a) \<and>
     py_int (str_int (a_max_workers a)) = Some (a_max_workers a) \<and>
     py_float (fmt (a_retry_sleep_s a)) = Some (Finite (a_retry_sleep_s a)) \<and>
     a_include a \<noteq> [] \<and> a_exclude a \<noteq> [] \<and>
     (\<forall>v \<in> set (a_include a @ a_exclude a). parse_optional v = ArgValue)"

lemma option_no_eq: "map_of option_strings s = Some a \<Longrightarrow> CHR ''='' \<notin> set s"
  by (drule map_of_SomeD) (auto simp: option_strings_def)

lemma with_value_partition:
  assumes "map_of option_strings s = Some a"
  shows "partition_eq (with_value s v) = (s, Some v)" and "map_of option_strings (with_value s v) = None"
proof -
  have "takeWhile (\<lambda>c. c \<noteq> CHR ''='') (s @ CHR ''='' # v) = s"
    using option_no_eq [OF assms] by (subst takeWhile_append2) auto
  then show "partition_eq (with_value s v) = (s, Some v)" by (simp add: partition_eq_def with_value_def Let_def)
  have "CHR ''='' \<in> set (with_value s v)" by (simp add: with_value_def)
  with option_no_eq show "map_of option_strings (with_value s v) = None"
    by (cases "map_of option_strings (with_value s v)") auto
qed

lemma parse_with_value:
  assumes "map_of option_strings s = Some a"
  shows "parse_optional (with_value s v) = ArgOption (Some a) s True (Some v)" and "with_value s v \<noteq> ''--''"
proof -
  have "s \<noteq> []" "hd s = CHR ''-''" using map_of_SomeD [OF assms] by (auto simp: option_strings_def)
  then have "with_value s v \<noteq> []" "hd (with_value s v) = CHR ''-''" "length (with_value s v) \<noteq> 1"
    by (auto simp: with_value_def)
  with with_value_partition [OF assms] assms
  show "parse_optional (with_value s v) = ArgOption (Some a) s True (Some v)" by (simp add: parse_optional_def)
  have "CHR ''='' \<in> set (with_value s v)" by (simp add: with_value_def)
  then show "with_value s v \<noteq> ''--''" by auto
qed

lemma parse_optional_exact:
  "map_of option_strings s = Some a \<Longrightarrow> parse_optional s = ArgOption (Some a) s False None"
  by (frule map_of_SomeD) (auto simp: option_strings_def parse_optional_def)

lemma classify_all:
  "\<forall>x \<in> set xs. x \<noteq> ''--'' \<and> parse_optional x \<noteq> ArgAmbiguous \<Longrightarrow>
   classify xs = Some (map (\<lambda>x. (x, parse_optional x)) xs)"
  by (induction xs) simp_all

lemma consume_steps:
  "opt_nargs a \<noteq> NoValue \<Longrightarrow> take_action a [v] ns = Inr ns1 \<Longrightarrow>
   consume ((x, ArgOption (Some a) s q (Some v)) # rest) ns ex = consume rest ns1 ex"
  "opt_nargs a = NoValue \<Longrightarrow> take_action a [] ns = Inr ns1 \<Longrightarrow>
   consume ((x, ArgOption (Some a) s q None) # rest) ns ex = consume rest ns1 ex"
  by (simp_all add: consume.simps(2) option_values_def)

lemma consume_values:
  assumes "opt_nargs a = SomeValues" and "take_action a vs ns = Inr ns1" and "vs \<noteq> []"
    and v: "\<forall>v \<in> set vs. parse_optional v = ArgValue" and "rest = [] \<or> \<not> is_value (hd rest)"
  shows "consume ((x, ArgOption (Some a) s q None) # map (\<lambda>x. (x, parse_optional x)) vs @ rest) ns ex =
    consume rest ns1 ex"
proof -
  let ?vs = "map (\<lambda>x. (x, parse_optional x)) vs"
  have "takeWhile is_value (?vs @ rest) = ?vs @ takeWhile is_value rest"
    using v by (induction vs) simp_all
  moreover have "dropWhile is_value (?vs @ rest) = dropWhile is_value rest"
    using v by (induction vs) simp_all
  moreover have "takeWhile is_value rest = []" "dropWhile is_value rest = rest"
    using assms(5) by (cases rest; simp)+
  ultimately have "option_values SomeValues (?vs @ rest) = Some (vs, rest)"
    using assms(3) by (simp add: option_values_def comp_def)
  then show ?thesis using assms(1,2) by (simp add: consume.simps(2))
qed

lemma option_lookups:
  "map_of option_strings ''--model'' = Some OptModel"
  "map_of option_strings ''--output-dir'' = Some OptOutputDir"
  "map_of option_strings ''--local-dir'' = Some OptLocalDir"
  "map_of option_strings ''--hf-home'' = Some OptHfHome"
  "map_of option_strings ''--hf-endpoint'' = Some OptHfEndpoint"
  "map_of option_strings ''--revision'' = Some OptRevision"
  "map_of option_strings ''--retries'' = Some OptRetries"
  "map_of option_strings ''--retry-sleep-s'' = Some OptRetrySleep"
  "map_of option_strings ''--max-workers'' = Some OptMaxWorkers"
  "map_of option_strings ''--include'' = Some OptInclude"
  "map_of option_strings ''--exclude'' = Some OptExclude"
  "map_of option_strings ''--local-files-only'' = Some OptLocalFilesOnly"
  "map_of option_strings ''--dry-run'' = Some OptDryRun"
  by (simp_all add: option_strings_def)

lemmas option_parses = option_lookups [THEN parse_with_value(1)] option_lookups [THEN parse_optional_exact]

text \<open>The parts of the line, each with its effect.\<close>

abbreviation classed :: "string list \<Rightarrow> (string \<times> arg_class) list" where
  "classed xs \<equiv> map (\<lambda>x. (x, parse_optional x)) xs"

lemma consume_flags:
  "consume (classed ((if lf then [''--local-files-only''] else []) @ (if dry then [''--dry-run''] else []))) ns [] =
     Parsed (ns\<lparr>a_local_files_only := a_local_files_only ns \<or> lf, a_dry_run := a_dry_run ns \<or> dry\<rparr>)"
  by (simp add: option_parses consume_steps opt_nargs_def take_action_def)

lemma consume_patterns:
  assumes "inc \<noteq> []" "exc \<noteq> []" "\<forall>v \<in> set (inc @ exc). parse_optional v = ArgValue"
    and "rest = [] \<or> \<not> is_value (hd rest)"
  shows "consume (classed (''--include'' # inc @ ''--exclude'' # exc) @ rest) ns [] =
    consume rest (ns\<lparr>a_include := inc, a_exclude := exc\<rparr>) []"
proof -
  have v: "\<forall>v \<in> set inc. parse_optional v = ArgValue" "\<forall>v \<in> set exc. parse_optional v = ArgValue"
    using assms(3) by simp_all
  have n: "opt_nargs OptInclude = SomeValues" "opt_nargs OptExclude = SomeValues" by (simp_all add: opt_nargs_def)
  let ?x = "(''--exclude'', ArgOption (Some OptExclude) ''--exclude'' False None) # classed exc @ rest"
  have "consume ((''--include'', ArgOption (Some OptInclude) ''--include'' False None) # classed inc @ ?x) ns [] =
      consume ?x (ns\<lparr>a_include := inc\<rparr>) []"
    by (rule consume_values [OF n(1) _ assms(1) v(1)]) (simp_all add: take_action_def)
  also have "\<dots> = consume rest (ns\<lparr>a_include := inc, a_exclude := exc\<rparr>) []"
    by (rule consume_values [OF n(2) _ assms(2) v(2) assms(4)]) (simp add: take_action_def)
  finally show ?thesis by (simp add: option_parses)
qed

lemma consume_settings:
  assumes "args_ok fmt a"
  shows "consume (classed
     ([with_value ''--model'' (a_model a), with_value ''--output-dir'' (path_str (a_output_dir a))] @
      (case a_local_dir a of None \<Rightarrow> [] | Some d \<Rightarrow> [with_value ''--local-dir'' (path_str d)]) @
      [with_value ''--hf-home'' (path_str (a_hf_home a)), with_value ''--hf-endpoint'' (a_hf_endpoint a)] @
      (case a_revision a of None \<Rightarrow> [] | Some r \<Rightarrow> [with_value ''--revision'' r]) @
      [with_value ''--retries'' (str_int (a_retries a)),
       with_value ''--retry-sleep-s'' (fmt (a_retry_sleep_s a)),
       with_value ''--max-workers'' (str_int (a_max_workers a))]) @ rest) (default_args env) [] =
    consume rest ((default_args env)\<lparr>a_model := a_model a, a_output_dir := a_output_dir a,
      a_local_dir := a_local_dir a, a_hf_home := a_hf_home a, a_hf_endpoint := a_hf_endpoint a,
      a_revision := a_revision a, a_retries := a_retries a, a_retry_sleep_s := a_retry_sleep_s a,
      a_max_workers := a_max_workers a\<rparr>) []"
proof -
  have "consume (classed
     ([with_value ''--model'' (a_model a), with_value ''--output-dir'' (path_str (a_output_dir a))] @
      (case ld of None \<Rightarrow> [] | Some d \<Rightarrow> [with_value ''--local-dir'' (path_str d)]) @
      [with_value ''--hf-home'' (path_str (a_hf_home a)), with_value ''--hf-endpoint'' (a_hf_endpoint a)] @
      (case rv of None \<Rightarrow> [] | Some r \<Rightarrow> [with_value ''--revision'' r]) @
      [with_value ''--retries'' (str_int (a_retries a)),
       with_value ''--retry-sleep-s'' (fmt (a_retry_sleep_s a)),
       with_value ''--max-workers'' (str_int (a_max_workers a))]) @ rest) (default_args env) [] =
    consume rest ((default_args env)\<lparr>a_model := a_model a, a_output_dir := a_output_dir a,
      a_local_dir := ld, a_hf_home := a_hf_home a, a_hf_endpoint := a_hf_endpoint a,
      a_revision := rv, a_retries := a_retries a, a_retry_sleep_s := a_retry_sleep_s a,
      a_max_workers := a_max_workers a\<rparr>) []"
    if "case ld of None \<Rightarrow> True | Some d \<Rightarrow> path_ok d" for ld rv
    using assms that
    by (cases ld; cases rv; simp add: args_ok_def option_parses consume_steps opt_nargs_def take_action_def
        path_of_str; simp add: default_args_def)
  from this [of "a_local_dir a" "a_revision a"] assms show ?thesis by (simp add: args_ok_def)
qed

text \<open>
  Every choice of arguments can be asked for on the command line, and is read back exactly.
\<close>

lemma args_line_roundtrip:
  assumes "args_ok fmt a"
  shows "parse_args env (args_line fmt a) = Parsed a"
proof -
  let ?flags = "(if a_local_files_only a then [''--local-files-only''] else []) @
    (if a_dry_run a then [''--dry-run''] else [])"
  have v: "\<forall>v \<in> set (a_include a @ a_exclude a). parse_optional v = ArgValue"
    and ne: "a_include a \<noteq> []" "a_exclude a \<noteq> []"
    using assms by (simp_all add: args_ok_def)
  have dashes: "parse_optional ''--'' = ArgAmbiguous" by code_simp
  have "x \<noteq> ''--'' \<and> parse_optional x \<noteq> ArgAmbiguous" if "x \<in> set (args_line fmt a)" for x
  proof (cases "x \<in> set (a_include a @ a_exclude a)")
    case True
    with v have "parse_optional x = ArgValue" by blast
    with dashes show ?thesis by auto
  next
    case False
    with that show ?thesis
      by (auto simp: args_line_def option_parses option_lookups [THEN parse_with_value(2)] split: option.splits if_splits)
  qed
  then have c: "classify (args_line fmt a) = Some (classed (args_line fmt a))" by (intro classify_all) blast
  have flags: "classed ?flags = [] \<or> \<not> is_value (hd (classed ?flags))"
    by (simp add: option_parses)
  have "consume (classed (args_line fmt a)) (default_args env) [] = Parsed a"
    unfolding args_line_def using consume_settings [OF assms, of _ env] consume_patterns [OF ne v flags]
      consume_flags [of "a_local_files_only a" "a_dry_run a"]
    by (simp add: default_args_def)
  with c show ?thesis by (simp add: parse_args_def)
qed

section \<open>Properties\<close>



end
