(* ===== verification/Slots.thy ===== *)
theory Slots
  imports Routes
begin

text \<open>
  A worker between its suspension points: waiting, collecting a batch, or running one, and what each
  of its steps does to the handles of the requests it holds.
\<close>

section \<open>A worker between its suspension points\<close>

text \<open>
  A worker waits for a first request, is inside \<open>next_batch\<close> with some requests already taken from
  the queue, or runs a batch, which it began at some clock reading.
\<close>

datatype slot = Idle | Collecting "ref list" | Running "exec_state \<times> seconds"

text \<open>\<open>next_batch\<close> has returned: the batch is recorded and logged, and its execution begins.\<close>

definition begin_batch ::
  "clock \<Rightarrow> (string list \<Rightarrow> string list) \<Rightarrow> ref list \<Rightarrow> runtime_state \<Rightarrow> slot \<times> runtime_state"
where
  "begin_batch ck so items st =
     (let st1 = note_batch items st; active = active_items items st1 in
      if active = [] then (Idle, st1) else (Running (start_exec so active st1, now ck st1), tick st1))"

text \<open>A call of \<open>next_batch\<close> with nothing else happening during it.\<close>

definition take_batch ::
  "'s next_batch_fun \<Rightarrow> clock \<Rightarrow> (string list \<Rightarrow> string list) \<Rightarrow> worker_manager \<Rightarrow> batch_env \<Rightarrow>
   runtime_state \<times> 's \<Rightarrow> (slot \<times> runtime_state \<times> 's) option"
where
  "take_batch nb ck so m e p =
     (case nb (wm_max_batch_size m) (wm_batch_timeout_ms m) e (st_store (fst p)) (snd p) of
        None \<Rightarrow> None
      | Some (h1, items, s1) \<Rightarrow>
          (case begin_batch ck so items ((fst p)\<lparr>st_store := h1\<rparr>) of
             (sl, st1) \<Rightarrow> Some (sl, st1, s1)))"

text \<open>The end of a call that took its requests one by one: they are marked as started.\<close>

definition close_batch ::
  "clock \<Rightarrow> (string list \<Rightarrow> string list) \<Rightarrow> (nat \<Rightarrow> seconds) \<Rightarrow> ref list \<Rightarrow> runtime_state \<Rightarrow>
   slot \<times> runtime_state"
where
  "close_batch ck so mk items st =
     begin_batch ck so items (st\<lparr>st_store := mark_all_started 0 mk items (st_store st)\<rparr>)"

text \<open>One event of the backend; an exception leads to the \<open>except\<close> block.\<close>

definition worker_event ::
  "clock \<Rightarrow> batch_event \<Rightarrow> exec_state \<times> seconds \<Rightarrow> runtime_state \<Rightarrow> slot \<times> runtime_state"
where
  "worker_event ck e xb st =
     (case exec_event ck (snd xb) e (fst xb, st) of
        ((x1, st1), None) \<Rightarrow> (Running (x1, snd xb), st1)
      | ((x1, st1), Some m) \<Rightarrow> (Idle, fst (fail_pending ck m x1 st1)))"

text \<open>The stream of the backend ends, with an exception or without.\<close>

definition worker_finish ::
  "clock \<Rightarrow> string option \<Rightarrow> exec_state \<times> seconds \<Rightarrow> runtime_state \<Rightarrow> runtime_state"
where
  "worker_finish ck exc xb st =
     (case exc of
        Some m \<Rightarrow> fst (fail_pending ck m (fst xb) st)
      | None \<Rightarrow>
          (case finish_pending ck (snd xb) (fst xb) st of
             (st1, None) \<Rightarrow> st1
           | (st1, Some m) \<Rightarrow> fst (fail_pending ck m (fst xb) st1)))"

section \<open>What a request is\<close>

text \<open>The caller has, or will find, an end: a done future, a terminal event in the queue or already
  read, or a cancelled handle.\<close>

fun chan_ended :: "response_handle \<Rightarrow> bool" where
  "chan_ended (Completion h) = (ch_cancelled h \<or> (\<exists>g. fut h = Result g) \<or> (\<exists>e. fut h = Failed e))"
| "chan_ended (Streaming h) = (sh_cancelled h \<or> sh_completed h \<or> (\<exists>e \<in> set (queue h). is_terminal e))"

text \<open>The caller has no end yet, and the worker may still give it one.\<close>

fun chan_open :: "response_handle \<Rightarrow> bool" where
  "chan_open (Completion h) = (if ch_cancelled h then fut h = Cancelled else fut h = Pending)"
| "chan_open (Streaming h) = (\<not> sh_completed h \<and> (\<forall>e \<in> set (queue h). \<not> is_terminal e))"

lemma open_settleable: "chan_open c \<Longrightarrow> settleable c"
  by (cases c) auto

lemma open_ended: "chan_open c \<Longrightarrow> chan_ended c \<Longrightarrow> handle_cancelled c"
  by (cases c) (auto split: if_splits)

lemma open_cancel: "chan_open c \<Longrightarrow> chan_open (snd (cancel_handle c))"
  by (cases c) (auto simp: cancel_completion_def cancel_streaming_def Let_def split: if_splits)

lemma open_token: "chan_open c \<Longrightarrow> chan_open (give_token t c)"
  by (cases c) (auto simp: give_token_def put_event_def)

lemma open_new: "chan_open (new_channel body)"
  by (simp add: new_channel_def create_streaming_def create_completion_def)

fun slot_refs :: "slot \<Rightarrow> ref list" where
  "slot_refs Idle = []"
| "slot_refs (Collecting items) = items"
| "slot_refs (Running (x, bs)) = map (\<lambda>i. the (map_of (ex_items x) i)) (ex_pending x)"

declare slot_refs.simps(3) [simp del]

definition in_flight :: "slot list \<Rightarrow> ref list" where
  "in_flight sls = concat (map slot_refs sls)"

fun slot_ok :: "store \<Rightarrow> slot \<Rightarrow> bool" where
  "slot_ok h Idle = True"
| "slot_ok h (Collecting items) = distinct items"
| "slot_ok h (Running (x, bs)) =
     (distinct (ex_pending x) \<and> set (ex_pending x) \<subseteq> fst ` set (ex_items x) \<and>
      (\<forall>i r. map_of (ex_items x) i = Some r \<longrightarrow> i = rid h r))"

lemma slot_refs_iff:
  assumes "slot_ok h (Running (x, bs))"
  shows "r \<in> set (slot_refs (Running (x, bs))) \<longleftrightarrow>
    rid h r \<in> set (ex_pending x) \<and> map_of (ex_items x) (rid h r) = Some r"
proof
  assume "r \<in> set (slot_refs (Running (x, bs)))"
  then obtain i where i: "i \<in> set (ex_pending x)" "r = the (map_of (ex_items x) i)"
    by (auto simp: slot_refs.simps(3))
  then obtain q where "map_of (ex_items x) i = Some q"
    using assms by (metis map_of_eq_None_iff option.exhaust slot_ok.simps(3) subsetD)
  with i assms show "rid h r \<in> set (ex_pending x) \<and> map_of (ex_items x) (rid h r) = Some r" by auto
next
  assume "rid h r \<in> set (ex_pending x) \<and> map_of (ex_items x) (rid h r) = Some r"
  then show "r \<in> set (slot_refs (Running (x, bs)))"
    by (auto simp: slot_refs.simps(3) intro!: rev_image_eqI [of "rid h r"])
qed

fun slot_items :: "slot \<Rightarrow> ref set" where
  "slot_items Idle = {}"
| "slot_items (Collecting items) = set items"
| "slot_items (Running (x, bs)) = snd ` set (ex_items x)"

lemma slot_items_discard [simp]:
  "slot_items (Running (discard_pending i x, bs)) = slot_items (Running (x, bs))"
  by (simp add: discard_pending_def)

lemma slot_ok_frame:
  assumes "slot_ok h sl" and "\<forall>q \<in> slot_items sl. rid h' q = rid h q"
  shows "slot_ok h' sl"
proof (cases sl rule: slot_refs.cases)
  case (3 x bs)
  have "rid h' r = rid h r" if "map_of (ex_items x) i = Some r" for i r
    using assms(2) map_of_SomeD [OF that] 3 by force
  with assms(1) 3 show ?thesis by simp
qed (use assms in simp_all)

lemma slot_ok_rid: "\<forall>q. rid h' q = rid h q \<Longrightarrow> slot_ok h sl \<Longrightarrow> slot_ok h' sl"
  using slot_ok_frame by blast

lemma ended_settled: "chan_ended (settle_ok i ts c)" "chan_ended (settle_error m c)"
  by (cases c; simp add: settle_ok_def settle_error_def put_event_def)+

lemma ended_cancelled: "handle_cancelled c \<Longrightarrow> chan_ended c"
  by (cases c) auto

lemma ended_cancel: "chan_ended c \<Longrightarrow> chan_ended (snd (cancel_handle c))"
  by (cases c) (auto simp: cancel_completion_def cancel_streaming_def Let_def)

text \<open>What a step of a worker does to the handles: those it lets go have ended, those it keeps can
  still be settled, all others are untouched.\<close>

definition slot_step :: "slot \<Rightarrow> slot \<Rightarrow> store \<Rightarrow> store \<Rightarrow> bool" where
  "slot_step sl sl' h h' \<longleftrightarrow>
     slot_ok h' sl' \<and> slot_items sl' \<subseteq> slot_items sl \<and>
     set (slot_refs sl') \<subseteq> set (slot_refs sl) \<and> (\<forall>q. rid h' q = rid h q) \<and>
     (\<forall>q. q \<notin> set (slot_refs sl) \<longrightarrow> handle (h' q) = handle (h q)) \<and>
     (\<forall>r \<in> set (slot_refs sl'). chan_open (handle (h' r))) \<and>
     (\<forall>r \<in> set (slot_refs sl) - set (slot_refs sl'). chan_ended (handle (h' r)))"

definition slot_ready :: "slot \<Rightarrow> store \<Rightarrow> bool" where
  "slot_ready sl h \<longleftrightarrow> slot_ok h sl \<and> (\<forall>r \<in> set (slot_refs sl). chan_open (handle (h r)))"

lemma slot_step_refl: "slot_ready sl h \<Longrightarrow> slot_step sl sl h h"
  by (simp add: slot_step_def slot_ready_def)

text \<open>The two loops over what is pending let all of it go.\<close>

lemma each_pending_slot_step:
  assumes ready: "slot_ready (Running (x, bs)) (st_store st)"
    and act: "\<And>i r st. map_of (ex_items x) i = Some r \<Longrightarrow> settleable (handle (st_store st r)) \<Longrightarrow>
      \<not> sr_cancelled (st_store st r) \<Longrightarrow> rid (st_store st) r = i \<Longrightarrow>
      snd (act i r st) = None \<and>
      (\<forall>q. rid (st_store (fst (act i r st))) q = rid (st_store st) q \<and>
        handle (st_store (fst (act i r st)) q) =
          (if q = r then eff i (handle (st_store st r)) else handle (st_store st q)))"
    and eff: "\<And>i c. chan_ended (eff i c)"
  shows "snd (each_pending act (ex_items x) (ex_pending x) st) = None \<and>
    slot_step (Running (x, bs)) Idle (st_store st) (st_store (fst (each_pending act (ex_items x) (ex_pending x) st)))"
proof -
  let ?h = "st_store st" and ?ident = "rid (st_store st)"
  have ok: "slot_ok ?h (Running (x, bs))" and sett: "\<forall>r \<in> set (slot_refs (Running (x, bs))). settleable (handle (?h r))"
    using ready open_settleable by (simp_all add: slot_ready_def)
  have its: "i = ?ident r" if "map_of (ex_items x) i = Some r" for i r using ok that by simp
  have pend: "\<forall>i \<in> set (ex_pending x). \<forall>r. map_of (ex_items x) i = Some r \<longrightarrow> settleable (handle (?h r))"
    using its sett slot_refs_iff [OF ok] by metis
  have e: "snd (each_pending act (ex_items x) (ex_pending x) st) = None \<and>
    (\<forall>q. rid (st_store (fst (each_pending act (ex_items x) (ex_pending x) st))) q = ?ident q \<and>
      handle (st_store (fst (each_pending act (ex_items x) (ex_pending x) st)) q) =
        (if ?ident q \<in> set (ex_pending x) \<and> map_of (ex_items x) (?ident q) = Some q \<and>
           \<not> handle_cancelled (handle (?h q))
         then eff (?ident q) (handle (?h q)) else handle (?h q)))"
    using ok its pend by (intro each_pending_effect act) auto
  then show ?thesis
    using eff ended_cancelled slot_refs_iff [OF ok] by (auto simp: slot_step_def)
qed

lemma fail_pending_slot_step:
  assumes "slot_ready (Running (x, bs)) (st_store st)"
  shows "slot_step (Running (x, bs)) Idle (st_store st) (st_store (fst (fail_pending ck m x st)))"
  unfolding fail_pending_def
  by (rule conjunct2 [OF each_pending_slot_step [OF assms, where eff = "\<lambda>i. settle_error m"]])
    (use fail_item_effect ended_settled in auto)

lemma finish_pending_slot_step:
  assumes "slot_ready (Running (x, bs)) (st_store st)"
  shows "snd (finish_pending ck b x st) = None \<and>
    slot_step (Running (x, bs)) Idle (st_store st) (st_store (fst (finish_pending ck b x st)))"
  unfolding finish_pending_def
  by (rule each_pending_slot_step [OF assms, where eff = "\<lambda>i. settle_ok i (ex_tokens x i)"])
    (use complete_item_effect ended_settled in auto)

lemma worker_finish_slot_step:
  assumes "slot_ready (Running xb) (st_store st)"
  shows "slot_step (Running xb) Idle (st_store st) (st_store (worker_finish ck exc xb st))"
proof -
  obtain x bs where xb: "xb = (x, bs)" by (cases xb)
  show ?thesis
    using finish_pending_slot_step [of x bs st ck bs] fail_pending_slot_step [of x bs st ck] assms
    by (auto simp: xb worker_finish_def split: option.split prod.split)
qed

text \<open>An event.\<close>

lemma slot_ok_less:
  assumes "slot_ok h (Running (x, bs))" and "ex_items x1 = ex_items x" and "distinct (ex_pending x1)"
    and "set (ex_pending x1) \<subseteq> set (ex_pending x)"
  shows "slot_ok h (Running (x1, bs))"
  using assms by (simp add: subset_trans [OF assms(4)])

lemma slot_discard:
  assumes "slot_ok h (Running (x, bs))" and "map_of (ex_items x) i = Some q"
  shows "slot_ok h (Running (discard_pending i x, bs)) \<and>
    set (slot_refs (Running (discard_pending i x, bs))) = set (slot_refs (Running (x, bs))) - {q}"
proof -
  have ok: "slot_ok h (Running (discard_pending i x, bs))"
  proof (rule slot_ok_less [OF assms(1)])
    have "distinct (ex_pending x)" using assms(1) by simp
    then show "distinct (ex_pending (discard_pending i x))" by (rule discard_distinct)
  qed (auto simp: discard_pending_def)
  have i: "i = rid h q" using assms by simp
  have "r \<in> set (slot_refs (Running (discard_pending i x, bs))) \<longleftrightarrow> r \<in> set (slot_refs (Running (x, bs))) \<and> r \<noteq> q" for r
  proof -
    have "map_of (ex_items x) (rid h r) = Some r \<Longrightarrow> rid h r \<noteq> i \<longleftrightarrow> r \<noteq> q"
      using i assms(2) by (metis option.inject)
    then show ?thesis
      unfolding slot_refs_iff [OF ok] slot_refs_iff [OF assms(1)] by (simp add: discard_pending_def) blast
  qed
  with ok show ?thesis by blast
qed

lemma slot_pending:
  assumes "slot_ok h (Running (x, bs))" and "map_of (ex_items x) i = Some q" and "i \<in> set (ex_pending x)"
  shows "q \<in> set (slot_refs (Running (x, bs)))"
  using assms by (subst slot_refs_iff) auto

lemma worker_event_slot_step:
  assumes ready: "slot_ready (Running (x, bs)) (st_store st)"
    and ev: "worker_event ck e (x, bs) st = (sl, st')"
  shows "slot_step (Running (x, bs)) sl (st_store st) (st_store st')"
proof (cases "ev_id e \<in> set (ex_pending x) \<and> map_of (ex_items x) (ev_id e) \<noteq> None")
  case False
  then have "exec_event ck bs e (x, st) = ((x, st), None)" by (auto simp: exec_event_def)
  then have "sl = Running (x, bs)" "st' = st" using ev by (simp_all add: worker_event_def)
  with slot_step_refl [OF ready] show ?thesis by simp
next
  case True
  then obtain q where q: "map_of (ex_items x) (ev_id e) = Some q" and p: "ev_id e \<in> set (ex_pending x)" by blast
  have ok: "slot_ok (st_store st) (Running (x, bs))" using ready by (simp add: slot_ready_def)
  note mem = slot_pending [OF ok q p]
  note d = slot_discard [OF ok q]
  have op: "\<forall>r \<in> set (slot_refs (Running (x, bs))). chan_open (handle (st_store st r))"
    using ready by (simp add: slot_ready_def)
  show ?thesis
  proof (cases "sr_cancelled (st_store st q)")
    case True
    then have "exec_event ck bs e (x, st) = ((discard_pending (ev_id e) x, st), None)"
      using p q by (simp add: exec_event_def)
    then have "sl = Running (discard_pending (ev_id e) x, bs)" "st' = st"
      using ev by (simp_all add: worker_event_def)
    then show ?thesis
      using d op ended_cancelled True
      by (auto simp: slot_step_def sr_cancelled_def simp del: slot_ok.simps slot_items.simps(3))
  next
    case live: False
    show ?thesis
    proof (cases e)
      case (BatchToken i t)
      obtain x1 st1 where a: "accept_token ck i q t (x, st) = (x1, st1)" by (metis prod.collapse)
      with p q live BatchToken have "exec_event ck bs e (x, st) = ((x1, st1), None)"
        by (simp add: exec_event_def)
      with ev have e: "sl = Running (x1, bs)" "st' = st1" by (simp_all add: worker_event_def)
      have same: "slot_refs (Running (x1, bs)) = slot_refs (Running (x, bs))"
        using accept_token_effect [OF a] by (simp add: slot_refs.simps(3))
      have "slot_ok (st_store st1) (Running (x1, bs))" using accept_token_effect [OF a] ok by simp
      then show ?thesis
        using accept_token_effect [OF a] op open_token mem by (simp add: slot_step_def e same)
    next
      case (BatchCompleted i)
      obtain st1 err where c: "complete_item ck bs q (ex_tokens x i) st = (st1, err)" by (metis prod.collapse)
      have eff: "err = None \<and> (\<forall>r. rid (st_store st1) r = rid (st_store st) r \<and> handle (st_store st1 r) =
          (if r = q then settle_ok (rid (st_store st) q) (ex_tokens x i) (handle (st_store st q)) else handle (st_store st r)))"
        using complete_item_effect [of st q ck bs "ex_tokens x i"] open_settleable op mem live c by auto
      with p q live BatchCompleted c have "exec_event ck bs e (x, st) = ((discard_pending i x, st1), None)"
        by (simp add: exec_event_def)
      with ev have e: "sl = Running (discard_pending i x, bs)" "st' = st1" by (simp_all add: worker_event_def)
      have "slot_ok (st_store st1) sl" using eff d slot_ok_rid BatchCompleted e by fastforce
      then show ?thesis
        using d eff op ended_settled mem BatchCompleted by (auto simp: slot_step_def e simp del: slot_ok.simps slot_items.simps(3))
    qed
  qed
qed

text \<open>Taking a batch: the cancelled requests leave the queue, the others become pending.\<close>

lemma slot_refs_distinct:
  assumes "slot_ok h sl"
  shows "distinct (slot_refs sl)"
proof (cases sl rule: slot_refs.cases)
  case sl: (3 x bs)
  have "inj_on (\<lambda>i. the (map_of (ex_items x) i)) (set (ex_pending x))"
  proof (rule inj_onI)
    fix i j
    assume p: "i \<in> set (ex_pending x)" "j \<in> set (ex_pending x)"
      and eq: "the (map_of (ex_items x) i) = the (map_of (ex_items x) j)"
    from p assms sl have "i \<in> fst ` set (ex_items x)" "j \<in> fst ` set (ex_items x)" by auto
    then obtain q r where "map_of (ex_items x) i = Some q" "map_of (ex_items x) j = Some r"
      by (metis map_of_eq_None_iff option.exhaust)
    moreover from this eq have "q = r" by simp
    ultimately show "i = j" using assms sl by (metis slot_ok.simps(3))
  qed
  with assms show ?thesis by (simp add: sl slot_refs.simps(3) distinct_map)
qed (use assms in simp_all)

lemma start_exec_slot:
  assumes "ready_batch active st" and "iteration_order so"
  shows "slot_ok (st_store st) (Running (start_exec so active st, bs)) \<and>
    set (slot_refs (Running (start_exec so active st, bs))) = set active \<and>
    slot_items (Running (start_exec so active st, bs)) = set active"
proof -
  let ?x = "start_exec so active st" and ?ids = "map (rid (st_store st)) active"
  have ids: "distinct ?ids" using assms(1) by (simp add: ready_batch_def)
  have its: "map fst (ex_items ?x) = ?ids" by (simp add: start_exec_items [OF assms(1)])
  then have "ex_pending ?x = so ?ids" by (simp add: start_exec_def Let_def)
  then have pend: "distinct (ex_pending ?x)" "set (ex_pending ?x) = rid (st_store st) ` set active"
    using ids assms(2) by (auto simp: iteration_order_def)
  have "fst ` set (ex_items ?x) = rid (st_store st) ` set active"
    using arg_cong [OF its, of set] by simp
  then have ok: "slot_ok (st_store st) (Running (?x, bs))"
    using pend by (simp add: start_exec_lookup [OF assms(1)])
  moreover have "r \<in> set (slot_refs (Running (?x, bs))) \<longleftrightarrow> r \<in> set active" for r
    unfolding slot_refs_iff [OF ok] start_exec_lookup [OF assms(1)] pend(2) by blast
  moreover have "slot_items (Running (?x, bs)) = set active"
    by (auto simp: start_exec_items [OF assms(1)] image_image)
  ultimately show ?thesis by blast
qed

lemma begin_batch_slot:
  assumes "begin_batch ck so items st = (sl, st')" and "iteration_order so" and "ready_batch items st"
  shows "st_store st' = st_store st \<and> slot_ok (st_store st) sl \<and>
    set (slot_refs sl) = {r \<in> set items. \<not> handle_cancelled (handle (st_store st r))} \<and>
    slot_items sl \<subseteq> set items"
proof -
  let ?st = "note_batch items st" and ?act = "active_items items (note_batch items st)"
  have act: "set ?act = {r \<in> set items. \<not> handle_cancelled (handle (st_store st r))}"
    by (auto simp: active_items_def sr_cancelled_def)
  have rb: "ready_batch ?act ?st"
    using assms(3) by (auto simp: ready_batch_def active_items_def distinct_map inj_on_def)
  show ?thesis
  proof (cases "?act = []")
    case True
    with assms(1) act show ?thesis by (auto simp: begin_batch_def Let_def)
  next
    case False
    then have "sl = Running (start_exec so ?act ?st, now ck ?st)" "st' = tick ?st"
      using assms(1) by (auto simp: begin_batch_def Let_def)
    with start_exec_slot [OF rb assms(2)] act show ?thesis by auto
  qed
qed

text \<open>How many steps a worker has still to take for its batch.\<close>

fun slot_work :: "slot \<Rightarrow> nat" where
  "slot_work Idle = 0"
| "slot_work (Collecting items) = 2"
| "slot_work (Running xb) = 1"

lemma slot_work_simps:
  "begin_batch ck so items st = (sl, st') \<Longrightarrow> slot_work sl \<le> 1"
  "close_batch ck so mk items st = (sl, st') \<Longrightarrow> slot_work sl \<le> 1"
  "worker_event ck e xb st = (sl, st') \<Longrightarrow> slot_work sl \<le> 1"
  by (auto simp: close_batch_def begin_batch_def worker_event_def Let_def
      split: if_splits prod.splits option.splits)

lemma close_batch_slot_step:
  assumes ready: "slot_ready (Collecting items) (st_store st)" and ids: "inj_on (rid (st_store st)) (set items)"
    and so: "iteration_order so" and close: "close_batch ck so mk items st = (sl, st')"
  shows "slot_step (Collecting items) sl (st_store st) (st_store st')"
proof -
  let ?h = "mark_all_started 0 mk items (st_store st)"
  have id: "rid ?h q = rid (st_store st) q" "handle (?h q) = handle (st_store st q)" for q
    using mark_all_started_identity [of "st_store st" 0 mk items] by (simp_all add: same_identity_def)
  have op: "distinct items" "\<forall>r \<in> set items. chan_open (handle (st_store st r))"
    using ready by (simp_all add: slot_ready_def)
  have "inj_on (rid ?h) (set items)" using ids by (simp add: inj_on_def id)
  then have "ready_batch items (st\<lparr>st_store := ?h\<rparr>)"
    using op open_settleable id by (auto simp: ready_batch_def distinct_map)
  from begin_batch_slot [OF close [unfolded close_batch_def] so this] show ?thesis
    using op ended_cancelled id by (auto simp: slot_step_def)
qed

text \<open>
  Closing a batch ends what submissions and single pops began: a call of \<open>next_batch\<close>, whatever
  happens during it, is a run of them followed by \<open>close_batch\<close>.
\<close>

context stepwise_scheduler
begin

lemma take_batch_steps:
  assumes "take_batch next_batch ck so m e (st, s) = Some (sl, st', s')"
  shows "\<exists>ops h1 items n. run_sched pop submit ops (st_store st) s = Some (h1, items, s') \<and>
    items \<noteq> [] \<and> op_subs ops = take n (first_wait e @ concat (map fst (waits e))) \<and>
    close_batch ck so (mark_clk e) items (st\<lparr>st_store := h1\<rparr>) = (sl, st')"
proof -
  obtain h' items where nb: "next_batch (wm_max_batch_size m) (wm_batch_timeout_ms m) e (st_store st) s = Some (h', items, s')"
    and b: "begin_batch ck so items (st\<lparr>st_store := h'\<rparr>) = (sl, st')"
    using assms by (auto simp: take_batch_def split: option.splits prod.splits)
  obtain ops h1 n where "run_sched pop submit ops (st_store st) s = Some (h1, items, s')"
    and "h' = mark_all_started 0 (mark_clk e) items h1"
    and "op_subs ops = take n (first_wait e @ concat (map fst (waits e)))"
    using batch_run [OF nb] by blast
  with b batch_size [OF nb] show ?thesis
    by (intro exI [of _ ops] exI [of _ h1] exI [of _ items] exI [of _ n]) (simp add: close_batch_def)
qed

end

end
