(* ===== verification/Runtime.thy ===== *)
theory Runtime
  imports Slots
begin

text \<open>
  The running system as a transition relation: requests are posted, any number of workers collect
  batches and process backend events one at a time, requests time out or lose their client at any
  moment, and clients read their streams. The transitions are the operations of the components; what
  a worker does between two of its suspension points is one transition. The invariant follows every
  admitted request: it waits in the queue, is held by exactly one worker, or has been answered or
  given up.
\<close>

section \<open>The system\<close>

text \<open>A client takes the next frame of its stream.\<close>

definition read_frame :: "string \<Rightarrow> ref \<Rightarrow> runtime_state \<Rightarrow> runtime_state" where
  "read_frame model r st =
     (case handle (st_store st r) of
        Completion h \<Rightarrow> st
      | Streaming h \<Rightarrow>
          (let (chunks, rest, h1) = stream_loop (rid (st_store st) r) model 1 (queue h) h in
           on_store (upd_handle (\<lambda>_. Streaming (h1\<lparr>queue := rest\<rparr>)) r) st))"

record 's system =
  sys_services :: "'s services"
  sys_slots :: "slot list"
  sys_issued :: "ref list"

abbreviation sys_state :: "'s system \<Rightarrow> runtime_state" where
  "sys_state y \<equiv> sv_state (sys_services y)"

abbreviation sys_store :: "'s system \<Rightarrow> store" where
  "sys_store y \<equiv> st_store (sys_state y)"

abbreviation sys_sched :: "'s system \<Rightarrow> 's" where
  "sys_sched y \<equiv> sv_scheduler (sys_services y)"

definition set_state :: "runtime_state \<Rightarrow> 's system \<Rightarrow> 's system" where
  "set_state st y = y\<lparr>sys_services := (sys_services y)\<lparr>sv_state := st\<rparr>\<rparr>"

definition set_sched :: "'s \<Rightarrow> 's system \<Rightarrow> 's system" where
  "set_sched s y = y\<lparr>sys_services := (sys_services y)\<lparr>sv_scheduler := s\<rparr>\<rparr>"

definition set_slot :: "nat \<Rightarrow> slot \<Rightarrow> 's system \<Rightarrow> 's system" where
  "set_slot k sl y = y\<lparr>sys_slots := (sys_slots y)[k := sl]\<rparr>"

text \<open>
  The life of a batch. \<open>Take\<close> is a call of \<open>next_batch\<close> during which nothing else happens: without a
  collection window there is no other. With a window the call suspends between its pops, so it is a
  step \<open>Open\<close> for the first request, any number of steps \<open>Collect\<close>, with other steps between them,
  and a step \<open>Close\<close> when the batch is full, the deadline has passed or a timer has fired
  (\<open>take_batch_steps\<close>: every call is such a run). When that is depends on the clock alone, so \<open>Close\<close>
  may come at any moment, as may \<open>Finish\<close>, the end of the stream of the backend.
\<close>

inductive batch_step ::
  "(seconds \<Rightarrow> 's \<Rightarrow> (ref \<times> 's) option) \<Rightarrow> 's next_batch_fun \<Rightarrow> clock \<Rightarrow> (string list \<Rightarrow> string list) \<Rightarrow>
   worker_manager \<Rightarrow> 's system \<Rightarrow> 's system \<Rightarrow> bool"
  for pop nb ck so m
where
  Take: "k < length (sys_slots y) \<Longrightarrow> sys_slots y ! k = Idle \<Longrightarrow> env_subs e = [] \<Longrightarrow>
    take_batch nb ck so m e (sys_state y, sys_sched y) = Some (sl, st', s') \<Longrightarrow>
    batch_step pop nb ck so m y (set_slot k sl (set_sched s' (set_state st' y)))"
| Open: "k < length (sys_slots y) \<Longrightarrow> sys_slots y ! k = Idle \<Longrightarrow> wm_batch_timeout_ms m \<noteq> 0 \<Longrightarrow>
    pop t (sys_sched y) = Some (r, s') \<Longrightarrow>
    batch_step pop nb ck so m y (set_slot k (Collecting [r]) (set_sched s' y))"
| Collect: "k < length (sys_slots y) \<Longrightarrow> sys_slots y ! k = Collecting items \<Longrightarrow>
    int (length items) < wm_max_batch_size m \<Longrightarrow> pop t (sys_sched y) = Some (r, s') \<Longrightarrow>
    batch_step pop nb ck so m y (set_slot k (Collecting (items @ [r])) (set_sched s' y))"
| Close: "k < length (sys_slots y) \<Longrightarrow> sys_slots y ! k = Collecting items \<Longrightarrow>
    close_batch ck so mk items (sys_state y) = (sl, st') \<Longrightarrow>
    batch_step pop nb ck so m y (set_slot k sl (set_state st' y))"
| Finish: "k < length (sys_slots y) \<Longrightarrow> sys_slots y ! k = Running xb \<Longrightarrow>
    worker_finish ck exc xb (sys_state y) = st' \<Longrightarrow>
    batch_step pop nb ck so m y (set_slot k Idle (set_state st' y))"

text \<open>
  The system takes these steps, lets a running batch see an event of its backend, and serves its
  clients. \<open>Post\<close> relies on fresh references (allocation) and fresh ids (\<open>uuid4\<close>).
\<close>

inductive sys_step ::
  "('s \<Rightarrow> nat) \<Rightarrow> (submission \<Rightarrow> store \<Rightarrow> 's \<Rightarrow> store \<times> 's) \<Rightarrow> (seconds \<Rightarrow> 's \<Rightarrow> (ref \<times> 's) option) \<Rightarrow>
   's next_batch_fun \<Rightarrow> clock \<Rightarrow> (string list \<Rightarrow> string list) \<Rightarrow> worker_manager \<Rightarrow>
   's system \<Rightarrow> 's system \<Rightarrow> bool"
  for size_of submit pop nb ck so m
where
  Post: "receive_request size_of submit pt uuid r body (sys_services y) = (d, sv') \<Longrightarrow>
    r \<notin> set (sys_issued y) \<Longrightarrow> new_request_id uuid \<notin> rid (sys_store y) ` set (sys_issued y) \<Longrightarrow>
    sys_step size_of submit pop nb ck so m y
      (y\<lparr>sys_services := sv', sys_issued := (if accepted d then r # sys_issued y else sys_issued y)\<rparr>)"
| Batch: "batch_step pop nb ck so m y y' \<Longrightarrow> sys_step size_of submit pop nb ck so m y y'"
| Event: "k < length (sys_slots y) \<Longrightarrow> sys_slots y ! k = Running xb \<Longrightarrow>
    worker_event ck e xb (sys_state y) = (sl, st') \<Longrightarrow>
    sys_step size_of submit pop nb ck so m y (set_slot k sl (set_state st' y))"
| Leave: "r \<in> set (sys_issued y) \<Longrightarrow> abort_ref ck msg r (sys_state y) = st' \<Longrightarrow>
    sys_step size_of submit pop nb ck so m y (set_state st' y)"
| Read: "r \<in> set (sys_issued y) \<Longrightarrow> read_frame model r (sys_state y) = st' \<Longrightarrow>
    sys_step size_of submit pop nb ck so m y (set_state st' y)"

definition sys_init :: "admission_controller \<Rightarrow> 's \<Rightarrow> store \<Rightarrow> nat \<Rightarrow> 's system" where
  "sys_init adm s h workers =
     \<lparr>sys_services = \<lparr>sv_admission = adm, sv_scheduler = s,
        sv_state = \<lparr>st_store = h, st_metrics = init_collector, st_log = [], st_ticks = 0\<rparr>\<rparr>,
      sys_slots = replicate workers Idle, sys_issued = []\<rparr>"

definition sys_reach ::
  "('s \<Rightarrow> nat) \<Rightarrow> (submission \<Rightarrow> store \<Rightarrow> 's \<Rightarrow> store \<times> 's) \<Rightarrow> (seconds \<Rightarrow> 's \<Rightarrow> (ref \<times> 's) option) \<Rightarrow>
   's next_batch_fun \<Rightarrow> clock \<Rightarrow> (string list \<Rightarrow> string list) \<Rightarrow> worker_manager \<Rightarrow>
   's system \<Rightarrow> 's system \<Rightarrow> bool"
where
  "sys_reach size_of submit pop nb ck so m = (sys_step size_of submit pop nb ck so m)\<^sup>*\<^sup>*"

text \<open>
  A stretch of the system in which no post is accepted, with the number of steps its batches take.
\<close>

inductive busy_run ::
  "('s \<Rightarrow> nat) \<Rightarrow> (submission \<Rightarrow> store \<Rightarrow> 's \<Rightarrow> store \<times> 's) \<Rightarrow> (seconds \<Rightarrow> 's \<Rightarrow> (ref \<times> 's) option) \<Rightarrow>
   's next_batch_fun \<Rightarrow> clock \<Rightarrow> (string list \<Rightarrow> string list) \<Rightarrow> worker_manager \<Rightarrow>
   nat \<Rightarrow> 's system \<Rightarrow> 's system \<Rightarrow> bool"
  for size_of submit pop nb ck so m
where
  Start: "busy_run size_of submit pop nb ck so m 0 y y"
| Work: "busy_run size_of submit pop nb ck so m n y z \<Longrightarrow> batch_step pop nb ck so m z z' \<Longrightarrow>
    busy_run size_of submit pop nb ck so m (Suc n) y z'"
| Rest: "busy_run size_of submit pop nb ck so m n y z \<Longrightarrow>
    sys_step size_of submit pop nb ck so m z z' \<Longrightarrow> sys_issued z' = sys_issued z \<Longrightarrow>
    busy_run size_of submit pop nb ck so m n y z'"

text \<open>What is left to do: a queued request is taken, its batch closed and ended.\<close>

definition work :: "('s \<Rightarrow> ref list) \<Rightarrow> 's system \<Rightarrow> nat" where
  "work contents y = 3 * length (contents (sys_sched y)) + (\<Sum>sl\<leftarrow>sys_slots y. slot_work sl)"

lemma slots_work_bound: "(\<Sum>sl\<leftarrow>sls. slot_work sl) \<le> 2 * length sls"
proof (induction sls)
  case (Cons sl sls)
  moreover have "slot_work sl \<le> 2" by (cases sl) simp_all
  ultimately show ?case by simp
qed simp

section \<open>The invariant\<close>

lemma in_flight_split:
  assumes "k < length sls"
  obtains A B where "in_flight sls = A @ slot_refs (sls ! k) @ B"
    and "\<And>sl. in_flight (sls[k := sl]) = A @ slot_refs sl @ B"
proof
  show "in_flight sls = in_flight (take k sls) @ slot_refs (sls ! k) @ in_flight (drop (Suc k) sls)"
    using id_take_nth_drop [OF assms] unfolding in_flight_def
    by (metis concat.simps(2) concat_append list.simps(9) map_append)
  show "in_flight (sls[k := sl]) = in_flight (take k sls) @ slot_refs sl @ in_flight (drop (Suc k) sls)" for sl
    by (simp add: in_flight_def upd_conv_take_nth_drop [OF assms])
qed

text \<open>Every issued request is owned once and open, or not owned and ended.\<close>

definition tracked :: "ref list \<Rightarrow> ref list \<Rightarrow> store \<Rightarrow> bool" where
  "tracked issued owned h \<longleftrightarrow>
     distinct owned \<and> set owned \<subseteq> set issued \<and> inj_on (rid h) (set issued) \<and>
     (\<forall>r \<in> set owned. chan_open (handle (h r))) \<and>
     (\<forall>r \<in> set issued - set owned. chan_ended (handle (h r)))"

lemma tracked_step:
  assumes "tracked I owned h" and "distinct owned'" and "set owned' \<subseteq> set owned"
    and "\<forall>q. rid h' q = rid h q"
    and "\<forall>r \<in> set owned'. chan_open (handle (h' r))"
    and "\<forall>r \<in> set owned - set owned'. chan_ended (handle (h' r))"
    and "\<forall>q. q \<notin> set owned \<longrightarrow> chan_ended (handle (h q)) \<longrightarrow> chan_ended (handle (h' q))"
  shows "tracked I owned' h'"
proof -
  have "chan_ended (handle (h' r))" if "r \<in> set I - set owned'" for r
    using that assms(1,6,7) by (cases "r \<in> set owned") (simp_all add: tracked_def)
  then show ?thesis using assms(1-5) by (auto simp: tracked_def inj_on_def)
qed

lemma tracked_mset:
  assumes "mset owned = mset owned'" and "tracked I owned h"
  shows "tracked I owned' h"
  using assms(2) mset_eq_setD [OF assms(1)] mset_eq_imp_distinct_iff [OF assms(1)] by (simp add: tracked_def)

text \<open>A change of handles that keeps open channels open and ended ones ended.\<close>

lemma tracked_frame:
  assumes "tracked I owned h" and "\<forall>q. rid h' q = rid h q"
    and "\<forall>q. chan_open (handle (h q)) \<longrightarrow> chan_open (handle (h' q))"
    and "\<forall>q. chan_ended (handle (h q)) \<longrightarrow> chan_ended (handle (h' q))"
  shows "tracked I owned h'"
  using assms by (auto simp: tracked_def inj_on_def)

lemma tracked_slot:
  assumes t: "tracked I (C @ A @ slot_refs sl @ B) h" and ok: "slot_ok h sl"
    and s: "slot_ready sl h \<Longrightarrow> slot_step sl sl' h h'"
  shows "tracked I (C @ A @ slot_refs sl' @ B) h' \<and> slot_ok h' sl' \<and> (\<forall>q. rid h' q = rid h q) \<and>
    slot_items sl' \<subseteq> slot_items sl"
proof -
  have ss: "slot_step sl sl' h h'" using t ok by (intro s) (auto simp: slot_ready_def tracked_def)
  then have "distinct (slot_refs sl')" using slot_refs_distinct by (auto simp: slot_step_def)
  with ss t have "tracked I (C @ A @ slot_refs sl' @ B) h'"
    by (intro tracked_step [OF t]) (auto simp: slot_step_def tracked_def)
  with ss show ?thesis by (simp add: slot_step_def)
qed

lemma abort_channel:
  "rid (st_store (abort_ref ck msg r st)) q = rid (st_store st) q"
  "chan_open (handle (st_store st q)) \<Longrightarrow> chan_open (handle (st_store (abort_ref ck msg r st) q))"
  "chan_ended (handle (st_store st q)) \<Longrightarrow> chan_ended (handle (st_store (abort_ref ck msg r st) q))"
  by (auto simp: abort_ref_store intro: open_cancel ended_cancel)

lemma read_frame_store:
  "rid (st_store (read_frame model r st)) q = rid (st_store st) q"
  "q \<noteq> r \<Longrightarrow> handle (st_store (read_frame model r st) q) = handle (st_store st q)"
  by (simp_all add: read_frame_def case_prod_beta handle_simps split: response_handle.split)

lemma read_frame_handle:
  "handle (st_store (read_frame model r st) r) =
     (case handle (st_store st r) of
        Completion h \<Rightarrow> Completion h
      | Streaming h \<Rightarrow>
          Streaming (case queue h of [] \<Rightarrow> h
           | e # es \<Rightarrow> (if is_terminal e then mark_stream_completed h else h)\<lparr>queue := es\<rparr>))"
proof (cases "handle (st_store st r)")
  case (Completion h)
  then show ?thesis by (simp add: read_frame_def)
next
  case (Streaming h)
  show ?thesis
  proof (cases "queue h")
    case Nil
    with Streaming show ?thesis by (simp add: read_frame_def handle_simps)
  next
    case (Cons e es)
    with Streaming show ?thesis by (cases e) (simp_all add: read_frame_def handle_simps Let_def)
  qed
qed

lemma read_channel:
  "rid (st_store (read_frame model r st)) q = rid (st_store st) q"
  "chan_open (handle (st_store st q)) \<Longrightarrow> chan_open (handle (st_store (read_frame model r st) q))"
  "chan_ended (handle (st_store st q)) \<Longrightarrow> chan_ended (handle (st_store (read_frame model r st) q))"
proof -
  have "chan_open c \<Longrightarrow> c = handle (st_store st r) \<Longrightarrow> chan_open (handle (st_store (read_frame model r st) r))"
    and "chan_ended c \<Longrightarrow> c = handle (st_store st r) \<Longrightarrow> chan_ended (handle (st_store (read_frame model r st) r))" for c
    unfolding read_frame_handle
    by (auto simp: mark_stream_completed_def split: response_handle.splits list.splits)
  then show "rid (st_store (read_frame model r st)) q = rid (st_store st) q"
    "chan_open (handle (st_store st q)) \<Longrightarrow> chan_open (handle (st_store (read_frame model r st) q))"
    "chan_ended (handle (st_store st q)) \<Longrightarrow> chan_ended (handle (st_store (read_frame model r st) q))"
    using read_frame_store [where model = model and r = r and st = st] by (cases "q = r"; simp)+
qed

section \<open>The count of accepted requests\<close>

text \<open>Only an accepted post changes \<open>request_count\<close>.\<close>

definition requests :: "runtime_state \<Rightarrow> nat" where
  "requests st = request_count (st_metrics st)"

lemma requests_simps [simp]:
  "requests (tick st) = requests st" "requests (log_emit e st) = requests st"
  "requests (on_store u st) = requests st" "requests (record_done r n t st) = requests st"
  "requests (fail_request ck r st) = requests st" "requests (stamp_first_token ck r st) = requests st"
  "requests (note_batch items st) = requests st" "requests (st\<lparr>st_store := h\<rparr>) = requests st"
  by (simp_all add: requests_def tick_def log_emit_def on_store_def record_done_def record_success_def
      fail_request_def record_failure_def Let_def metric_simps stamp_first_token_def note_batch_def
      record_batch_def)

lemma requests_item [simp]:
  "requests (fst (complete_item ck bs r toks st)) = requests st"
  "requests (fst (fail_item ck r m st)) = requests st"
  "requests (snd (accept_token ck i r t (x, st))) = requests st"
  "requests (abort_ref ck m r st) = requests st"
  "requests (read_frame model r st) = requests st"
  by (auto simp: complete_item_def fail_item_def accept_token_def abort_ref_def read_frame_def Let_def
      split: response_handle.split sum.split prod.split)

lemma requests_each_pending:
  assumes "\<And>i r st. requests (fst (act i r st)) = requests st"
  shows "requests (fst (each_pending act its ks st)) = requests st"
proof (induction ks arbitrary: st)
  case (Cons i ks)
  show ?case
  proof (cases "map_of its i")
    case (Some r)
    obtain st1 err where a: "act i r st = (st1, err)" by (metis prod.collapse)
    with assms [of i r st] have "requests st1 = requests st" by simp
    with Cons a Some show ?thesis by (cases err) simp_all
  qed (use Cons in simp)
qed simp

lemma requests_pending [simp]:
  "requests (fst (finish_pending ck bs x st)) = requests st"
  "requests (fst (fail_pending ck m x st)) = requests st"
  unfolding finish_pending_def fail_pending_def by (rule requests_each_pending, simp)+

lemma requests_event: "requests (snd (fst (exec_event ck bs e (x, st)))) = requests st"
proof -
  have c: "requests st1 = requests st" if "complete_item ck bs r toks st = (st1, err)" for r toks st1 err
    using requests_item(1) [of ck bs r toks st] that by simp
  show ?thesis by (cases e) (auto simp: exec_event_def Let_def dest: c split: option.split prod.split)
qed

lemma requests_worker [simp]:
  "requests (snd (worker_event ck e xb st)) = requests st"
  "requests (worker_finish ck exc xb st) = requests st"
proof -
  obtain x bs where xb: "xb = (x, bs)" by (metis prod.collapse)
  obtain x1 st1 err where e: "exec_event ck bs e (x, st) = ((x1, st1), err)" by (metis prod.collapse)
  with requests_event [of ck bs e x st] have "requests st1 = requests st" by simp
  with e xb show "requests (snd (worker_event ck e xb st)) = requests st"
    by (cases err) (simp_all add: worker_event_def)
  obtain st2 err2 where f: "finish_pending ck bs x st = (st2, err2)" by (metis prod.collapse)
  with requests_pending(1) [of ck bs x st] have "requests st2 = requests st" by simp
  with f xb show "requests (worker_finish ck exc xb st) = requests st"
    by (cases exc; cases err2) (simp_all add: worker_finish_def)
qed

lemma requests_take:
  "begin_batch ck so items st = (sl, st') \<Longrightarrow> requests st' = requests st"
  "close_batch ck so mk items st = (sl, st') \<Longrightarrow> requests st' = requests st"
  "take_batch nb ck so m e (st, s) = Some (sl, st', s') \<Longrightarrow> requests st' = requests st"
proof -
  have b: "requests st' = requests st" if "begin_batch ck so items st = (sl, st')" for items st sl st'
    using that by (auto simp: begin_batch_def Let_def split: if_splits)
  then show "begin_batch ck so items st = (sl, st') \<Longrightarrow> requests st' = requests st"
    "close_batch ck so mk items st = (sl, st') \<Longrightarrow> requests st' = requests st"
    "take_batch nb ck so m e (st, s) = Some (sl, st', s') \<Longrightarrow> requests st' = requests st"
    by (fastforce simp: close_batch_def take_batch_def dest!: b split: option.splits prod.splits)+
qed

section \<open>The invariant of the system\<close>

definition sys_inv :: "('s \<Rightarrow> ref list) \<Rightarrow> ('s \<Rightarrow> bool) \<Rightarrow> int \<Rightarrow> 's system \<Rightarrow> bool" where
  "sys_inv contents invar cap y \<longleftrightarrow>
     invar (sys_sched y) \<and> max_queue_size (sv_admission (sys_services y)) = cap \<and>
     (0 < cap \<longrightarrow> int (length (contents (sys_sched y))) \<le> cap) \<and>
     tracked (sys_issued y) (contents (sys_sched y) @ in_flight (sys_slots y)) (sys_store y) \<and>
     distinct (sys_issued y) \<and> requests (sys_state y) = length (sys_issued y) \<and>
     (\<forall>sl \<in> set (sys_slots y). slot_ok (sys_store y) sl \<and> slot_items sl \<subseteq> set (sys_issued y))"


lemma set_sched_simps [simp]:
  "sys_sched (set_sched s y) = s" "sys_state (set_sched s y) = sys_state y"
  "sys_slots (set_sched s y) = sys_slots y" "sys_issued (set_sched s y) = sys_issued y"
  "sv_admission (sys_services (set_sched s y)) = sv_admission (sys_services y)"
  by (simp_all add: set_sched_def)

lemma set_simps [simp]:
  "sv_state (sys_services (set_state st y)) = st" "sys_slots (set_state st y) = sys_slots y"
  "sys_issued (set_state st y) = sys_issued y" "sys_sched (set_state st y) = sys_sched y"
  "sv_admission (sys_services (set_state st y)) = sv_admission (sys_services y)"
  "sys_services (set_slot k sl y) = sys_services y" "sys_slots (set_slot k sl y) = (sys_slots y)[k := sl]"
  "sys_issued (set_slot k sl y) = sys_issued y"
  by (simp_all add: set_state_def set_slot_def)

lemma sys_inv_init:
  assumes "invar s" and "contents s = []"
  shows "sys_inv contents invar (max_queue_size adm) (sys_init adm s h workers)"
  using assms by (auto simp: sys_inv_def sys_init_def tracked_def in_flight_def requests_def init_collector_def)

lemma slots_update:
  assumes "\<forall>sl \<in> set sls. slot_ok h sl \<and> slot_items sl \<subseteq> I" and "\<forall>q. rid h' q = rid h q"
    and "slot_ok h' sl'" and "slot_items sl' \<subseteq> I"
  shows "\<forall>sl \<in> set (sls[k := sl']). slot_ok h' sl \<and> slot_items sl \<subseteq> I"
proof
  fix sl
  assume "sl \<in> set (sls[k := sl'])"
  then have "sl = sl' \<or> sl \<in> set sls" using set_update_subset_insert by fastforce
  then show "slot_ok h' sl \<and> slot_items sl \<subseteq> I" using assms slot_ok_rid [OF assms(2)] by blast
qed

text \<open>A worker's step.\<close>

lemma sys_inv_slot:
  assumes inv: "sys_inv contents invar cap y" and k: "k < length (sys_slots y)"
    and s: "slot_ready (sys_slots y ! k) (sys_store y) \<Longrightarrow>
      slot_step (sys_slots y ! k) sl (sys_store y) (st_store st')"
    and rq: "requests st' = requests (sys_state y)"
  shows "sys_inv contents invar cap (set_slot k sl (set_state st' y))"
proof -
  obtain A B where A: "in_flight (sys_slots y) = A @ slot_refs (sys_slots y ! k) @ B"
    "\<And>sl. in_flight ((sys_slots y)[k := sl]) = A @ slot_refs sl @ B"
    using in_flight_split [OF k] by blast
  have mem: "sys_slots y ! k \<in> set (sys_slots y)" using k by simp
  have "tracked (sys_issued y) (contents (sys_sched y) @ A @ slot_refs (sys_slots y ! k) @ B) (sys_store y)"
    using inv by (simp add: sys_inv_def A(1))
  note t = tracked_slot [OF this _ s]
  have slots: "\<forall>sl \<in> set (sys_slots y). slot_ok (sys_store y) sl \<and> slot_items sl \<subseteq> set (sys_issued y)"
    using inv by (simp add: sys_inv_def)
  with mem have t': "tracked (sys_issued y) (contents (sys_sched y) @ A @ slot_refs sl @ B) (st_store st') \<and>
      slot_ok (st_store st') sl \<and> (\<forall>q. rid (st_store st') q = rid (sys_store y) q) \<and>
      slot_items sl \<subseteq> set (sys_issued y)"
    using t by blast
  have "\<forall>sl \<in> set ((sys_slots y)[k := sl]). slot_ok (st_store st') sl \<and> slot_items sl \<subseteq> set (sys_issued y)"
    by (rule slots_update [OF slots]) (use t' in simp_all)
  with t' inv rq show ?thesis by (simp add: sys_inv_def A)
qed

text \<open>A change of handles by a route or a stream.\<close>

lemma sys_inv_frame:
  assumes "sys_inv contents invar cap y"
    and "\<And>q. rid (st_store st') q = rid (sys_store y) q"
    and "\<And>q. chan_open (handle (sys_store y q)) \<Longrightarrow> chan_open (handle (st_store st' q))"
    and "\<And>q. chan_ended (handle (sys_store y q)) \<Longrightarrow> chan_ended (handle (st_store st' q))"
    and "requests st' = requests (sys_state y)"
  shows "sys_inv contents invar cap (set_state st' y)"
  using assms slot_ok_rid [of "st_store st'" "sys_store y"]
    tracked_frame [of "sys_issued y" "contents (sys_sched y) @ in_flight (sys_slots y)" "sys_store y" "st_store st'"]
  by (auto simp: sys_inv_def)

fun chan_stays :: "response_handle \<Rightarrow> response_handle \<Rightarrow> bool" where
  "chan_stays (Completion h) (Completion h') = (future_done (fut h) \<longrightarrow> fut h' = fut h)"
| "chan_stays (Streaming h) (Streaming h') = (\<exists>es. queue h = es @ queue h')"
| "chan_stays _ _ = False"

lemma stays_refl [simp]: "chan_stays c c"
  by (cases c) simp_all

lemma stays_trans: "chan_stays a b \<Longrightarrow> chan_stays b c \<Longrightarrow> chan_stays a c"
  by (cases a; cases b; cases c) (auto intro: append.assoc [symmetric])

lemma stays_cancel: "chan_stays c (snd (cancel_handle c))"
  by (cases c) (auto simp: case_prod_beta cancel_completion_future cancel_streaming_frame)

lemma stays_abort: "chan_stays (handle (st_store st q)) (handle (st_store (abort_ref ck msg r st) q))"
  by (simp add: abort_ref_store stays_cancel)

lemma stays_read: "chan_stays (handle (st_store st q)) (handle (st_store (read_frame model r st) q))"
proof (cases "q = r")
  case True
  then show ?thesis
    by (auto simp: read_frame_handle mark_stream_completed_def split: response_handle.splits list.splits)
qed (simp add: read_frame_store)

lemma slot_inv_ready:
  assumes "sys_inv contents invar cap y" and k: "k < length (sys_slots y)"
  shows "slot_ready (sys_slots y ! k) (sys_store y)"
proof -
  obtain A B where "in_flight (sys_slots y) = A @ slot_refs (sys_slots y ! k) @ B"
    using in_flight_split [OF k] by blast
  moreover have "sys_slots y ! k \<in> set (sys_slots y)" using k by simp
  ultimately show ?thesis using assms(1) by (auto simp: sys_inv_def slot_ready_def tracked_def)
qed

lemma slot_step_final:
  assumes k: "k < length (sys_slots y)" and s: "slot_step (sys_slots y ! k) sl (sys_store y) h'"
    and q: "q \<notin> set (xs @ in_flight (sys_slots y))"
  shows "q \<notin> set (xs @ in_flight ((sys_slots y)[k := sl])) \<and> chan_stays (handle (sys_store y q)) (handle (h' q))"
proof -
  obtain A B where "in_flight (sys_slots y) = A @ slot_refs (sys_slots y ! k) @ B"
    "in_flight ((sys_slots y)[k := sl]) = A @ slot_refs sl @ B"
    using in_flight_split [OF k] by blast
  with s q show ?thesis by (auto simp: slot_step_def)
qed

lemma receive_request_admission:
  assumes "receive_request size_of submit pt uuid r body sv = (d, sv')"
  shows "d = fst (admit (int (size_of (sv_scheduler sv))) (pt_admit pt) (sv_admission sv))"
    and "sv_admission sv' = snd (admit (int (size_of (sv_scheduler sv))) (pt_admit pt) (sv_admission sv))"
  using assms by (auto simp: receive_request_def Let_def split: prod.splits if_splits)

context stepwise_scheduler
begin

text \<open>Requests move from the queue to a worker.\<close>

lemma sys_inv_move:
  assumes inv: "sys_inv contents invar cap y" and k: "k < length (sys_slots y)"
    and sl: "slot_refs (sys_slots y ! k) = items" and i: "invar s'"
    and ms: "mset rs + mset (contents s') = mset (contents (sys_sched y))"
  shows "sys_inv contents invar cap (set_slot k (Collecting (items @ rs)) (set_sched s' y))"
proof -
  obtain A B where A: "in_flight (sys_slots y) = A @ items @ B"
    "\<And>sl. in_flight ((sys_slots y)[k := sl]) = A @ slot_refs sl @ B"
    using in_flight_split [OF k] sl by metis
  have "mset (contents (sys_sched y) @ A @ items @ B) = mset (contents s' @ A @ (items @ rs) @ B)"
    using ms by (simp add: ac_simps flip: ms)
  moreover have "tracked (sys_issued y) (contents (sys_sched y) @ A @ items @ B) (sys_store y)"
    using inv by (simp add: sys_inv_def A(1))
  ultimately have tr: "tracked (sys_issued y) (contents s' @ A @ (items @ rs) @ B) (sys_store y)"
    by (rule tracked_mset)
  then have "distinct (items @ rs)" "set (items @ rs) \<subseteq> set (sys_issued y)" by (auto simp: tracked_def)
  then have "\<forall>sl \<in> set ((sys_slots y)[k := Collecting (items @ rs)]).
      slot_ok (sys_store y) sl \<and> slot_items sl \<subseteq> set (sys_issued y)"
    using inv by (intro slots_update [of _ "sys_store y"]) (auto simp: sys_inv_def)
  moreover have "length (contents s') \<le> length (contents (sys_sched y))"
    using arg_cong [OF ms, of size] by simp
  then have "0 < cap \<longrightarrow> int (length (contents s')) \<le> cap" using inv by (auto simp: sys_inv_def)
  ultimately show ?thesis using inv i tr by (simp add: sys_inv_def A(2))
qed

lemma sys_inv_pop:
  assumes "sys_inv contents invar cap y" and "k < length (sys_slots y)"
    and "slot_refs (sys_slots y ! k) = items" and p: "pop t (sys_sched y) = Some (r, s')"
  shows "sys_inv contents invar cap (set_slot k (Collecting (items @ [r])) (set_sched s' y))"
  by (rule sys_inv_move [OF assms(1-3)])
    (use pop_takes [OF p] pop_invar [OF p] assms(1) in \<open>simp_all add: sys_inv_def\<close>)

text \<open>A batch that was taken at once: its requests moved, and the batch was closed.\<close>

lemma take_as_close:
  assumes quiet: "env_subs e = []" and t: "take_batch next_batch ck so m e (st, s) = Some (sl, st', s')"
  obtains items where "mset items + mset (contents s') = mset (contents s)" and "invar s \<Longrightarrow> invar s'"
    and "items \<noteq> []" and "close_batch ck so (mark_clk e) items st = (sl, st')"
proof -
  obtain ops h1 items n where run: "run_sched pop submit ops (st_store st) s = Some (h1, items, s')"
    and ne: "items \<noteq> []" and subs: "op_subs ops = take n (first_wait e @ concat (map fst (waits e)))"
    and c: "close_batch ck so (mark_clk e) items (st\<lparr>st_store := h1\<rparr>) = (sl, st')"
    using take_batch_steps [OF t] by blast
  have none: "op_subs ops = []" using subs quiet by (simp add: env_subs_def)
  have "h1 = st_store st" by (rule run_sched_pops [OF run none])
  then show ?thesis
    using that [of items] run_conserves [OF run] run_invar [OF run] none ne c by simp
qed

lemma close_slot_step:
  assumes so: "iteration_order so" and inv: "sys_inv contents invar cap y"
    and k: "k < length (sys_slots y)" "sys_slots y ! k = Collecting items"
    and c: "close_batch ck so mk items (sys_state y) = (sl, st')"
  shows "slot_step (sys_slots y ! k) sl (sys_store y) (st_store st')"
proof -
  have ready: "slot_ready (Collecting items) (sys_store y)" using slot_inv_ready [OF inv k(1)] k(2) by simp
  have "Collecting items \<in> set (sys_slots y)" using k by (metis nth_mem)
  then have "set items \<subseteq> set (sys_issued y)" using inv by (simp add: sys_inv_def) (metis slot_items.simps(2))
  moreover have "inj_on (rid (sys_store y)) (set (sys_issued y))" using inv by (simp add: sys_inv_def tracked_def)
  ultimately have "inj_on (rid (sys_store y)) (set items)" by (rule inj_on_subset [rotated])
  from close_batch_slot_step [OF ready this so c] k(2) show ?thesis by simp
qed

lemma sys_inv_close:
  assumes so: "iteration_order so" and inv: "sys_inv contents invar cap y"
    and k: "k < length (sys_slots y)" "sys_slots y ! k = Collecting items"
    and c: "close_batch ck so mk items (sys_state y) = (sl, st')"
  shows "sys_inv contents invar cap (set_slot k sl (set_state st' y))"
  by (rule sys_inv_slot [OF inv k(1)])
    (use close_slot_step [OF so inv k c] requests_take(2) [OF c] in simp_all)

lemma take_split:
  assumes k: "k < length (sys_slots y)" "sys_slots y ! k = Idle" and inv: "sys_inv contents invar cap y"
    and quiet: "env_subs e = []"
    and t: "take_batch next_batch ck so m e (sys_state y, sys_sched y) = Some (sl, st', s')"
  obtains items z where "z = set_slot k (Collecting items) (set_sched s' y)"
    and "mset items + mset (contents s') = mset (contents (sys_sched y))"
    and "sys_inv contents invar cap z" and "k < length (sys_slots z)" and "sys_slots z ! k = Collecting items"
    and "close_batch ck so (mark_clk e) items (sys_state z) = (sl, st')"
    and "set_slot k sl (set_sched s' (set_state st' y)) = set_slot k sl (set_state st' z)"
proof -
  obtain items where ms: "mset items + mset (contents s') = mset (contents (sys_sched y))"
    and i: "invar (sys_sched y) \<Longrightarrow> invar s'"
    and c: "close_batch ck so (mark_clk e) items (sys_state y) = (sl, st')"
    using take_as_close [OF quiet t] by blast
  have "invar s'" using i inv by (simp add: sys_inv_def)
  then have "sys_inv contents invar cap (set_slot k (Collecting ([] @ items)) (set_sched s' y))"
    using k by (intro sys_inv_move [OF inv k(1) _ _ ms]) simp_all
  with ms c k show ?thesis
    by (intro that [OF refl, of items]) (simp_all add: set_slot_def set_sched_def set_state_def)
qed

lemma sys_inv_post:
  assumes post: "receive_request qsize submit pt uuid r body (sys_services y) = (d, sv')"
    and fresh: "r \<notin> set (sys_issued y)" "new_request_id uuid \<notin> rid (sys_store y) ` set (sys_issued y)"
    and inv: "sys_inv contents invar cap y"
  shows "sys_inv contents invar cap
    (y\<lparr>sys_services := sv', sys_issued := (if accepted d then r # sys_issued y else sys_issued y)\<rparr>)"
proof (cases "accepted d")
  case False
  moreover have "requests (sv_state sv') = requests (sys_state y)"
    using receive_request_rejected [OF post False] by (simp add: requests_def record_rejection_def Let_def)
  ultimately show ?thesis
    using receive_request_rejected [OF post] receive_request_admission [OF post] inv
    by (simp add: sys_inv_def admit_config)
next
  case True
  let ?own = "contents (sys_sched y) @ in_flight (sys_slots y)"
  let ?h = "(sys_store y)(r := \<lparr>request = from_chat_request uuid (pt_created pt) body, handle = new_channel body\<rparr>)"
  let ?x = "\<lparr>sub_ref = r, sub_now = pt_enqueued pt, sub_time = pt_queued pt\<rparr>"
  have sub: "submit ?x ?h (sys_sched y) = (st_store (sv_state sv'), sv_scheduler sv')"
    using receive_request_accepted [OF post True] by simp
  have id: "rid (st_store (sv_state sv')) q = (if q = r then new_request_id uuid else rid (sys_store y) q)"
    "handle (st_store (sv_state sv') q) = (if q = r then new_channel body else handle (sys_store y q))" for q
    using law_submit_store [of ?h ?x "sys_sched y"] sub by (simp_all add: same_identity_def from_chat_request_def)
  have ms: "mset (contents (sv_scheduler sv')) = add_mset r (mset (contents (sys_sched y)))"
    using law_submit [of ?x ?h "sys_sched y"] sub by simp
  have "invar (sv_scheduler sv')"
    using law_submit_invar [of "sys_sched y" ?x ?h] sub inv by (simp add: sys_inv_def)
  moreover have "0 < cap \<Longrightarrow> int (length (contents (sv_scheduler sv'))) \<le> cap"
    using receive_request_admission [OF post] True inv arg_cong [OF ms, of size]
    by (auto simp: sys_inv_def admit_def law_size split: if_splits)
  moreover have "tracked (r # sys_issued y) (contents (sv_scheduler sv') @ in_flight (sys_slots y)) (st_store (sv_state sv'))"
  proof -
    have tr: "tracked (sys_issued y) ?own (sys_store y)" using inv by (simp add: sys_inv_def)
    then have "r \<notin> set ?own" using fresh(1) by (auto simp: tracked_def)
    with tr have "distinct (r # ?own)" by (simp add: tracked_def)
    moreover have m: "mset (contents (sv_scheduler sv') @ in_flight (sys_slots y)) = mset (r # ?own)"
      by (simp add: ms)
    ultimately have d: "distinct (contents (sv_scheduler sv') @ in_flight (sys_slots y))"
      by (metis mset_eq_imp_distinct_iff)
    have s: "set (contents (sv_scheduler sv') @ in_flight (sys_slots y)) = insert r (set ?own)"
      using mset_eq_setD [OF m] by simp
    have "inj_on (rid (st_store (sv_state sv'))) (set (r # sys_issued y))"
    proof -
      have e: "\<forall>q \<in> set (sys_issued y). rid (st_store (sv_state sv')) q = rid (sys_store y) q"
        using fresh(1) by (auto simp: id)
      then have "inj_on (rid (st_store (sv_state sv'))) (set (sys_issued y))"
        using tr by (simp add: tracked_def inj_on_def)
      moreover have "rid (st_store (sv_state sv')) ` set (sys_issued y) = rid (sys_store y) ` set (sys_issued y)"
        using e by (intro image_cong) simp_all
      ultimately show ?thesis using fresh by (simp add: id)
    qed
    moreover have "\<forall>q \<in> insert r (set ?own). chan_open (handle (st_store (sv_state sv') q))"
      using tr open_new by (simp add: tracked_def id)
    moreover have "\<forall>q \<in> set (r # sys_issued y) - insert r (set ?own). chan_ended (handle (st_store (sv_state sv') q))"
      using tr by (simp add: tracked_def id)
    moreover have "insert r (set ?own) \<subseteq> set (r # sys_issued y)" using tr by (auto simp: tracked_def)
    ultimately show ?thesis using d unfolding tracked_def s by blast
  qed
  moreover have "slot_ok (st_store (sv_state sv')) sl \<and> slot_items sl \<subseteq> set (r # sys_issued y)"
    if "sl \<in> set (sys_slots y)" for sl
  proof -
    have "slot_items sl \<subseteq> set (sys_issued y)" "slot_ok (sys_store y) sl"
      using inv that by (simp_all add: sys_inv_def)
    moreover from this have "\<forall>q \<in> slot_items sl. rid (st_store (sv_state sv')) q = rid (sys_store y) q"
      using fresh(1) id by auto
    ultimately show ?thesis using slot_ok_frame by auto
  qed
  moreover have "requests (sv_state sv') = requests (sys_state y) + 1"
    using receive_request_accepted [OF post True] by (simp add: requests_def record_request_def)
  ultimately show ?thesis
    using True fresh(1) receive_request_admission [OF post] inv by (simp add: sys_inv_def admit_config)
qed

lemma move_held:
  assumes k: "k < length (sys_slots y)" and sl: "slot_refs (sys_slots y ! k) = items"
    and ms: "mset rs + mset (contents s') = mset (contents (sys_sched y))"
  shows "set (contents s' @ in_flight ((sys_slots y)[k := Collecting (items @ rs)])) =
    set (contents (sys_sched y) @ in_flight (sys_slots y))"
proof -
  obtain A B where "in_flight (sys_slots y) = A @ items @ B"
    "in_flight ((sys_slots y)[k := Collecting (items @ rs)]) = A @ (items @ rs) @ B"
    using in_flight_split [OF k] sl by (metis slot_refs.simps(2))
  moreover have "set (contents (sys_sched y)) = set rs \<union> set (contents s')"
    using arg_cong [OF ms, of set_mset] by simp
  ultimately show ?thesis by auto
qed

text \<open>What ended stays ended: nothing reaches the channel of a request that is no longer held.\<close>

lemma post_held:
  assumes post: "receive_request qsize submit pt uuid r body (sys_services y) = (d, sv')"
    and "q \<noteq> r"
  shows "(q \<in> set (contents (sv_scheduler sv')) \<longleftrightarrow> q \<in> set (contents (sys_sched y))) \<and>
    handle (st_store (sv_state sv') q) = handle (sys_store y q)"
proof (cases "accepted d")
  case False
  with receive_request_rejected [OF post] show ?thesis by simp
next
  case True
  let ?h = "(sys_store y)(r := \<lparr>request = from_chat_request uuid (pt_created pt) body, handle = new_channel body\<rparr>)"
  let ?x = "\<lparr>sub_ref = r, sub_now = pt_enqueued pt, sub_time = pt_queued pt\<rparr>"
  have sub: "submit ?x ?h (sys_sched y) = (st_store (sv_state sv'), sv_scheduler sv')"
    using receive_request_accepted [OF post True] by simp
  have "mset (contents (sv_scheduler sv')) = mset (r # contents (sys_sched y))"
    using law_submit [of ?x ?h "sys_sched y"] sub by simp
  from mset_eq_setD [OF this] assms(2) show ?thesis
    using law_submit_store [of ?h ?x "sys_sched y"] sub by (simp add: same_identity_def)
qed

lemma batch_final:
  assumes step: "batch_step pop next_batch ck so m y y'" and so: "iteration_order so"
    and inv: "sys_inv contents invar cap y"
    and r: "q \<in> set (sys_issued y)" "q \<notin> set (contents (sys_sched y) @ in_flight (sys_slots y))"
  shows "q \<in> set (sys_issued y') \<and> q \<notin> set (contents (sys_sched y') @ in_flight (sys_slots y')) \<and>
    chan_stays (handle (sys_store y q)) (handle (sys_store y' q))"
  using step
proof (cases rule: batch_step.cases)
  case (Take k e sl st' s')
  obtain items z where z: "z = set_slot k (Collecting items) (set_sched s' y)"
    and ms: "mset items + mset (contents s') = mset (contents (sys_sched y))"
    and zi: "sys_inv contents invar cap z" and zk: "k < length (sys_slots z)" "sys_slots z ! k = Collecting items"
    and c: "close_batch ck so (mark_clk e) items (sys_state z) = (sl, st')"
    and y': "set_slot k sl (set_sched s' (set_state st' y)) = set_slot k sl (set_state st' z)"
    by (rule take_split [OF Take(2,3) inv Take(4,5)])
  have "set (contents (sys_sched z) @ in_flight (sys_slots z)) = set (contents (sys_sched y) @ in_flight (sys_slots y))"
    unfolding z using move_held [OF Take(2) _ ms, of "[]"] Take(3) by simp
  with r(2) have "q \<notin> set (contents (sys_sched z) @ in_flight (sys_slots z))" by simp
  from slot_step_final [OF zk(1) close_slot_step [OF so zi zk c] this] show ?thesis
    unfolding Take(1) y' using r(1) by (simp add: z)
next
  case (Open k t r' s')
  have "set (contents s' @ in_flight ((sys_slots y)[k := Collecting ([] @ [r'])])) =
      set (contents (sys_sched y) @ in_flight (sys_slots y))"
    by (rule move_held [OF Open(2)]) (simp_all add: Open(3) pop_takes [OF Open(5)])
  with r Open(1) show ?thesis by simp
next
  case (Collect k items t r' s')
  have "set (contents s' @ in_flight ((sys_slots y)[k := Collecting (items @ [r'])])) =
      set (contents (sys_sched y) @ in_flight (sys_slots y))"
    by (rule move_held [OF Collect(2)]) (simp_all add: Collect(3) pop_takes [OF Collect(5)])
  with r Collect(1) show ?thesis by simp
next
  case (Close k items mk sl st')
  from slot_step_final [OF Close(2) close_slot_step [OF so inv Close(2-4)] r(2)] Close(1) r(1) show ?thesis by simp
next
  case (Finish k xb exc st')
  have "slot_step (sys_slots y ! k) Idle (sys_store y) (st_store st')"
    using slot_inv_ready [OF inv Finish(2)] worker_finish_slot_step [of xb] Finish(3,4) by auto
  with slot_step_final [OF Finish(2) _ r(2)] Finish(1) r(1) show ?thesis by simp
qed

lemma step_final:
  assumes step: "sys_step qsize submit pop next_batch ck so m y y'" and so: "iteration_order so"
    and inv: "sys_inv contents invar cap y"
    and r: "q \<in> set (sys_issued y)" "q \<notin> set (contents (sys_sched y) @ in_flight (sys_slots y))"
  shows "q \<in> set (sys_issued y') \<and> q \<notin> set (contents (sys_sched y') @ in_flight (sys_slots y')) \<and>
    chan_stays (handle (sys_store y q)) (handle (sys_store y' q))"
  using step
proof (cases rule: sys_step.cases)
  case (Post pt uuid r body d sv')
  with r(1) have "q \<noteq> r" by auto
  with Post(1) r post_held [OF Post(2)] show ?thesis by simp
next
  case Batch
  with batch_final so inv r show ?thesis by blast
next
  case (Event k xb e sl st')
  obtain x bs where xb: "xb = (x, bs)" by (metis prod.collapse)
  have "slot_step (sys_slots y ! k) sl (sys_store y) (st_store st')"
    using slot_inv_ready [OF inv Event(2)] worker_event_slot_step Event(3,4) xb by auto
  with slot_step_final [OF Event(2) _ r(2)] Event(1) r(1) show ?thesis by simp
next
  case (Leave r msg st')
  with r stays_abort show ?thesis by auto
next
  case (Read r model st')
  with r stays_read show ?thesis by auto
qed

lemma sys_inv_batch:
  assumes "batch_step pop next_batch ck so m y y'" and so: "iteration_order so"
    and inv: "sys_inv contents invar cap y"
  shows "sys_inv contents invar cap y'"
  using assms(1)
proof (cases rule: batch_step.cases)
  case (Take k e sl st' s')
  obtain items z where "sys_inv contents invar cap z" "k < length (sys_slots z)" "sys_slots z ! k = Collecting items"
    "close_batch ck so (mark_clk e) items (sys_state z) = (sl, st')"
    and y': "set_slot k sl (set_sched s' (set_state st' y)) = set_slot k sl (set_state st' z)"
    by (rule take_split [OF Take(2,3) inv Take(4,5)])
  from sys_inv_close [OF so this(1-4)] show ?thesis unfolding Take(1) y' .
next
  case (Open k t r s')
  with sys_inv_pop [OF inv Open(2) _ Open(5), of "[]"] show ?thesis by simp
next
  case (Collect k items t r s')
  with sys_inv_pop [OF inv Collect(2) _ Collect(5), of items] show ?thesis by simp
next
  case (Close k items mk sl st')
  with sys_inv_close [OF so inv] show ?thesis by blast
next
  case (Finish k xb exc st')
  have "sys_inv contents invar cap (set_slot k Idle (set_state st' y))"
    by (rule sys_inv_slot [OF inv Finish(2)]) (use Finish worker_finish_slot_step [of xb] in auto)
  with Finish(1) show ?thesis by simp
qed

lemma sys_inv_step:
  assumes "sys_step qsize submit pop next_batch ck so m y y'" and "iteration_order so"
    and inv: "sys_inv contents invar cap y"
  shows "sys_inv contents invar cap y'"
  using assms(1)
proof (cases rule: sys_step.cases)
  case (Post pt uuid r body d sv')
  with sys_inv_post inv show ?thesis by blast
next
  case Batch
  with sys_inv_batch assms(2) inv show ?thesis by blast
next
  case (Event k xb e sl st')
  obtain x bs where xb: "xb = (x, bs)" by (metis prod.collapse)
  have "requests st' = requests (sys_state y)" using requests_worker(1) [of ck e xb "sys_state y"] Event(4) by simp
  with xb Event worker_event_slot_step show ?thesis by (auto intro: sys_inv_slot [OF inv])
next
  case (Leave r msg st')
  then show ?thesis using abort_channel by (auto intro!: sys_inv_frame [OF inv])
next
  case (Read r model st')
  then show ?thesis using read_channel by (auto intro!: sys_inv_frame [OF inv])
qed

lemma sys_inv_reach:
  assumes "sys_reach qsize submit pop next_batch ck so m y y'" and "iteration_order so"
    and "sys_inv contents invar cap y"
  shows "sys_inv contents invar cap y'"
  using assms(1) unfolding sys_reach_def
  by (induction rule: rtranclp_induct) (use assms sys_inv_step in blast)+

lemma reach_final:
  assumes "sys_reach qsize submit pop next_batch ck so m y y'" and so: "iteration_order so"
    and "sys_inv contents invar cap y"
    and "q \<in> set (sys_issued y)" "q \<notin> set (contents (sys_sched y) @ in_flight (sys_slots y))"
  shows "q \<in> set (sys_issued y') \<and> q \<notin> set (contents (sys_sched y') @ in_flight (sys_slots y')) \<and>
    chan_stays (handle (sys_store y q)) (handle (sys_store y' q))"
  using assms(1) unfolding sys_reach_def
proof (induction rule: rtranclp_induct)
  case base
  with assms(4,5) show ?case by simp
next
  case (step y1 z)
  have "sys_inv contents invar cap y1"
    using sys_inv_reach [OF _ so assms(3)] step.hyps(1) by (simp add: sys_reach_def)
  from step_final [OF step.hyps(2) so this] step.IH stays_trans show ?case by blast
qed

lemma batch_step_frame:
  "batch_step pop next_batch ck so m y y' \<Longrightarrow>
   sys_issued y' = sys_issued y \<and> length (sys_slots y') = length (sys_slots y)"
  by (erule batch_step.cases) simp_all

lemma step_slots:
  "sys_step qsize submit pop next_batch ck so m y y' \<Longrightarrow> length (sys_slots y') = length (sys_slots y)"
  by (erule sys_step.cases) (simp_all add: batch_step_frame)

lemma reach_slots:
  "sys_reach qsize submit pop next_batch ck so m y y' \<Longrightarrow> length (sys_slots y') = length (sys_slots y)"
  unfolding sys_reach_def by (induction rule: rtranclp_induct) (simp_all add: step_slots)

lemma reach_trans: "sys_reach qsize submit pop next_batch ck so m x y \<Longrightarrow>
    sys_reach qsize submit pop next_batch ck so m y z \<Longrightarrow> sys_reach qsize submit pop next_batch ck so m x z"
  unfolding sys_reach_def by (rule rtranclp_trans)

lemma reach_step: "sys_step qsize submit pop next_batch ck so m x y \<Longrightarrow> sys_reach qsize submit pop next_batch ck so m x y"
  unfolding sys_reach_def by (rule r_into_rtranclp)

text \<open>Every step of a batch is progress, and no other step but an accepted post undoes it.\<close>

lemma work_slot:
  assumes "k < length (sys_slots y)"
  shows "(\<Sum>sl\<leftarrow>(sys_slots y)[k := sl]. slot_work sl) + slot_work (sys_slots y ! k) =
    (\<Sum>sl\<leftarrow>sys_slots y. slot_work sl) + slot_work sl"
proof -
  have "slot_work (sys_slots y ! k) \<le> (\<Sum>sl\<leftarrow>sys_slots y. slot_work sl)"
    using assms by (intro member_le_sum_list) auto
  then show ?thesis using assms by (simp add: map_update sum_list_update)
qed

lemma batch_step_work:
  assumes "batch_step pop next_batch ck so m y y'"
  shows "work contents y' < work contents y"
  using assms
proof (cases rule: batch_step.cases)
  case (Take k e sl st' s')
  obtain items where ms: "mset items + mset (contents s') = mset (contents (sys_sched y))" and "items \<noteq> []"
    and c: "close_batch ck so (mark_clk e) items (sys_state y) = (sl, st')"
    using take_as_close [OF Take(4,5)] by blast
  then have "1 \<le> length items" by (cases items) simp_all
  moreover have "length items + length (contents s') = length (contents (sys_sched y))"
    using arg_cong [OF ms, of size] by simp
  ultimately have "3 * length (contents s') + slot_work sl < 3 * length (contents (sys_sched y))"
    using slot_work_simps(2) [OF c] by linarith
  then show ?thesis using work_slot [OF Take(2), of sl] Take(1,3) by (simp add: work_def)
next
  case (Open k t r s')
  have "length (contents (sys_sched y)) = Suc (length (contents s'))"
    using arg_cong [OF pop_takes [OF Open(5)], of size] by simp
  then show ?thesis using work_slot [OF Open(2), of "Collecting [r]"] Open(1,3) by (simp add: work_def)
next
  case (Collect k items t r s')
  have "length (contents (sys_sched y)) = Suc (length (contents s'))"
    using arg_cong [OF pop_takes [OF Collect(5)], of size] by simp
  then show ?thesis
    using work_slot [OF Collect(2), of "Collecting (items @ [r])"] Collect(1,3) by (simp add: work_def)
next
  case (Close k items mk sl st')
  then show ?thesis
    using work_slot [OF Close(2), of sl] slot_work_simps(2) [OF Close(4)] by (simp add: work_def)
next
  case (Finish k xb exc st')
  then show ?thesis using work_slot [OF Finish(2), of Idle] by (simp add: work_def)
qed

lemma sys_step_work:
  assumes "sys_step qsize submit pop next_batch ck so m y y'" and "sys_issued y' = sys_issued y"
  shows "work contents y' \<le> work contents y"
  using assms(1)
proof (cases rule: sys_step.cases)
  case (Post pt uuid r body d sv')
  with assms(2) have "\<not> accepted d" by (auto split: if_splits)
  with receive_request_rejected [OF Post(2)] Post(1) show ?thesis by (simp add: work_def)
next
  case Batch
  then show ?thesis using batch_step_work by (simp add: less_imp_le)
next
  case (Event k xb e sl st')
  then show ?thesis
    using work_slot [OF Event(2), of sl] slot_work_simps(3) [OF Event(4)] by (simp add: work_def)
qed (simp_all add: work_def)

lemma busy_run_work:
  "busy_run qsize submit pop next_batch ck so m n y y' \<Longrightarrow> n + work contents y' \<le> work contents y"
proof (induction rule: busy_run.induct)
  case (Work n y z z')
  with batch_step_work [OF Work(2)] show ?case by simp
next
  case (Rest n y z z')
  with sys_step_work [OF Rest(2,3)] show ?case by simp
qed simp

lemma busy_run_reach:
  "busy_run qsize submit pop next_batch ck so m n y y' \<Longrightarrow>
   sys_reach qsize submit pop next_batch ck so m y y' \<and> sys_issued y' = sys_issued y"
proof (induction rule: busy_run.induct)
  case (Start y)
  show ?case by (simp add: sys_reach_def)
next
  case (Work n y z z')
  then show ?case using batch_step_frame [OF Work(2)] by (auto intro: reach_trans reach_step Batch)
next
  case (Rest n y z z')
  then show ?case by (auto intro: reach_trans reach_step)
qed

text \<open>Workers that can take no step have nothing to do.\<close>

lemma resting_idle:
  assumes rest: "\<nexists>z. batch_step pop next_batch ck so m y z" and "sys_slots y \<noteq> []"
  shows "contents (sys_sched y) = [] \<and> (\<forall>sl \<in> set (sys_slots y). sl = Idle)"
proof -
  have idle: "sys_slots y ! k = Idle" if "k < length (sys_slots y)" for k
  proof (cases "sys_slots y ! k")
    case (Collecting items)
    obtain sl st where "close_batch ck so (\<lambda>_. 0) items (sys_state y) = (sl, st)" by (metis prod.collapse)
    with Close [OF that Collecting] rest show ?thesis by blast
  next
    case (Running xb)
    with Finish [OF that Running refl] rest show ?thesis by blast
  qed simp
  have k: "0 < length (sys_slots y)" using assms(2) by simp
  have "contents (sys_sched y) = []"
  proof (rule ccontr)
    assume ne: "contents (sys_sched y) \<noteq> []"
    let ?e = "\<lparr>first_wait = [], clk = (\<lambda>_. 0), waits = [([], True)], mark_clk = (\<lambda>_. 0)\<rparr>"
    have q: "env_subs ?e = []" by (simp add: env_subs_def)
    obtain h1 items s1 where "next_batch (wm_max_batch_size m) (wm_batch_timeout_ms m) ?e (sys_store y) (sys_sched y) = Some (h1, items, s1)"
      using law_batch_returns [of "sys_sched y" ?e "wm_batch_timeout_ms m" "wm_max_batch_size m" "sys_store y"] ne
      by auto
    then obtain sl st' where "take_batch next_batch ck so m ?e (sys_state y, sys_sched y) = Some (sl, st', s1)"
      by (simp add: take_batch_def case_prod_beta)
    from Take [OF k idle [OF k] q this] rest show False by blast
  qed
  with idle show ?thesis by (auto simp: all_set_conv_all_nth)
qed

lemma can_rest:
  "\<exists>n y'. busy_run qsize submit pop next_batch ck so m n y y' \<and> (\<nexists>z. batch_step pop next_batch ck so m y' z)"
proof -
  have "\<exists>n y'. busy_run qsize submit pop next_batch ck so m n y y' \<and> (\<nexists>z. batch_step pop next_batch ck so m y' z)"
    if "busy_run qsize submit pop next_batch ck so m n y z" for n z
    using that
  proof (induction "work contents z" arbitrary: n z rule: less_induct)
    case less
    show ?case
    proof (cases "\<exists>w. batch_step pop next_batch ck so m z w")
      case True
      then obtain w where "batch_step pop next_batch ck so m z w" by blast
      with less.hyps [OF batch_step_work] Work [OF less.prems] show ?thesis by blast
    next
      case False
      with less.prems show ?thesis by blast
    qed
  qed
  then show ?thesis using Start by blast
qed

lemma can_drain:
  assumes "sys_slots y \<noteq> []"
  shows "\<exists>n y'. busy_run qsize submit pop next_batch ck so m n y y' \<and>
    contents (sys_sched y') = [] \<and> (\<forall>sl \<in> set (sys_slots y'). sl = Idle)"
proof -
  obtain n y' where run: "busy_run qsize submit pop next_batch ck so m n y y'"
    and rest: "\<nexists>z. batch_step pop next_batch ck so m y' z"
    using can_rest by blast
  have "sys_slots y' \<noteq> []" using reach_slots busy_run_reach [OF run] assms by (metis length_0_conv)
  with run resting_idle [OF rest] show ?thesis by blast
qed

end

section \<open>Shutdown\<close>

text \<open>\<open>WorkerManager.stop\<close> cancels the tasks. A cancelled worker ends at its suspension point:
  \<open>CancelledError\<close> is no \<open>Exception\<close>, so the \<open>except\<close> block of the batch is skipped, and a call of
  \<open>next_batch\<close> loses what it has collected.\<close>

definition sys_stop :: "'s system \<Rightarrow> 's system" where
  "sys_stop y = y\<lparr>sys_slots := map (\<lambda>_. Idle) (sys_slots y)\<rparr>"

text \<open>So the requests held by a worker are held by nobody afterwards, and have no end.\<close>

lemma stop_strands_requests:
  assumes "sys_inv contents invar cap y" and "r \<in> set (in_flight (sys_slots y))"
  shows "r \<notin> set (contents (sys_sched (sys_stop y)) @ in_flight (sys_slots (sys_stop y))) \<and>
    chan_open (handle (sys_store (sys_stop y) r))"
  using assms by (auto simp: sys_inv_def tracked_def sys_stop_def in_flight_def)

section \<open>Properties\<close>

lemma idle_in_flight: "\<forall>sl \<in> set sls. sl = Idle \<Longrightarrow> in_flight sls = []"
  by (auto simp: in_flight_def)

lemma wit_order: "iteration_order (\<lambda>xs. xs)"
  by (simp add: iteration_order_def)

lemma prio_init_contents: "prio_inv (prio_init aging)" "prio_contents (prio_init aging) = []"
  by (simp_all add: prio_init_def prio_inv_def)

lemma prio_reach_inv:
  assumes "sys_reach prio_size prio_submit prio_pop prio_next_batch ck so m (sys_init adm (prio_init aging) h workers) y"
    and "iteration_order so"
  shows "sys_inv prio_contents prio_inv (max_queue_size adm) y"
  by (rule prio_sched.sys_inv_reach [OF assms]) (simp add: sys_inv_init prio_init_contents)


lemma wit_prio_posted:
  "\<exists>y. sys_reach prio_size prio_submit prio_pop prio_next_batch of_nat (\<lambda>xs. xs) (init_manager 8 25 1)
      (sys_init (init_controller 1 0 0 0) (prio_init 0) wit_store 1) y \<and> sys_issued y = [9]"
proof -
  let ?y = "sys_init (init_controller 1 0 0 0) (prio_init 0) wit_store 1"
  obtain d sv' where post: "receive_request prio_size prio_submit wit_times ''x'' 9 wit_body (sys_services ?y) = (d, sv')"
    by (metis prod.collapse)
  have z: "prio_size (prio_init 0) = 0" by (simp add: prio_sched.law_size prio_init_contents)
  have acc: "accepted d"
    using receive_request_admission(1) [OF post]
    by (simp add: sys_init_def admit_def init_controller_def z decision_ok_def)
  let ?z = "?y\<lparr>sys_services := sv', sys_issued := [9]\<rparr>"
  have "sys_step prio_size prio_submit prio_pop prio_next_batch of_nat (\<lambda>xs. xs) (init_manager 8 25 1) ?y ?z"
    using Post [OF post, of prio_pop prio_next_batch of_nat "\<lambda>xs. xs" "init_manager 8 25 1"] acc by (simp add: sys_init_def)
  then have r: "sys_reach prio_size prio_submit prio_pop prio_next_batch of_nat (\<lambda>xs. xs) (init_manager 8 25 1) ?y ?z"
    by (rule prio_sched.reach_step)
  then show ?thesis by (intro exI [of _ ?z]) simp
qed


text \<open>
  C4: The work ends. While no post is accepted, whatever order events, time-outs, disconnects,
  readers and refused posts come in, the workers take at most three steps per queued request and two
  per worker (a request is taken or collected, a batch is closed, the stream of the backend ends).
  There is no deadlock either: when they can take no step, the queue is empty, every worker waits for
  requests, and every admitted request has its end.
\<close>

theorem every_request_ends:
  assumes "sys_reach fifo_size fifo_submit fifo_pop fifo_next_batch ck so m (sys_init adm fifo_init h workers) y"
    and "iteration_order so" and "0 < workers"
    and "busy_run fifo_size fifo_submit fifo_pop fifo_next_batch ck so m n y y'"
  shows "n \<le> 3 * fifo_size (sys_sched y) + 2 * workers \<and>
    ((\<nexists>z. batch_step fifo_pop fifo_next_batch ck so m y' z) \<longrightarrow>
     sys_sched y' = [] \<and> (\<forall>sl \<in> set (sys_slots y'). sl = Idle) \<and>
     (\<forall>r \<in> set (sys_issued y). chan_ended (handle (sys_store y' r))))"
proof -
  note run = fifo_sched.busy_run_reach [OF assms(4)]
  have len: "length (sys_slots y) = workers"
    using fifo_sched.reach_slots [OF assms(1)] by (simp add: sys_init_def)
  then have bound: "work (\<lambda>q. q) y \<le> 3 * fifo_size (sys_sched y) + 2 * workers"
    using slots_work_bound [of "sys_slots y"] by (simp add: work_def fifo_size_def)
  have "length (sys_slots y') = workers" using fifo_sched.reach_slots [OF conjunct1 [OF run]] len by simp
  then have ne: "sys_slots y' \<noteq> []" using assms(3) by auto
  have inv: "sys_inv (\<lambda>q. q) (\<lambda>_. True) (max_queue_size adm) y'"
    by (rule fifo_sched.sys_inv_reach [OF fifo_sched.reach_trans [OF assms(1)] assms(2)])
      (use run in \<open>simp_all add: sys_inv_init fifo_init_def\<close>)
  have "chan_ended (handle (sys_store y' r))"
    if "sys_sched y' = []" "\<forall>sl \<in> set (sys_slots y'). sl = Idle" "r \<in> set (sys_issued y)" for r
    using that inv run idle_in_flight by (auto simp: sys_inv_def tracked_def)
  with fifo_sched.resting_idle [OF _ ne] fifo_sched.busy_run_work [OF assms(4)] bound show ?thesis
    by fastforce
qed

theorem every_request_ends_witness:
  "\<exists>y n y'. sys_issued y = [9] \<and> sys_sched y = [9] \<and>
    busy_run fifo_size fifo_submit fifo_pop fifo_next_batch of_nat (\<lambda>xs. xs) (init_manager 8 25 1) n y y' \<and>
    n \<le> 5 \<and> chan_ended (handle (sys_store y' 9))"
proof -
  let ?y = "sys_init (init_controller 1 0 0 0) fifo_init wit_store 1"
  obtain d sv' where post: "receive_request fifo_size fifo_submit wit_times ''x'' 9 wit_body (sys_services ?y) = (d, sv')"
    by (metis prod.collapse)
  have acc: "accepted d"
    using receive_request_admission(1) [OF post]
    by (simp add: sys_init_def admit_def init_controller_def fifo_size_def fifo_init_def decision_ok_def)
  have q: "sv_scheduler sv' = [9]"
    using receive_request_accepted [OF post acc] by (simp add: fifo_submit_def fifo_init_def sys_init_def)
  let ?z = "?y\<lparr>sys_services := sv', sys_issued := [9]\<rparr>"
  have "sys_step fifo_size fifo_submit fifo_pop fifo_next_batch of_nat (\<lambda>xs. xs) (init_manager 8 25 1) ?y ?z"
    using Post [OF post, of fifo_pop fifo_next_batch of_nat "\<lambda>xs. xs" "init_manager 8 25 1"] acc by (simp add: sys_init_def)
  then have r: "sys_reach fifo_size fifo_submit fifo_pop fifo_next_batch of_nat (\<lambda>xs. xs) (init_manager 8 25 1) ?y ?z"
    by (rule fifo_sched.reach_step)
  obtain n y' where run: "busy_run fifo_size fifo_submit fifo_pop fifo_next_batch of_nat (\<lambda>xs. xs) (init_manager 8 25 1) n ?z y'"
    and "\<nexists>z. batch_step fifo_pop fifo_next_batch of_nat (\<lambda>xs. xs) (init_manager 8 25 1) y' z"
    using fifo_sched.can_rest by blast
  with every_request_ends [OF r wit_order _ run] q show ?thesis
    by (intro exI [of _ ?z] exI [of _ n] exI [of _ y']) (simp add: fifo_size_def)
qed

text \<open>
  C3: An end is final. Once a request is held nowhere any more, it never comes back, whatever else
  happens to the system: a resolved, failed or cancelled future never changes, and nothing is
  appended to the queue of a stream, from which the client only takes frames in order.
\<close>

theorem ends_are_final:
  assumes "sys_reach prio_size prio_submit prio_pop prio_next_batch ck so m (sys_init adm (prio_init aging) h workers) y"
    and "sys_reach prio_size prio_submit prio_pop prio_next_batch ck so m y y'"
    and "iteration_order so" and "r \<in> set (sys_issued y)"
    and "r \<notin> set (prio_contents (sys_sched y) @ in_flight (sys_slots y))"
  shows "r \<notin> set (prio_contents (sys_sched y') @ in_flight (sys_slots y')) \<and>
    (case handle (sys_store y r) of
       Completion c \<Rightarrow> future_done (fut c) \<longrightarrow>
         (\<exists>c'. handle (sys_store y' r) = Completion c' \<and> fut c' = fut c)
     | Streaming c \<Rightarrow>
         \<exists>c' es. handle (sys_store y' r) = Streaming c' \<and> queue c = es @ queue c')"
proof -
  from prio_sched.reach_final [OF assms(2,3) prio_reach_inv [OF assms(1,3)] assms(4,5)] show ?thesis
    by (cases "handle (sys_store y r)"; cases "handle (sys_store y' r)") simp_all
qed

theorem ends_are_final_witness:
  "\<exists>y y'. sys_step prio_size prio_submit prio_pop prio_next_batch of_nat (\<lambda>xs. xs) (init_manager 8 25 1) y y' \<and>
    sys_issued y = [9] \<and> 9 \<notin> set (prio_contents (sys_sched y') @ in_flight (sys_slots y'))"
proof -
  let ?reach = "sys_reach prio_size prio_submit prio_pop prio_next_batch of_nat (\<lambda>xs. xs) (init_manager 8 25 1)"
  let ?init = "sys_init (init_controller 1 0 0 0) (prio_init 0) wit_store 1"
  obtain z where z: "?reach ?init z" "sys_issued z = [9]" using wit_prio_posted by blast
  have "length (sys_slots z) = 1" using prio_sched.reach_slots [OF z(1)] by (simp add: sys_init_def)
  then have slots: "sys_slots z \<noteq> []" by auto
  obtain y where y: "?reach z y" "sys_issued y = sys_issued z" "prio_contents (sys_sched y) = []"
    "\<forall>sl \<in> set (sys_slots y). sl = Idle"
    using prio_sched.can_drain [OF slots] prio_sched.busy_run_reach by blast
  let ?y' = "set_state (abort_ref of_nat ''client disconnected'' 9 (sys_state y)) y"
  have "sys_step prio_size prio_submit prio_pop prio_next_batch of_nat (\<lambda>xs. xs) (init_manager 8 25 1) y ?y'"
    by (rule Leave [OF _ refl]) (simp add: y(2) z(2))
  note step = this
  have mem: "9 \<in> set (sys_issued y)" "9 \<notin> set (prio_contents (sys_sched y) @ in_flight (sys_slots y))"
    using y z(2) idle_in_flight by simp_all
  have "9 \<notin> set (prio_contents (sys_sched ?y') @ in_flight (sys_slots ?y'))"
    by (rule conjunct1 [OF ends_are_final
          [OF prio_sched.reach_trans [OF z(1) y(1)] prio_sched.reach_step [OF step] wit_order mem]])
  with step y(2) z(2) show ?thesis by (intro exI [of _ y] exI [of _ ?y']) simp
qed

end

