(* ===== verification/LoadTest.thy ===== *)
theory LoadTest
  imports Lifecycle
begin

text \<open>
  \<open>benchmarks/run_load_test.py\<close> and \<open>benchmarks/analyze_batch_sweep.py\<close>: a load test sends its
  requests in waves, reports throughput and latency quantiles, and describes what the runtime did
  meanwhile by the difference of two metrics snapshots; the analysis of a sweep chooses among the
  measured configurations. The answers of the server and the two snapshots are arguments.
\<close>

section \<open>Sending the load\<close>

record load_result =
  lr_latency_s :: rat
  lr_tokens :: int

definition run_one :: "rat \<Rightarrow> rat \<Rightarrow> chat_completion_response \<Rightarrow> load_result" where
  "run_one start finish response =
     \<lparr>lr_latency_s = finish - start, lr_tokens = completion_tokens (cr_usage response)\<rparr>"

text \<open>The slices \<open>pending[offset : offset + concurrency]\<close>.\<close>

function waves :: "nat \<Rightarrow> 'a list \<Rightarrow> 'a list list" where
  "waves c xs = (if c = 0 \<or> xs = [] then [] else take c xs # waves c (drop c xs))"
  by pat_completeness auto
termination by (relation "measure (length \<circ> snd)") auto

declare waves.simps [simp del]

definition py_nth :: "'a list \<Rightarrow> int \<Rightarrow> 'a option" where
  "py_nth xs i =
     (let n = int (length xs); j = (if i < 0 then i + n else i) in
      if 0 \<le> j \<and> j < n then Some (xs ! nat j) else None)"

datatype load_error = RangeStepZero | ListIndexOutOfRange | FloatDivisionByZero

record load_report =
  ld_tokens_per_second :: rat
  ld_p50_latency_s :: rat
  ld_p95_latency_s :: rat

definition run_load :: "int \<Rightarrow> rat \<Rightarrow> load_result list \<Rightarrow> load_error + load_report" where
  "run_load concurrency total_s answers =
     (if concurrency = 0 then Inl RangeStepZero
      else (let results = (if 0 < concurrency then concat (waves (nat concurrency) answers) else []);
                latencies = sort (map lr_latency_s results);
                n = length latencies;
                total_tokens = (\<Sum>x\<leftarrow>results. lr_tokens x) in
        case (py_nth latencies (int (n div 2)), py_nth latencies (py_trunc (of_nat n * (95 / 100)) - 1)) of
          (Some p50, Some p95) \<Rightarrow>
            if total_s = 0 then Inl FloatDivisionByZero
            else Inr \<lparr>ld_tokens_per_second = of_int total_tokens / total_s,
                      ld_p50_latency_s = p50, ld_p95_latency_s = p95\<rparr>
        | _ \<Rightarrow> Inl ListIndexOutOfRange))"

section \<open>What the runtime did meanwhile\<close>

definition delta_average ::
  "(metrics_snapshot \<Rightarrow> rat) \<Rightarrow> (metrics_snapshot \<Rightarrow> nat) \<Rightarrow> metrics_snapshot \<Rightarrow> metrics_snapshot \<Rightarrow> rat"
where
  "delta_average average count_key before after =
     (let delta_count = int (count_key after) - int (count_key before) in
      if delta_count = 0 then 0
      else (average after * of_nat (count_key after) - average before * of_nat (count_key before))
             / of_int delta_count)"

definition delta_distribution :: "(string \<times> nat) list \<Rightarrow> (string \<times> nat) list \<Rightarrow> (string \<times> int) list" where
  "delta_distribution before after =
     List.map_filter (\<lambda>(size, c).
       let d = int c - (case map_of before size of None \<Rightarrow> 0 | Some n \<Rightarrow> int n) in
       if 0 < d then Some (size, d) else None) after"

text \<open>\<open>None\<close> is the \<open>ValueError\<close> of a key that is no number.\<close>

definition max_new_batch_size :: "(string \<times> nat) list \<Rightarrow> (string \<times> nat) list \<Rightarrow> int option" where
  "max_new_batch_size before after =
     (let sizes = map (\<lambda>p. py_int (fst p)) (delta_distribution before after) in
      if None \<in> set sizes then None else Some (if sizes = [] then 0 else Max (the ` set sizes)))"

record workload_metrics =
  wl_completed_count :: int
  wl_failed_count :: int
  wl_generated_tokens_total :: int
  wl_queue_wait_time_avg_s :: rat
  wl_ttft_avg_s :: rat
  wl_total_latency_avg_s :: rat
  wl_batch_count :: int
  wl_batch_size_avg :: rat
  wl_batch_size_max :: int
  wl_batch_size_distribution :: "(string \<times> int) list"

definition workload_metrics_of :: "metrics_snapshot \<Rightarrow> metrics_snapshot \<Rightarrow> workload_metrics option" where
  "workload_metrics_of before after =
     map_option (\<lambda>largest.
       \<lparr>wl_completed_count = int (ms_completed_count after) - int (ms_completed_count before),
        wl_failed_count = int (ms_failed_count after) - int (ms_failed_count before),
        wl_generated_tokens_total =
          int (ms_generated_tokens_total after) - int (ms_generated_tokens_total before),
        wl_queue_wait_time_avg_s = delta_average (ts_avg_s \<circ> ms_queue_wait) ms_completed_count before after,
        wl_ttft_avg_s = delta_average (ts_avg_s \<circ> ms_ttft) ms_completed_count before after,
        wl_total_latency_avg_s = delta_average (ts_avg_s \<circ> ms_total_latency) ms_completed_count before after,
        wl_batch_count = int (ms_batch_count after) - int (ms_batch_count before),
        wl_batch_size_avg = delta_average ms_batch_size_avg ms_batch_count before after,
        wl_batch_size_max = largest,
        wl_batch_size_distribution =
          delta_distribution (ms_batch_size_distribution before) (ms_batch_size_distribution after)\<rparr>)
       (max_new_batch_size (ms_batch_size_distribution before) (ms_batch_size_distribution after))"

section \<open>Choosing a configuration\<close>

record sweep_result =
  sw_max_batch_size :: int
  sw_batch_timeout_ms :: int
  sw_tokens_per_second :: rat
  sw_ttft_avg_s :: rat
  sw_p95_latency_s :: rat

text \<open>\<open>max\<close> and \<open>min\<close> with a key return the first best element.\<close>

fun first_max :: "('a \<Rightarrow> rat) \<Rightarrow> 'a \<Rightarrow> 'a list \<Rightarrow> 'a" where
  "first_max key b [] = b"
| "first_max key b (x # xs) = first_max key (if key b < key x then x else b) xs"

definition py_max_by :: "('a \<Rightarrow> rat) \<Rightarrow> 'a list \<Rightarrow> 'a option" where
  "py_max_by key xs = (case xs of [] \<Rightarrow> None | x # ys \<Rightarrow> Some (first_max key x ys))"

definition py_min_by :: "('a \<Rightarrow> rat) \<Rightarrow> 'a list \<Rightarrow> 'a option" where
  "py_min_by key = py_max_by (\<lambda>x. - key x)"

record sweep_selection =
  se_highest_throughput :: sweep_result
  se_lowest_ttft :: sweep_result
  se_lowest_p95 :: sweep_result
  se_within_budget :: "sweep_result option"

text \<open>\<open>None\<close> is the \<open>ValueError\<close> of \<open>max\<close> on no configuration.\<close>

definition sweep_select :: "rat option \<Rightarrow> sweep_result list \<Rightarrow> sweep_selection option" where
  "sweep_select ttft_budget_ms configurations =
     (case (py_max_by sw_tokens_per_second configurations, py_min_by sw_ttft_avg_s configurations,
            py_min_by sw_p95_latency_s configurations) of
        (Some fast, Some prompt_one, Some steady) \<Rightarrow>
          Some \<lparr>se_highest_throughput = fast, se_lowest_ttft = prompt_one, se_lowest_p95 = steady,
                se_within_budget =
                  (case ttft_budget_ms of None \<Rightarrow> None
                   | Some budget \<Rightarrow>
                       py_max_by sw_tokens_per_second
                         (filter (\<lambda>x. sw_ttft_avg_s x * 1000 \<le> budget) configurations))\<rparr>
      | _ \<Rightarrow> None)"

section \<open>Waves and quantiles\<close>

lemma waves_concat: "0 < c \<Longrightarrow> concat (waves c xs) = xs"
  by (induction c xs rule: waves.induct) (subst waves.simps, simp)

lemma waves_bounded: "w \<in> set (waves c xs) \<Longrightarrow> w \<noteq> [] \<and> length w \<le> c"
proof (induction c xs rule: waves.induct)
  case (1 c xs)
  then show ?case by (subst (asm) (2) waves.simps) (auto split: if_splits)
qed

lemma run_load_results:
  assumes "run_load concurrency total_s answers = Inr r" and "0 < concurrency"
  shows "ld_tokens_per_second r * total_s = of_int (\<Sum>x\<leftarrow>answers. lr_tokens x)"
  using assms
  by (auto simp: run_load_def waves_concat Let_def split: option.splits if_splits)

text \<open>The reported median and 95th percentile are in order, unless there are exactly two requests.\<close>

lemma quantiles_ordered:
  assumes "run_load concurrency total_s answers = Inr r" and "0 < concurrency" and "length answers \<noteq> 2"
  shows "ld_p50_latency_s r \<le> ld_p95_latency_s r"
proof -
  let ?l = "sort (map lr_latency_s answers)" and ?n = "length answers"
  let ?i = "py_trunc (of_nat ?n * (95 / 100)) - 1"
  obtain a b where a: "py_nth ?l (int (?n div 2)) = Some a" and b: "py_nth ?l ?i = Some b"
    and r: "ld_p50_latency_s r = a" "ld_p95_latency_s r = b"
    using assms(1,2) by (auto simp: run_load_def waves_concat Let_def split: option.splits if_splits)
  have tr: "py_trunc (of_nat ?n * (95 / 100)) = \<lfloor>of_nat ?n * (95 / 100) :: rat\<rfloor>"
    by (simp add: py_trunc_def)
  consider "?n = 0" | "?n = 1" | "3 \<le> ?n" using assms(3) by linarith
  then show ?thesis
  proof cases
    case 1
    with a show ?thesis by (simp add: py_nth_def)
  next
    case 2
    moreover have "\<lfloor>19 / 20 :: rat\<rfloor> = 0" by (rule floor_unique) simp_all
    ultimately have "?i = - 1" unfolding tr by simp
    with 2 a b r show ?thesis by (auto simp: py_nth_def Let_def)
  next
    case 3
    have "(of_nat (2 * (?n div 2)) :: rat) \<le> of_nat ?n" by (rule of_nat_mono) simp
    moreover have "(of_nat 3 :: rat) \<le> of_nat ?n" by (rule of_nat_mono [OF 3])
    ultimately have "(of_int (int (?n div 2) + 1) :: rat) \<le> of_nat ?n * (95 / 100)" by simp
    then have "int (?n div 2) + 1 \<le> \<lfloor>of_nat ?n * (95 / 100) :: rat\<rfloor>" unfolding le_floor_iff .
    then have i: "int (?n div 2) \<le> ?i" unfolding tr by simp
    then have "a = ?l ! (?n div 2)" "b = ?l ! nat ?i" "nat ?i < ?n"
      using a b by (auto simp: py_nth_def Let_def split: if_splits)
    with i r show ?thesis by (simp add: sorted_nth_mono nat_le_iff le_nat_iff)
  qed
qed

text \<open>With two requests the 95th percentile is the smaller latency.\<close>

lemma p95_below_median:
  "map_sum id (\<lambda>r. (ld_p50_latency_s r, ld_p95_latency_s r))
     (run_load 8 1 [\<lparr>lr_latency_s = 1, lr_tokens = 4\<rparr>, \<lparr>lr_latency_s = 3, lr_tokens = 4\<rparr>]) = Inr (3, 1)"
proof -
  have "\<lfloor>19 / 10 :: rat\<rfloor> = 1" by (rule floor_unique) simp_all
  then show ?thesis by (simp add: run_load_def waves_concat py_trunc_def py_nth_def Let_def)
qed

section \<open>Snapshot differences\<close>

lemma avg_total: "avg xs * of_nat (length xs) = sum_list xs"
  by (simp add: avg_def)

lemma delta_average_exact:
  assumes "average before = avg xs" "count_key before = length xs"
    and "average after = avg (xs @ ys)" "count_key after = length (xs @ ys)"
  shows "delta_average average count_key before after = avg ys"
proof -
  have t: "avg (xs @ ys) * of_nat (length (xs @ ys)) - avg xs * of_nat (length xs) = sum_list ys"
    unfolding avg_total by simp
  have n: "int (length (xs @ ys)) - int (length xs) = int (length ys)" by simp
  show ?thesis
    unfolding delta_average_def assms t n by (simp add: Let_def avg_def)
qed

lemma delta_distribution_lookup:
  assumes "distinct (map fst after)"
  shows "map_of (delta_distribution before after) k =
    (case map_of after k of None \<Rightarrow> None
     | Some c \<Rightarrow> (let d = int c - (case map_of before k of None \<Rightarrow> 0 | Some n \<Rightarrow> int n) in
         if 0 < d then Some d else None))"
  using assms
proof (induction after)
  case Nil
  show ?case by (simp add: delta_distribution_def map_filter_def)
next
  case (Cons p after)
  obtain size c where p: "p = (size, c)" by (cases p)
  have "k \<notin> fst ` set after \<Longrightarrow> map_of after k = None" by (simp add: map_of_eq_None_iff)
  with Cons p show ?case
    by (auto simp: delta_distribution_def map_filter_simps Let_def split: option.splits)
qed

text \<open>The batch size table of a snapshot, by its printed sizes.\<close>

abbreviation size_table :: "nat list \<Rightarrow> (string \<times> nat) list" where
  "size_table xs \<equiv> map (\<lambda>(size, c). (str_nat size, c)) (sort (counter_of xs))"

lemma map_of_sort:
  fixes c :: "('k::linorder \<times> nat) list"
  assumes "distinct (map fst c)"
  shows "map_of (sort c) = map_of c" and "distinct (map fst (sort c))"
proof -
  show d: "distinct (map fst (sort c))"
    using assms by (metis mset_eq_imp_distinct_iff mset_map mset_sort)
  show "map_of (sort c) = map_of c"
    using d assms by (simp add: map_of_inject_set)
qed

lemma map_of_str: "map_of (map (\<lambda>(size, c). (str_nat size, c)) l) (str_nat n) = map_of l n"
  by (induction l) auto

lemma map_of_counter: "map_of (counter_of xs) n = (if n \<in> set xs then Some (count_list xs n) else None)"
proof (cases "map_of (counter_of xs) n")
  case None
  then have "n \<notin> set xs" using counter_keys_of [of xs] by (simp add: map_of_eq_None_iff)
  with None show ?thesis by simp
next
  case (Some c)
  then have m: "(n, c) \<in> set (counter_of xs)" by (rule map_of_SomeD)
  then have "n \<in> set xs" using counter_keys_of [of xs] by (metis fst_conv image_eqI set_map)
  with Some counter_get_mem [OF counter_distinct_of m] counter_get_of [of n xs] show ?thesis by simp
qed

lemma size_table_lookup: "map_of (size_table xs) (str_nat n) = (if n \<in> set xs then Some (count_list xs n) else None)"
  by (simp add: map_of_str map_of_sort(1) counter_distinct_of map_of_counter)

lemma size_table_keys: "map fst (size_table xs) = map str_nat (map fst (sort (counter_of xs)))"
  by (simp add: case_prod_beta)

lemma size_table_distinct: "distinct (map fst (size_table xs))"
  unfolding size_table_keys using map_of_sort(2) [OF counter_distinct_of, of xs]
  by (simp add: distinct_map inj_on_def del: map_map)

lemma size_table_delta:
  "map_of (delta_distribution (size_table xs) (size_table (xs @ ys))) (str_nat n) =
    (if n \<in> set ys then Some (int (count_list ys n)) else None)"
  unfolding delta_distribution_lookup [OF size_table_distinct] size_table_lookup
  by (auto simp: count_list_0_iff Let_def)

lemma image_by_members: "(\<And>k. k \<in> D \<Longrightarrow> \<exists>n. k = f n) \<Longrightarrow> (\<And>n. f n \<in> D \<longleftrightarrow> n \<in> S) \<Longrightarrow> D = f ` S"
  by (auto 4 3)

lemma size_table_new_keys:
  "fst ` set (delta_distribution (size_table xs) (size_table (xs @ ys))) = str_nat ` set ys"
proof (rule image_by_members)
  show "\<exists>n. k = str_nat n" if "k \<in> fst ` set (delta_distribution (size_table xs) (size_table (xs @ ys)))" for k
    using that by (auto simp: delta_distribution_def map_filter_def Let_def split: if_splits)
  show "str_nat n \<in> fst ` set (delta_distribution (size_table xs) (size_table (xs @ ys))) \<longleftrightarrow> n \<in> set ys" for n
  proof -
    have "n \<in> set ys \<longleftrightarrow> map_of (delta_distribution (size_table xs) (size_table (xs @ ys))) (str_nat n) \<noteq> None"
      unfolding size_table_delta by simp
    then show ?thesis unfolding map_of_eq_None_iff by blast
  qed
qed

lemma max_new_batch_size_exact:
  assumes "\<forall>n \<in> set ys. length (str_nat n) \<le> 4300"
  shows "max_new_batch_size (size_table xs) (size_table (xs @ ys)) = Some (int (max_default ys))"
proof -
  let ?d = "delta_distribution (size_table xs) (size_table (xs @ ys))"
  have s: "set (map (\<lambda>p. py_int (fst p)) ?d) = (\<lambda>n. Some (int n)) ` set ys"
  proof -
    have "set (map (\<lambda>p. py_int (fst p)) ?d) = py_int ` fst ` set ?d" by (simp add: image_image)
    also have "\<dots> = py_int ` str_nat ` set ys" by (simp only: size_table_new_keys)
    also have "\<dots> = (\<lambda>n. Some (int n)) ` set ys"
      unfolding image_image by (rule image_cong) (use assms py_int_str_nat in auto)
    finally show ?thesis .
  qed
  have e: "map (\<lambda>p. py_int (fst p)) ?d = [] \<longleftrightarrow> ys = []" using s by (metis image_is_empty set_empty)
  have "Max (the ` set (map (\<lambda>p. py_int (fst p)) ?d)) = int (Max (set ys))" if "ys \<noteq> []"
    unfolding s image_image using that mono_Max_commute [of int "set ys"] by (simp add: mono_def)
  with s e show ?thesis unfolding max_new_batch_size_def Let_def by (auto simp: max_default_def)
qed

text \<open>Runs of events in which every settled request completed with a first token.\<close>

fun clean_op :: "metric_op \<Rightarrow> bool" where
  "clean_op (MSuccess r n) = (first_token_at r \<noteq> None)"
| "clean_op (MFailure t r) = False"
| "clean_op _ = True"

fun ttft_of :: "metric_op \<Rightarrow> rat option" where
  "ttft_of (MSuccess r n) = map_option (\<lambda>t. t - created_at r) (first_token_at r)"
| "ttft_of _ = None"

lemma record_timing_ttft:
  "ttft_times (record_timing r m) =
     ttft_times m @ (case first_token_at r of None \<Rightarrow> [] | Some t \<Rightarrow> [t - created_at r])"
  by (simp add: record_timing_def record_total_def record_ttft_def record_queue_wait_def Let_def split: option.split)

lemma run_ops_ttft:
  assumes "\<forall>p \<in> set ops. clean_op p"
  shows "ttft_times (run_ops ops) = List.map_filter ttft_of ops \<and>
    completed_count (run_ops ops) = length (List.map_filter ttft_of ops)"
  using assms
proof (induction ops rule: rev_induct)
  case Nil
  show ?case by (simp add: init_collector_def map_filter_def)
next
  case (snoc p ops)
  then show ?case
    by (cases p) (auto simp: record_defs metric_simps map_filter_def record_timing_ttft split: option.splits)
qed

section \<open>Choice\<close>

lemma first_max_best:
  "first_max key b xs \<in> insert b (set xs) \<and> (\<forall>x \<in> insert b (set xs). key x \<le> key (first_max key b xs))"
proof (induction key b xs rule: first_max.induct)
  case (2 key b x xs)
  then show ?case by (auto split: if_splits)
qed simp

lemma py_max_by_best:
  "py_max_by key xs = Some y \<Longrightarrow> y \<in> set xs \<and> (\<forall>x \<in> set xs. key x \<le> key y)"
  using first_max_best [of key] by (cases xs) (auto simp: py_max_by_def)

text \<open>The configuration chosen within a budget meets it, and none that meets it is faster.\<close>

lemma sweep_budget:
  assumes "sweep_select (Some budget) cs = Some s" and "c \<in> set cs" and "sw_ttft_avg_s c * 1000 \<le> budget"
  shows "\<exists>best. se_within_budget s = Some best \<and> best \<in> set cs \<and> sw_ttft_avg_s best * 1000 \<le> budget \<and>
    sw_tokens_per_second c \<le> sw_tokens_per_second best"
proof -
  let ?ok = "filter (\<lambda>x. sw_ttft_avg_s x * 1000 \<le> budget) cs"
  have s: "se_within_budget s = py_max_by sw_tokens_per_second ?ok"
    using assms(1) by (auto simp: sweep_select_def split: option.splits)
  have c: "c \<in> set ?ok" using assms(2,3) by simp
  then obtain best where b: "py_max_by sw_tokens_per_second ?ok = Some best"
    by (cases ?ok) (auto simp: py_max_by_def)
  from py_max_by_best [OF b] c s b show ?thesis by auto
qed

section \<open>Property\<close>


definition wit_timed :: "seconds \<Rightarrow> runtime_request" where
  "wit_timed t = (wit_request_at 0)\<lparr>first_token_at := Some t\<rparr>"


text \<open>
  With failed requests the average is wrong: their samples are in the list that is averaged, but the
  total is restored with the number of completed ones. Here it exceeds every sample.
\<close>

lemma failures_skew_average:
  "\<exists>before after w.
    collector_snapshot (\<lambda>x. ''f'') (Inr (gpu_unavailable ''none'')) (run_ops [MSuccess (wit_timed 1) 4]) = Inr before \<and>
    collector_snapshot (\<lambda>x. ''f'') (Inr (gpu_unavailable ''none''))
      (run_ops [MSuccess (wit_timed 1) 4, MFailure 8 (wit_timed 7), MSuccess (wit_timed 5) 4]) = Inr after \<and>
    workload_metrics_of before after = Some w \<and> wl_ttft_avg_s w = 23 / 3"
proof -
  let ?A = "[MSuccess (wit_timed 1) 4]" and ?B = "[MSuccess (wit_timed 1) 4, MFailure 8 (wit_timed 7), MSuccess (wit_timed 5) 4]"
  have t: "first_token_at (wit_timed t) = Some t" "created_at (wit_timed t) = 0" for t
    by (simp_all add: wit_timed_def wit_request_at_def from_chat_request_def)
  have step: "ttft_times (apply_op (MSuccess r n) m) = ttft_times m @ (case first_token_at r of None \<Rightarrow> [] | Some t \<Rightarrow> [t - created_at r])"
    "ttft_times (apply_op (MFailure tm r) m) = ttft_times m @ (case first_token_at r of None \<Rightarrow> [] | Some t \<Rightarrow> [t - created_at r])" for r n m tm
    by (simp_all add: record_defs record_timing_ttft mark_failed_def split: option.split)
  have c: "completed_count (apply_op (MSuccess r n) m) = completed_count m + 1"
    "completed_count (apply_op (MFailure tm r) m) = completed_count m"
    "batch_sizes (apply_op (MSuccess r n) m) = batch_sizes m" "batch_sizes (apply_op (MFailure tm r) m) = batch_sizes m" for r n m tm
    by (simp_all add: record_defs metric_simps)
  have A: "ttft_times (run_ops ?A) = [1]" "completed_count (run_ops ?A) = 1" "batch_sizes (run_ops ?A) = []"
    by (simp_all add: run_ops_def step c t init_collector_def del: apply_op.simps)
  have B: "ttft_times (run_ops ?B) = [1, 7, 5]" "completed_count (run_ops ?B) = 2" "batch_sizes (run_ops ?B) = []"
    by (simp_all add: run_ops_def step c t init_collector_def del: apply_op.simps)
  show ?thesis
    by (simp add: collector_snapshot_def A B workload_metrics_of_def max_new_batch_size_def
        delta_distribution_def map_filter_def delta_average_def timing_snapshot_of_def avg_def)
qed

end
