(* ===== verification/PriorityBench.thy ===== *)
theory PriorityBench
  imports Lifecycle
begin

text \<open>
  \<open>benchmarks/run_priority_scheduler_benchmark.py\<close>: the mixed workload, what is observed of a
  request, the summary of a run with its fairness and starvation figures, and the comparison of two
  runs. Starting the manager and awaiting the futures is the composition that \<open>Manager\<close> models; the
  rounding of the printed report is left out.
\<close>

section \<open>Workload\<close>

record workload_spec =
  ws_label :: string
  ws_priority_class :: string
  ws_priority :: int
  ws_arrival_offset_ms :: int
  ws_max_tokens :: int

definition pad_3 :: "nat \<Rightarrow> string" where
  "pad_3 n = replicate (3 - length (str_nat n)) (CHR ''0'') @ str_nat n"

definition build_mixed_workload :: "int \<Rightarrow> int \<Rightarrow> int \<Rightarrow> int \<Rightarrow> int \<Rightarrow> workload_spec list" where
  "build_mixed_workload low_requests high_requests high_arrival_delay_ms low_max_tokens high_max_tokens =
     map (\<lambda>index. \<lparr>ws_label = ''low-'' @ pad_3 index, ws_priority_class = ''low'', ws_priority = 10,
                   ws_arrival_offset_ms = 0, ws_max_tokens = low_max_tokens\<rparr>) [0..<nat low_requests] @
     map (\<lambda>index. \<lparr>ws_label = ''high-'' @ pad_3 index, ws_priority_class = ''high'', ws_priority = 0,
                   ws_arrival_offset_ms = high_arrival_delay_ms, ws_max_tokens = high_max_tokens\<rparr>)
       [0..<nat high_requests]"

definition bench_scheduler :: "string \<Rightarrow> rat \<Rightarrow> any_scheduler" where
  "bench_scheduler scheduler_name aging =
     (if scheduler_name = ''priority_aging'' then SchedPriority (prio_init aging)
      else if scheduler_name = ''priority'' then SchedPriority (prio_init 0)
      else SchedFifo fifo_init)"

definition bench_body :: "workload_spec \<Rightarrow> chat_completion_request" where
  "bench_body spec =
     \<lparr>ccr_model = ''mock-llm'',
      ccr_messages = [\<lparr>role = RoleUser,
        content = ws_priority_class spec @ '' priority request '' @ ws_label spec\<rparr>],
      ccr_max_tokens = ws_max_tokens spec, ccr_temperature = 7 / 10, ccr_top_p = 1, ccr_stream = False,
      ccr_priority = ws_priority spec\<rparr>"

section \<open>Observations\<close>

record request_observation =
  ro_label :: string
  ro_priority_class :: string
  ro_priority :: int
  ro_arrival_offset_ms :: int
  ro_queue_wait_s :: rat
  ro_ttft_s :: rat
  ro_total_latency_s :: rat
  ro_completion_tokens :: nat

definition observe_request ::
  "workload_spec \<Rightarrow> runtime_request \<Rightarrow> string list \<Rightarrow> string + request_observation" where
  "observe_request spec r result_tokens =
     (case (enqueued_at r, started_at r, first_token_at r, completed_at r) of
        (Some enq, Some st, Some ft, Some done_at) \<Rightarrow>
          Inr \<lparr>ro_label = ws_label spec, ro_priority_class = ws_priority_class spec,
               ro_priority = ws_priority spec, ro_arrival_offset_ms = ws_arrival_offset_ms spec,
               ro_queue_wait_s = st - enq, ro_ttft_s = ft - created_at r,
               ro_total_latency_s = done_at - created_at r, ro_completion_tokens = length result_tokens\<rparr>
      | _ \<Rightarrow> Inl (''incomplete timing data for '' @ ws_label spec))"

section \<open>Statistics\<close>

text \<open>\<open>_mean\<close> is the \<open>avg\<close> of the collector. The quantiles asked for lie between 0 and 1, and waits
  are not negative, so no index is out of range and no division below is by zero.\<close>

definition bench_percentile :: "rat list \<Rightarrow> rat \<Rightarrow> rat" where
  "bench_percentile values quantile =
     (if values = [] then 0
      else (let ordered = sort values in
        if length ordered = 1 then ordered ! 0
        else (let index = of_nat (length ordered - 1) * quantile;
                  lower = \<lfloor>index\<rfloor>; upper = \<lceil>index\<rceil> in
          if lower = upper then ordered ! nat lower
          else (let lower_weight = of_int upper - index; upper_weight = index - of_int lower in
            ordered ! nat lower * lower_weight + ordered ! nat upper * upper_weight))))"

definition jain_index :: "rat list \<Rightarrow> rat" where
  "jain_index values =
     (if values = [] then 0
      else (let denominator = of_nat (length values) * (\<Sum>v\<leftarrow>values. v * v) in
        if denominator = 0 then 0 else sum_list values ^ 2 / denominator))"

definition safe_ratio :: "rat \<Rightarrow> rat \<Rightarrow> rat" where
  "safe_ratio numerator denominator = (if denominator = 0 then 0 else numerator / denominator)"

definition percent_change :: "rat \<Rightarrow> rat \<Rightarrow> rat" where
  "percent_change base delta = (if base = 0 then 0 else delta / base * 100)"

definition max_or_zero :: "rat list \<Rightarrow> rat" where
  "max_or_zero values = (if values = [] then 0 else Max (set values))"

section \<open>Summaries\<close>

record group_summary =
  gs_count :: nat
  gs_queue_wait_avg_s :: rat
  gs_queue_wait_p50_s :: rat
  gs_queue_wait_p95_s :: rat
  gs_queue_wait_max_s :: rat
  gs_ttft_avg_s :: rat
  gs_ttft_p50_s :: rat
  gs_ttft_p95_s :: rat
  gs_total_latency_avg_s :: rat
  gs_total_latency_p95_s :: rat

definition summarize_group :: "request_observation list \<Rightarrow> group_summary" where
  "summarize_group items =
     (let queue_waits = map ro_queue_wait_s items; ttfts = map ro_ttft_s items;
          total_latencies = map ro_total_latency_s items in
      \<lparr>gs_count = length items,
       gs_queue_wait_avg_s = avg queue_waits,
       gs_queue_wait_p50_s = bench_percentile queue_waits (1 / 2),
       gs_queue_wait_p95_s = bench_percentile queue_waits (95 / 100),
       gs_queue_wait_max_s = max_or_zero queue_waits,
       gs_ttft_avg_s = avg ttfts,
       gs_ttft_p50_s = bench_percentile ttfts (1 / 2),
       gs_ttft_p95_s = bench_percentile ttfts (95 / 100),
       gs_total_latency_avg_s = avg total_latencies,
       gs_total_latency_p95_s = bench_percentile total_latencies (95 / 100)\<rparr>)"

record bench_summary =
  bs_request_count :: nat
  bs_high_priority :: group_summary
  bs_low_priority :: group_summary
  bs_queue_wait_jain_index :: rat
  bs_low_to_high_queue_wait_ratio :: rat
  bs_threshold_s :: rat
  bs_low_starved_count :: nat
  bs_low_starved_fraction :: rat
  bs_low_queue_wait_max_s :: rat

definition summarize_observations :: "rat \<Rightarrow> request_observation list \<Rightarrow> bench_summary" where
  "summarize_observations starvation_threshold_s observations =
     (let high = filter (\<lambda>x. ro_priority_class x = ''high'') observations;
          low = filter (\<lambda>x. ro_priority_class x = ''low'') observations;
          high_summary = summarize_group high; low_summary = summarize_group low;
          high_wait = gs_queue_wait_avg_s high_summary; low_wait = gs_queue_wait_avg_s low_summary;
          epsilon = 1 / 10 ^ 9;
          low_starved_count = length (filter (\<lambda>x. starvation_threshold_s \<le> ro_queue_wait_s x) low) in
      \<lparr>bs_request_count = length observations,
       bs_high_priority = high_summary, bs_low_priority = low_summary,
       bs_queue_wait_jain_index = jain_index [1 / (high_wait + epsilon), 1 / (low_wait + epsilon)],
       bs_low_to_high_queue_wait_ratio = safe_ratio low_wait high_wait,
       bs_threshold_s = starvation_threshold_s,
       bs_low_starved_count = low_starved_count,
       bs_low_starved_fraction = safe_ratio (of_nat low_starved_count) (of_nat (length low)),
       bs_low_queue_wait_max_s = max_or_zero (map ro_queue_wait_s low)\<rparr>)"

record bench_comparison =
  bc_high_ttft_delta_s :: rat
  bc_high_ttft_improvement_pct :: rat
  bc_low_queue_wait_delta_s :: rat
  bc_low_queue_wait_increase_pct :: rat
  bc_fairness_jain_delta :: rat

definition compare_summaries :: "bench_summary \<Rightarrow> bench_summary \<Rightarrow> bench_comparison" where
  "compare_summaries fifo prio =
     (let fifo_high_ttft = gs_ttft_avg_s (bs_high_priority fifo);
          priority_high_ttft = gs_ttft_avg_s (bs_high_priority prio);
          fifo_low_wait = gs_queue_wait_avg_s (bs_low_priority fifo);
          priority_low_wait = gs_queue_wait_avg_s (bs_low_priority prio) in
      \<lparr>bc_high_ttft_delta_s = priority_high_ttft - fifo_high_ttft,
       bc_high_ttft_improvement_pct = percent_change fifo_high_ttft (fifo_high_ttft - priority_high_ttft),
       bc_low_queue_wait_delta_s = priority_low_wait - fifo_low_wait,
       bc_low_queue_wait_increase_pct = percent_change fifo_low_wait (priority_low_wait - fifo_low_wait),
       bc_fairness_jain_delta = bs_queue_wait_jain_index prio - bs_queue_wait_jain_index fifo\<rparr>)"

section \<open>Interpolated percentiles\<close>

definition interpolate :: "rat list \<Rightarrow> rat \<Rightarrow> rat" where
  "interpolate s x = s ! nat \<lfloor>x\<rfloor> + (s ! nat \<lceil>x\<rceil> - s ! nat \<lfloor>x\<rfloor>) * (x - of_int \<lfloor>x\<rfloor>)"

lemma bench_percentile_interpolate:
  assumes "values \<noteq> []"
  shows "bench_percentile values q = interpolate (sort values) (of_nat (length values - 1) * q)"
proof (cases "length values = 1")
  case True
  with assms show ?thesis by (simp add: bench_percentile_def interpolate_def)
next
  case False
  let ?x = "of_nat (length values - 1) * q :: rat"
  show ?thesis
  proof (cases "\<lfloor>?x\<rfloor> = \<lceil>?x\<rceil>")
    case True
    with assms False show ?thesis by (simp add: bench_percentile_def interpolate_def)
  next
    case frac: False
    then have "\<lceil>?x\<rceil> = \<lfloor>?x\<rfloor> + 1" by (metis ceiling_altdef)
    with assms False frac show ?thesis
      by (simp add: bench_percentile_def interpolate_def Let_def algebra_simps)
  qed
qed

lemma interpolate_range:
  fixes x :: rat
  assumes "x \<le> of_nat (length s - 1)" and "s \<noteq> []"
  shows "nat \<lceil>x\<rceil> < length s" "nat \<lfloor>x\<rfloor> \<le> nat \<lceil>x\<rceil>"
proof -
  have "\<lceil>x\<rceil> \<le> int (length s - 1)" using assms(1) by (simp add: ceiling_le_iff)
  moreover have "0 < length s" using assms(2) by simp
  ultimately show "nat \<lceil>x\<rceil> < length s" by linarith
  show "nat \<lfloor>x\<rfloor> \<le> nat \<lceil>x\<rceil>" by (intro nat_mono) linarith
qed

lemma interpolate_bounds:
  assumes "sorted s" and "x \<le> of_nat (length s - 1)" and "s \<noteq> []"
  shows "s ! nat \<lfloor>x\<rfloor> \<le> interpolate s x" "interpolate s x \<le> s ! nat \<lceil>x\<rceil>"
proof -
  have le: "s ! nat \<lfloor>x\<rfloor> \<le> s ! nat \<lceil>x\<rceil>"
    using interpolate_range [OF assms(2,3)] by (intro sorted_nth_mono [OF assms(1)])
  have f: "0 \<le> x - of_int \<lfloor>x\<rfloor>" "x - of_int \<lfloor>x\<rfloor> \<le> 1" by linarith+
  show "s ! nat \<lfloor>x\<rfloor> \<le> interpolate s x" using le f by (simp add: interpolate_def)
  have "(s ! nat \<lceil>x\<rceil> - s ! nat \<lfloor>x\<rfloor>) * (x - of_int \<lfloor>x\<rfloor>) \<le> (s ! nat \<lceil>x\<rceil> - s ! nat \<lfloor>x\<rfloor>) * 1"
    using le f by (intro mult_left_mono) simp_all
  then show "interpolate s x \<le> s ! nat \<lceil>x\<rceil>" by (simp add: interpolate_def)
qed

lemma interpolate_mono:
  assumes sorted: "sorted s" and x: "x \<le> y" "y \<le> of_nat (length s - 1)" and s: "s \<noteq> []"
  shows "interpolate s x \<le> interpolate s y"
proof -
  have "x \<le> of_nat (length s - 1)" using x by linarith
  note bx = interpolate_bounds [OF sorted this s] and b2 = interpolate_bounds [OF sorted x(2) s]
  show ?thesis
  proof (cases "\<lceil>x\<rceil> \<le> \<lfloor>y\<rfloor>")
    case True
    have "s ! nat \<lceil>x\<rceil> \<le> s ! nat \<lfloor>y\<rfloor>"
      using interpolate_range [OF x(2) s] True by (intro sorted_nth_mono [OF sorted] nat_mono) auto
    with bx b2 show ?thesis by linarith
  next
    case False
    then have f: "\<lfloor>y\<rfloor> = \<lfloor>x\<rfloor>" "\<lceil>y\<rceil> = \<lceil>x\<rceil>" using x(1) by linarith+
    have "s ! nat \<lfloor>x\<rfloor> \<le> s ! nat \<lceil>x\<rceil>" using bx by linarith
    then have "(s ! nat \<lceil>x\<rceil> - s ! nat \<lfloor>x\<rfloor>) * (x - of_int \<lfloor>x\<rfloor>) \<le> (s ! nat \<lceil>x\<rceil> - s ! nat \<lfloor>x\<rfloor>) * (y - of_int \<lfloor>x\<rfloor>)"
      using x(1) by (intro mult_left_mono) simp_all
    then show ?thesis by (simp add: interpolate_def f)
  qed
qed

section \<open>Sound summaries\<close>

lemma bench_percentile_mono:
  assumes "p \<le> q" and "q \<le> 1"
  shows "bench_percentile values p \<le> bench_percentile values q"
    and "bench_percentile values q \<le> max_or_zero values"
proof -
  have "bench_percentile values p \<le> bench_percentile values q \<and> bench_percentile values q \<le> max_or_zero values"
  proof (cases "values = []")
    case True
    then show ?thesis by (simp add: bench_percentile_def max_or_zero_def)
  next
    case False
    let ?n = "of_nat (length values - 1) :: rat" and ?s = "sort values"
    have s: "sorted ?s" "?s \<noteq> []" "length ?s = length values"
      using False by (simp_all flip: length_greater_0_conv)
    have x: "?n * p \<le> ?n * q" "?n * q \<le> of_nat (length ?s - 1)"
      using assms mult_left_mono [of q 1 ?n] by (simp_all add: mult_left_mono)
    have "?s ! nat \<lceil>?n * q\<rceil> \<in> set values"
      using interpolate_range(1) [OF x(2) s(2)] by (metis nth_mem set_sort)
    then have "?s ! nat \<lceil>?n * q\<rceil> \<le> max_or_zero values" using False by (simp add: max_or_zero_def)
    with interpolate_mono [OF s(1) x s(2)] interpolate_bounds(2) [OF s(1) x(2) s(2)] show ?thesis
      by (simp add: bench_percentile_interpolate [OF False])
  qed
  then show "bench_percentile values p \<le> bench_percentile values q"
    "bench_percentile values q \<le> max_or_zero values" by blast+
qed

lemmas bench_p95_le_max = bench_percentile_mono(2) [OF order_refl, of "95 / 100", simplified]

lemma avg_bounds:
  assumes "\<forall>v \<in> set vs. 0 \<le> v"
  shows "0 \<le> avg vs" "avg vs \<le> max_or_zero vs"
proof -
  have "sum_list vs \<le> of_nat (length vs) * m" if "\<forall>v \<in> set vs. v \<le> m" for m :: rat
    using that by (induction vs) (auto simp: algebra_simps)
  then have "vs \<noteq> [] \<Longrightarrow> sum_list vs \<le> of_nat (length vs) * Max (set vs)" by simp
  then show "avg vs \<le> max_or_zero vs" by (auto simp: avg_def max_or_zero_def field_simps)
  show "0 \<le> avg vs" using assms by (simp add: avg_def sum_list_nonneg)
qed

lemma max_or_zero_less: "0 < t \<Longrightarrow> max_or_zero xs < t \<longleftrightarrow> (\<forall>v \<in> set xs. v < t)"
  by (simp add: max_or_zero_def)

text \<open>Jain's index of two positive values lies between a half and one, and is one for equal values.\<close>

lemma jain_two:
  assumes "0 < a" and "0 < b"
  shows "1 / 2 < jain_index [a, b]" "jain_index [a, b] \<le> 1" "jain_index [a, b] = 1 \<longleftrightarrow> a = b"
proof -
  have d: "0 < 2 * (a * a + b * b)" using assms by (simp add: add_pos_pos)
  have j: "jain_index [a, b] = (a + b)\<^sup>2 / (2 * (a * a + b * b))"
    using d by (simp add: jain_index_def)
  have sq: "2 * (a * a + b * b) - (a + b)\<^sup>2 = (a - b)\<^sup>2" by (simp add: power2_eq_square algebra_simps)
  have "0 < a * b" using assms by simp
  then have "2 * (a * a + b * b) < 2 * (a + b)\<^sup>2" by (simp add: power2_eq_square algebra_simps)
  then show "1 / 2 < jain_index [a, b]" using d unfolding j by (simp add: field_simps)
  have "(a + b)\<^sup>2 \<le> 2 * (a * a + b * b)" using sq zero_le_power2 [of "a - b"] by linarith
  then show "jain_index [a, b] \<le> 1" using d unfolding j by (simp add: divide_le_eq_1)
  have "jain_index [a, b] = 1 \<longleftrightarrow> (a - b)\<^sup>2 = 0" using d sq unfolding j by (auto simp: divide_eq_1_iff)
  then show "jain_index [a, b] = 1 \<longleftrightarrow> a = b" by simp
qed

section \<open>Property\<close>


definition wit_observations :: "request_observation list" where
  "wit_observations = map (\<lambda>(c, w). \<lparr>ro_label = c, ro_priority_class = c, ro_priority = 0, ro_arrival_offset_ms = 0,
     ro_queue_wait_s = w, ro_ttft_s = w, ro_total_latency_s = w, ro_completion_tokens = 4\<rparr>)
     [(''high'', 1 / 10), (''high'', 1 / 5), (''low'', 4 / 5), (''low'', 1)]"


end
