(* ===== verification/Spec2Isabelle.thy ===== *)
theory Spec2Isabelle
  imports Lifecycle DownloadArgs Runtime LoadTest PriorityBench
begin

text \<open>
  A verification library for the LLM serving runtime (package \<open>src/src/llm_runtime\<close>, the
  script \<open>src/scripts/download_vllm_smoke_assets.py\<close> and parts of \<open>src/benchmarks\<close>).

  \<^bold>\<open>The program.\<close> A request enters through \<open>api/routes.py\<close>, passes admission control
  (\<open>core/admission.py\<close>), becomes a runtime request with a response handle
  (\<open>core/request.py\<close>, \<open>core/response.py\<close>) and waits in a scheduler (\<open>scheduler/\<close>).
  A worker (\<open>workers/manager.py\<close>) takes batches from the scheduler, runs them on a backend
  (\<open>backends/\<close>) and routes the events to the handles; the route answers from the handle, plain
  or as an event stream (\<open>api/streaming.py\<close>). All of them record metrics (\<open>metrics/\<close>) and
  log (\<open>utils/logging.py\<close>). \<open>config.py\<close>, \<open>core/lifecycle.py\<close> and \<open>main.py\<close> put the
  parts together and start and stop them.

  \<^bold>\<open>Theories and code.\<close>
  \<^item> \<open>Prelude\<close>: Python's numbers and strings, lemma collections. A float is an exact rational, a
    string a list of characters up to U+00FF.
  \<^item> \<open>Request\<close>, \<open>Response\<close>: schemas, runtime request, handles, events; the objects that
    several components share live in a store from references to scheduled requests.
  \<^item> \<open>Admission\<close>: queue cap and token bucket, refined to the generic cell rate algorithm.
  \<^item> \<open>Scheduler\<close>: the environment of a suspended call, and the locale \<open>scheduler\<close> with the laws a
    worker relies on. The locale \<open>stepwise_scheduler\<close>, where every \<open>next_batch\<close> is a run of single
    submissions and pops, is a sublocale of it; \<open>Fifo\<close> and \<open>Priority\<close> interpret it.
  \<^item> \<open>Backend\<close>: batch events, the compatibility mode, the mock backend, and the locale
    \<open>batch_backend\<close>, interpreted on both; \<open>HttpBackend\<close>: the llama.cpp and vLLM backends.
  \<^item> \<open>Json\<close>: \<open>dumps\<close> and \<open>loads\<close>; \<open>Logging\<close>: log events and the formatter.
  \<^item> \<open>Latency\<close>, \<open>Gpu\<close>, \<open>Collector\<close>: percentiles and histograms, \<open>nvidia-smi\<close>, all metrics.
  \<^item> \<open>Worker\<close>: one batch on one worker; \<open>Delivery\<close>, \<open>Settlement\<close>, \<open>Accounting\<close>: what a batch
    means to its requests and to the counters; \<open>Manager\<close>: the worker tasks and their loop, and
    the locale \<open>service\<close>, a scheduler and a backend together, interpreted on FIFO and on priority
    scheduling with the mock backend.
  \<^item> \<open>Streaming\<close>, \<open>Routes\<close>: event frames, generator, the endpoints between their suspension
    points, and the answer to a posted request from end to end.
  \<^item> \<open>Slots\<close>, \<open>Runtime\<close>: a worker between its suspension points (waiting, in a collection window,
    running a batch), and the whole system as a transition relation over these operations, with any
    number of workers, and its invariant.
  \<^item> \<open>Config\<close>, \<open>Lifecycle\<close>: settings from the environment, choice and life of the services;
    \<open>Download\<close>, \<open>DownloadArgs\<close>: the asset download script and its command line.
  \<^item> \<open>LoadTest\<close>, \<open>PriorityBench\<close>: what the benchmarks compute from snapshots and observations.

  \<^bold>\<open>State and environment.\<close> A class is a record, a method a function from the object to its
  result and the new object, an exception a value of a sum or option type (its text, where only the
  text is used). Code between two suspension points of the event loop is one step; what other tasks
  and the outside do during a suspension is an argument of the operation: clock readings,
  submissions and timers (\<open>batch_env\<close>), aborts between the events of a backend (\<open>interleave\<close>),
  the outcome of health polls (\<open>poll\<close>), of a wait (\<open>wait_end\<close>), of a download attempt
  (\<open>attempt\<close>), the frames a client takes. An asynchronous generator is the list of what it
  yields and the exception that ends it. The theorems hold for every such argument.

  \<^bold>\<open>What the lemmas show.\<close> Schedulers conserve requests, keep their order, respect
  the batch size and drain. Admission never accepts more than the bucket allows, and a refusal is
  free. A batch treats each of its requests as if it ran alone, answers each exactly once whatever the
  backend yields, is silent after an abort, and counts each request once unless an abort comes after
  the settlement. Under aging no request starves, whatever else is submitted. Service and routes
  compose these laws: an admitted request is answered with its own tokens behind any queue. However
  posts, workers, time-outs, disconnects and readers interleave, no admitted request is lost or held
  twice, an end is final, and every admitted request has its end after a bounded number of steps. Streams, logs, labels, GPU rows, settings and shell exports are read
  back as what was written. Backends start within a bounded number of polls and never have two
  children; the application leaves no task and no child behind after a successful start.

  \<^bold>\<open>Termination and bounds.\<close> Loops are structural recursions over what drives them: the waits of a
  collection window, the events of a stream, the polls (120 or 600) and the attempts of a download.
  The loop of a worker runs over a list of rounds, and a round that still waits is \<open>None\<close>; that the
  rounds return and how many empty a queue is proved (\<open>serve_drains\<close>, \<open>loop_answers\<close>). In the running
  system every step of a batch is progress (\<open>batch_step_work\<close>), whatever happens in between, and workers
  that can take no step have nothing left to do (\<open>resting_idle\<close>).

  \<^bold>\<open>Not modelled.\<close> FastAPI, pydantic beyond the declared bounds, httpx, the
  inference servers and the hub library; what argparse prints;
  floating-point rounding, infinities and NaN; characters above U+00FF; an asynchronous generator that
  was never started, whose \<open>finally\<close> does not run. In \<open>Runtime\<close> the end of a
  collection window may come at any moment: the clock that decides it is left open. Package markers
  and the benchmark scripts that only start servers and format reports are left out.

  \<^bold>\<open>Where the code falls short\<close> (lemmas that show it): a late abort counts a request
  twice (\<open>late_abort_counts_twice\<close>); a start after a failed start reports success
  (\<open>start_after_failed_start\<close>) and a failed start leaves its child running
  (\<open>failed_start_leaves_child\<close>); a stop while a batch is collected or run leaves its
  requests without an end (\<open>stop_strands_requests\<close>); an error frame is read as a normal
  end by the HTTP backends (\<open>error_frame_swallowed\<close>); the load test reports a 95th
  percentile below the median for two requests (\<open>p95_below_median\<close>) and wrong averages
  after failures (\<open>failures_skew_average\<close>); superscript digits break the GPU parser
  (\<open>parse_int_superscript\<close>); the log line of a batch names no request
  (\<open>batch_formed_drops_ids\<close>).
\<close>

end
